(* ===== verification/Prelude.thy ===== *)
theory Prelude
  imports Main "HOL-Library.Word" "HOL-Library.AList" "HOL-Library.Monad_Syntax"
    "HOL-Library.Sublist"
begin

text \<open>
  Shared material of the development: the machine integer types of the Rust sources, the
  lemma collections the component theories add to, the interface of a keyed store (the
  \<open>DashMap\<close> and \<open>HashMap\<close> fields of the server) with its association-list model, and
  generic lemmas on lists.
\<close>

unbundle bit_operations_syntax

type_synonym u8 = "8 word"
type_synonym u16 = "16 word"
type_synonym u32 = "32 word"
type_synonym u64 = "64 word"
type_synonym bytes = "8 word list"

named_theorems store_laws \<open>what a lookup and the size give after an update of a keyed store\<close>

subsection \<open>Machine integers\<close>

lemma unat_plus_one_below:
  fixes x y :: "'a::len word"
  assumes "x < y"
  shows "unat (x + 1) = Suc (unat x)"
proof -
  have "unat x + 1 \<le> unat y" using assms by (simp add: word_less_nat_alt)
  also have "\<dots> < 2 ^ LENGTH('a)" by (rule unsigned_less)
  finally show ?thesis by (simp add: unat_word_ariths(1))
qed

subsection \<open>Suffixes\<close>

lemma strict_suffix_drop:
  assumes "strict_suffix t s"
  shows "t = drop (length s - length t) s" and "length t < length s"
  using assms by (auto simp: strict_suffix_def suffix_def)

lemma strict_suffix_of_drop: "strict_suffix t (drop n s) \<Longrightarrow> strict_suffix t s"
  using suffix_drop [of n s] by (auto simp: strict_suffix_def suffix_def)

lemma strict_suffix_tl: "strict_suffix t (tl s) \<Longrightarrow> strict_suffix t s"
  by (metis drop_0 drop_Suc strict_suffix_of_drop)

subsection \<open>Keyed stores\<close>

text \<open>
  The contract of the hash maps the server keeps: \<open>get\<close> after \<open>put\<close>, the number of entries,
  and \<open>retain\<close>, which drops the entries a predicate rejects.  \<open>wf\<close> is the invariant of the
  representation.  The laws are those the standard library documents.
\<close>

locale keyed_store =
  fixes get :: "'m \<Rightarrow> 'k \<Rightarrow> 'v option"
    and put :: "'k \<Rightarrow> 'v \<Rightarrow> 'm \<Rightarrow> 'm"
    and retain :: "('k \<Rightarrow> 'v \<Rightarrow> bool) \<Rightarrow> 'm \<Rightarrow> 'm"
    and len :: "'m \<Rightarrow> nat"
    and wf :: "'m \<Rightarrow> bool"
  assumes get_put: "get (put k v m) k' = (if k' = k then Some v else get m k')"
    and get_retain: "wf m \<Longrightarrow>
      get (retain p m) k = (case get m k of None \<Rightarrow> None | Some v \<Rightarrow> if p k v then Some v else None)"
    and len_put: "wf m \<Longrightarrow> len (put k v m) = (if get m k = None then Suc (len m) else len m)"
    and len_retain: "len (retain p m) \<le> len m"
    and wf_put: "wf m \<Longrightarrow> wf (put k v m)"
    and wf_retain: "wf m \<Longrightarrow> wf (retain p m)"
begin

lemma len_put_present: "wf m \<Longrightarrow> get m k \<noteq> None \<Longrightarrow> len (put k v m) = len m"
  by (simp add: len_put)

lemma len_put_le: "wf m \<Longrightarrow> len (put k v m) \<le> Suc (len m)"
  by (simp add: len_put)

lemma guarded_put_bounded:
  assumes "wf m" and "len m \<le> cap" and "get m k \<noteq> None \<or> len m < cap"
  shows "len (put k v m) \<le> cap"
  using assms by (auto simp: len_put)

lemma retain_bounded: "len m \<le> cap \<Longrightarrow> len (retain p m) \<le> cap"
  using len_retain [of p m] by simp

lemma get_retain_keeps:
  "wf m \<Longrightarrow> get m k = Some v \<Longrightarrow> p k v \<Longrightarrow> get (retain p m) k = Some v"
  by (simp add: get_retain)

end

text \<open>The model of such a map: an association list with distinct keys.\<close>

type_synonym ('k, 'v) store = "('k \<times> 'v) list"

definition store_get :: "('k, 'v) store \<Rightarrow> 'k \<Rightarrow> 'v option" where
  "store_get m k = map_of m k"

definition store_put :: "'k \<Rightarrow> 'v \<Rightarrow> ('k, 'v) store \<Rightarrow> ('k, 'v) store" where
  "store_put k v m = AList.update k v m"

definition store_retain :: "('k \<Rightarrow> 'v \<Rightarrow> bool) \<Rightarrow> ('k, 'v) store \<Rightarrow> ('k, 'v) store" where
  "store_retain p m = filter (\<lambda>(k, v). p k v) m"

definition store_wf :: "('k, 'v) store \<Rightarrow> bool" where
  "store_wf m = distinct (map fst m)"

lemma map_of_filter_distinct:
  "distinct (map fst m) \<Longrightarrow>
   map_of (filter (\<lambda>(k, v). p k v) m) k =
     (case map_of m k of None \<Rightarrow> None | Some v \<Rightarrow> if p k v then Some v else None)"
proof (induction m)
  case Nil
  then show ?case by simp
next
  case (Cons kv m)
  obtain k' v' where kv: "kv = (k', v')" by fastforce
  have none: "map_of m k' = None" if "k' \<notin> fst ` set m"
    using that by (simp add: map_of_eq_None_iff)
  show ?case using Cons none kv
    by (auto split: option.splits)
qed

lemma length_update:
  "length (AList.update k v m) = (if map_of m k = None then Suc (length m) else length m)"
  by (induction m) auto

lemma distinct_fst_filter: "distinct (map fst m) \<Longrightarrow> distinct (map fst (filter p m))"
  by (induction m) (auto simp: image_def)

interpretation st: keyed_store store_get store_put store_retain length store_wf
proof (unfold_locales, goal_cases)
  case (1 k v m k')
  show ?case by (simp add: store_get_def store_put_def update_conv')
next
  case (2 m p k)
  then show ?case
    by (simp add: store_get_def store_retain_def store_wf_def map_of_filter_distinct)
next
  case (3 m k v)
  show ?case by (simp add: store_get_def store_put_def length_update)
next
  case (4 p m)
  show ?case by (simp add: store_retain_def)
next
  case (5 m k v)
  then show ?case by (simp add: store_wf_def store_put_def distinct_update)
next
  case (6 m p)
  then show ?case by (simp add: store_wf_def store_retain_def distinct_fst_filter)
qed

lemma store_wf_Nil [simp]: "store_wf []"
  by (simp add: store_wf_def)

lemma store_get_Nil [simp]: "store_get [] k = None"
  by (simp add: store_get_def)

lemmas store_facts [store_laws] =
  st.get_put st.len_put st.wf_put st.wf_retain

end
