(* ===== verification/Rate_Limit.thy ===== *)
theory Rate_Limit
  imports Prelude
begin

text \<open>
  The rate limiter of \<open>src/src/ratelimit.rs\<close>: a bounded map from keys to buckets that count
  the requests of the current second, minute and hour.  The clock is an argument of the
  operations; counters and time stamps are 64-bit words, as in the code.
\<close>

datatype rate_limit_result =
  Allowed | ExceededSecond | ExceededMinute | ExceededHour | ExceededBucketLimit

record rate_limit_bucket =
  second_ts :: u64
  second_count :: u64
  minute_ts :: u64
  minute_count :: u64
  hour_ts :: u64
  hour_count :: u64

record rate_limit_manager =
  buckets :: "(bytes, rate_limit_bucket) store"
  max_buckets :: nat

definition bucket_new :: "u64 \<Rightarrow> rate_limit_bucket" where
  "bucket_new now = \<lparr>second_ts = now, second_count = 0, minute_ts = now div 60, minute_count = 0,
     hour_ts = now div 3600, hour_count = 0\<rparr>"

definition manager_new :: "nat \<Rightarrow> rate_limit_manager" where
  "manager_new m = \<lparr>buckets = [], max_buckets = m\<rparr>"

text \<open>
  \<open>roll\<close> resets the counters whose window has changed, \<open>verdict\<close> compares the counters with
  the limits (0 means unlimited), \<open>bump\<close> increments them: the three stretches of \<open>check\<close>.
\<close>

definition roll :: "u64 \<Rightarrow> rate_limit_bucket \<Rightarrow> rate_limit_bucket" where
  "roll now b =
     (let b1 = (if second_ts b \<noteq> now then b\<lparr>second_ts := now, second_count := 0\<rparr> else b);
          b2 = (if minute_ts b1 \<noteq> now div 60
                then b1\<lparr>minute_ts := now div 60, minute_count := 0\<rparr> else b1)
      in if hour_ts b2 \<noteq> now div 3600 then b2\<lparr>hour_ts := now div 3600, hour_count := 0\<rparr> else b2)"

definition verdict :: "u64 \<Rightarrow> u64 \<Rightarrow> u64 \<Rightarrow> rate_limit_bucket \<Rightarrow> rate_limit_result" where
  "verdict per_second per_minute per_hour b =
     (if per_second > 0 \<and> second_count b \<ge> per_second then ExceededSecond
      else if per_minute > 0 \<and> minute_count b \<ge> per_minute then ExceededMinute
      else if per_hour > 0 \<and> hour_count b \<ge> per_hour then ExceededHour
      else Allowed)"

definition bump :: "rate_limit_bucket \<Rightarrow> rate_limit_bucket" where
  "bump b = b\<lparr>second_count := second_count b + 1, minute_count := minute_count b + 1,
     hour_count := hour_count b + 1\<rparr>"

text \<open>
  The admission test and the entry update are two accesses to the concurrent map; \<open>check\<close> is
  their sequence.  \<open>now2\<close> is the second clock reading, taken by \<open>RateLimitBucket::new\<close>.
\<close>

definition admit :: "rate_limit_manager \<Rightarrow> bytes \<Rightarrow> bool" where
  "admit mgr key = (\<not> (store_get (buckets mgr) key = None \<and> length (buckets mgr) \<ge> max_buckets mgr))"

definition enter ::
  "rate_limit_manager \<Rightarrow> bytes \<Rightarrow> u64 \<Rightarrow> u64 \<Rightarrow> u64 \<Rightarrow> u64 \<Rightarrow> u64 \<Rightarrow>
    rate_limit_result \<times> rate_limit_manager" where
  "enter mgr key per_second per_minute per_hour now now2 =
     (let b = (case store_get (buckets mgr) key of None \<Rightarrow> bucket_new now2 | Some b \<Rightarrow> b);
          b' = roll now b;
          r = verdict per_second per_minute per_hour b'
      in (r, mgr\<lparr>buckets := store_put key (if r = Allowed then bump b' else b') (buckets mgr)\<rparr>))"

definition check ::
  "rate_limit_manager \<Rightarrow> bytes \<Rightarrow> u64 \<Rightarrow> u64 \<Rightarrow> u64 \<Rightarrow> u64 \<Rightarrow> u64 \<Rightarrow>
    rate_limit_result \<times> rate_limit_manager" where
  "check mgr key per_second per_minute per_hour now now2 =
     (if \<not> admit mgr key then (ExceededBucketLimit, mgr)
      else enter mgr key per_second per_minute per_hour now now2)"

definition cleanup_expired :: "rate_limit_manager \<Rightarrow> u64 \<Rightarrow> rate_limit_manager" where
  "cleanup_expired mgr now =
     mgr\<lparr>buckets := store_retain (\<lambda>_ b. hour_ts b = now div 3600) (buckets mgr)\<rparr>"


subsection \<open>Runs\<close>

text \<open>
  A run is a sequence of calls, of any keys and limits, with the clean-ups of the background
  task in between; its log is the list of answers.
\<close>

datatype rl_event =
    Check bytes u64 u64 u64 u64 u64
  | Cleanup u64

fun ev_now :: "rl_event \<Rightarrow> u64" where
  "ev_now (Check key ps pm ph now now2) = now"
| "ev_now (Cleanup now) = now"

fun rl_run :: "rate_limit_manager \<Rightarrow> rl_event list \<Rightarrow>
    (bytes \<times> rate_limit_result) list \<times> rate_limit_manager" where
  "rl_run mgr [] = ([], mgr)"
| "rl_run mgr (Check key ps pm ph now now2 # es) =
     (let (r, mgr1) = check mgr key ps pm ph now now2; (log, mgr2) = rl_run mgr1 es
      in ((key, r) # log, mgr2))"
| "rl_run mgr (Cleanup now # es) = rl_run (cleanup_expired mgr now) es"

fun uses_limits :: "bytes \<Rightarrow> (u64 \<Rightarrow> u64 \<Rightarrow> u64 \<Rightarrow> bool) \<Rightarrow> rl_event \<Rightarrow> bool" where
  "uses_limits k p (Check key ps pm ph now now2) = (key = k \<longrightarrow> p ps pm ph)"
| "uses_limits k p (Cleanup now) = True"

definition allowed_count :: "bytes \<Rightarrow> (bytes \<times> rate_limit_result) list \<Rightarrow> nat" where
  "allowed_count k log = length (filter (\<lambda>(k', r). k' = k \<and> r = Allowed) log)"

subsection \<open>The invariant of the buckets\<close>

definition coherent :: "rate_limit_bucket \<Rightarrow> bool" where
  "coherent b = (minute_ts b = second_ts b div 60 \<and> hour_ts b = second_ts b div 3600)"

definition manager_inv :: "rate_limit_manager \<Rightarrow> bool" where
  "manager_inv mgr = (store_wf (buckets mgr) \<and> length (buckets mgr) \<le> max_buckets mgr \<and>
     (\<forall>k b. store_get (buckets mgr) k = Some b \<longrightarrow> coherent b))"

lemma roll_fields [simp]:
  "second_ts (roll now b) = now"
  "minute_ts (roll now b) = now div 60"
  "hour_ts (roll now b) = now div 3600"
  "second_count (roll now b) = (if second_ts b = now then second_count b else 0)"
  "minute_count (roll now b) = (if minute_ts b = now div 60 then minute_count b else 0)"
  "hour_count (roll now b) = (if hour_ts b = now div 3600 then hour_count b else 0)"
  by (auto simp: roll_def Let_def)

lemma bump_fields [simp]:
  "second_ts (bump b) = second_ts b" "second_count (bump b) = second_count b + 1"
  "minute_ts (bump b) = minute_ts b" "minute_count (bump b) = minute_count b + 1"
  "hour_ts (bump b) = hour_ts b" "hour_count (bump b) = hour_count b + 1"
  by (simp_all add: bump_def)

lemma coherent_roll [simp]: "coherent (roll now b)"
  by (simp add: coherent_def)

lemma coherent_bump [simp]: "coherent (bump b) = coherent b"
  by (simp add: coherent_def)

lemma enter_manager_fields [simp]:
  "max_buckets (snd (enter mgr key ps pm ph now now2)) = max_buckets mgr"
  by (simp add: enter_def Let_def)

lemma enter_buckets:
  obtains b where "coherent b"
    and "buckets (snd (enter mgr key ps pm ph now now2)) = store_put key b (buckets mgr)"
  by (rule that [of "if fst (enter mgr key ps pm ph now now2) = Allowed
        then bump (roll now (case store_get (buckets mgr) key of None \<Rightarrow> bucket_new now2 | Some b \<Rightarrow> b))
        else roll now (case store_get (buckets mgr) key of None \<Rightarrow> bucket_new now2 | Some b \<Rightarrow> b)"])
    (simp_all add: enter_def Let_def)

lemma check_inv:
  assumes "manager_inv mgr"
  shows "manager_inv (snd (check mgr key ps pm ph now now2))"
proof (cases "admit mgr key")
  case True
  obtain b where b: "coherent b"
    and put: "buckets (snd (enter mgr key ps pm ph now now2)) = store_put key b (buckets mgr)"
    by (rule enter_buckets)
  have len: "length (store_put key b (buckets mgr)) \<le> max_buckets mgr"
    using assms True by (intro st.guarded_put_bounded) (auto simp: manager_inv_def admit_def)
  show ?thesis
    using assms True b len by (auto simp: check_def manager_inv_def put store_laws)
next
  case False
  with assms show ?thesis by (simp add: check_def)
qed

lemma cleanup_inv:
  assumes "manager_inv mgr"
  shows "manager_inv (cleanup_expired mgr now)"
  using assms
  by (auto simp: manager_inv_def cleanup_expired_def st.wf_retain st.retain_bounded st.get_retain
      split: option.splits if_splits)

lemma manager_new_inv: "manager_inv (manager_new m)"
  by (simp add: manager_inv_def manager_new_def)

lemma rl_run_inv: "manager_inv mgr \<Longrightarrow> manager_inv (snd (rl_run mgr es))"
proof (induction mgr es rule: rl_run.induct)
  case (2 mgr key ps pm ph now now2 es)
  then show ?case
    using check_inv [of mgr key ps pm ph now now2] by (auto split: prod.splits)
qed (simp_all add: cleanup_inv)

subsection \<open>The windows share one contract\<close>

text \<open>
  A window is a time stamp and a counter of the bucket: \<open>roll\<close> moves the stamp to the window
  of the clock and clears the counter when it moved, \<open>bump\<close> adds one, and an answer
  \<open>Allowed\<close> means that the counter is below the window's limit, if there is one.
\<close>

locale window =
  fixes ts :: "rate_limit_bucket \<Rightarrow> u64"
    and cnt :: "rate_limit_bucket \<Rightarrow> u64"
    and win :: "u64 \<Rightarrow> u64"
    and lim :: "u64 \<Rightarrow> u64 \<Rightarrow> u64 \<Rightarrow> u64"
  assumes ts_roll: "ts (roll now b) = win now"
    and cnt_roll: "cnt (roll now b) = (if ts b = win now then cnt b else 0)"
    and ts_bump: "ts (bump b) = ts b"
    and cnt_bump: "cnt (bump b) = cnt b + 1"
    and cnt_new: "cnt (bucket_new now) = 0"
    and allowed_below: "verdict ps pm ph b = Allowed \<Longrightarrow> lim ps pm ph > 0 \<Longrightarrow> cnt b < lim ps pm ph"
    and ts_coherent: "coherent b \<Longrightarrow> ts b = win (second_ts b)"
    and win_hour: "win t = win t' \<Longrightarrow> t div 3600 = t' div 3600"
begin

definition level :: "rate_limit_manager \<Rightarrow> bytes \<Rightarrow> u64 \<Rightarrow> nat" where
  "level mgr k w = (case store_get (buckets mgr) k of None \<Rightarrow> 0
     | Some b \<Rightarrow> if ts b = w then unat (cnt b) else 0)"

lemma level_cleanup:
  assumes "manager_inv mgr" and "win now = w"
  shows "level (cleanup_expired mgr now) k w = level mgr k w"
proof (cases "store_get (buckets mgr) k")
  case None
  with assms show ?thesis
    by (simp add: level_def cleanup_expired_def st.get_retain manager_inv_def)
next
  case (Some b)
  with assms have coh: "coherent b" by (simp add: manager_inv_def)
  have "hour_ts b = now div 3600" if "ts b = w"
    using that assms(2) ts_coherent [OF coh] win_hour [of "second_ts b" now] coh
    by (simp add: coherent_def)
  with Some assms show ?thesis
    by (auto simp: level_def cleanup_expired_def st.get_retain manager_inv_def)
qed

lemma level_other:
  "k \<noteq> key \<Longrightarrow> level (snd (check mgr key ps pm ph now now2)) k w = level mgr k w"
  by (simp add: level_def check_def enter_def Let_def st.get_put)

lemma check_not_allowed:
  assumes "fst (check mgr k ps pm ph now now2) \<noteq> Allowed" and "win now = w"
  shows "level (snd (check mgr k ps pm ph now now2)) k w = level mgr k w"
  using assms
  by (auto simp: level_def check_def enter_def Let_def st.get_put ts_roll cnt_roll cnt_new
      split: option.splits)

lemma check_allowed:
  assumes ok: "fst (check mgr k ps pm ph now now2) = Allowed"
    and w: "win now = w" and L: "lim ps pm ph = L" "L > 0"
  shows "level (snd (check mgr k ps pm ph now now2)) k w = Suc (level mgr k w)"
    and "level mgr k w < unat L"
proof -
  define b where "b = roll now (case store_get (buckets mgr) k of None \<Rightarrow> bucket_new now2 | Some b \<Rightarrow> b)"
  have v: "verdict ps pm ph b = Allowed"
    using ok by (simp add: check_def enter_def Let_def b_def split: if_splits)
  have below: "cnt b < L" using allowed_below [OF v] L by simp
  have lev: "level mgr k w = unat (cnt b)"
    using w by (auto simp: level_def b_def cnt_roll cnt_new split: option.splits)
  have "unat (cnt b + 1) = Suc (unat (cnt b))"
    using below by (rule unat_plus_one_below)
  moreover have "level (snd (check mgr k ps pm ph now now2)) k w = unat (cnt b + 1)"
    using ok v w unfolding b_def
    by (auto simp: level_def check_def enter_def Let_def st.get_put ts_bump cnt_bump ts_roll split: if_splits)
  ultimately show "level (snd (check mgr k ps pm ph now now2)) k w = Suc (level mgr k w)"
    using lev by simp
  show "level mgr k w < unat L"
    using lev below by (simp add: word_less_nat_alt)
qed

lemma allowed_in_window:
  assumes "manager_inv mgr"
    and "\<forall>e \<in> set es. win (ev_now e) = w"
    and "\<forall>e \<in> set es. uses_limits k (\<lambda>ps pm ph. lim ps pm ph = L) e"
    and "L > 0"
  shows "allowed_count k (fst (rl_run mgr es)) \<le> unat L - level mgr k w"
  using assms
proof (induction mgr es rule: rl_run.induct)
  case (1 mgr)
  then show ?case by (simp add: allowed_count_def)
next
  case (2 mgr key ps pm ph now now2 es)
  define mgr1 where "mgr1 = snd (check mgr key ps pm ph now now2)"
  have chk: "check mgr key ps pm ph now now2 = (fst (check mgr key ps pm ph now now2), mgr1)"
    by (simp add: mgr1_def)
  have IH: "allowed_count k (fst (rl_run mgr1 es)) \<le> unat L - level mgr1 k w"
    using "2.IH" [OF chk [symmetric] refl] "2.prems" check_inv [of mgr key ps pm ph now now2]
    by (simp add: mgr1_def)
  have now: "win now = w" using "2.prems" by simp
  have head: "allowed_count k (fst (rl_run mgr (Check key ps pm ph now now2 # es))) =
      (if key = k \<and> fst (check mgr key ps pm ph now now2) = Allowed then 1 else 0)
        + allowed_count k (fst (rl_run mgr1 es))"
    by (subst rl_run.simps, subst chk) (auto simp: allowed_count_def split: prod.splits)
  show ?case
  proof (cases "key = k \<and> fst (check mgr key ps pm ph now now2) = Allowed")
    case True
    with check_allowed [of mgr key ps pm ph now now2 w L] now "2.prems"
    have "level mgr1 k w = Suc (level mgr k w)" and "level mgr k w < unat L"
      by (auto simp: mgr1_def)
    with IH True show ?thesis unfolding head by auto
  next
    case False
    have "level mgr1 k w = level mgr k w"
      using False now level_other [of k key mgr ps pm ph now now2 w]
        check_not_allowed [of mgr k ps pm ph now now2 w]
      by (cases "key = k") (auto simp: mgr1_def)
    with IH False show ?thesis unfolding head by auto
  qed
next
  case (3 mgr now es)
  then have "level (cleanup_expired mgr now) k w = level mgr k w"
    by (simp add: level_cleanup)
  with 3 show ?case by (simp add: cleanup_inv)
qed

end

lemma div_60_div_60: "(t :: u64) div 60 div 60 = t div 3600"
  by (simp add: word_unat_eq_iff unat_div div_mult2_eq [symmetric])

interpretation sec: window second_ts second_count "\<lambda>t. t" "\<lambda>ps pm ph. ps"
  by unfold_locales (auto simp: bucket_new_def verdict_def split: if_splits)

interpretation mnt: window minute_ts minute_count "\<lambda>t. t div 60" "\<lambda>ps pm ph. pm"
  by unfold_locales
    (auto simp: bucket_new_def verdict_def coherent_def div_60_div_60 [symmetric] split: if_splits)

interpretation hr: window hour_ts hour_count "\<lambda>t. t div 3600" "\<lambda>ps pm ph. ph"
  by unfold_locales (auto simp: bucket_new_def verdict_def coherent_def split: if_splits)


subsection \<open>Concurrent callers\<close>

text \<open>
  Worker threads share the manager.  The admission test and the entry update are separate
  accesses to the map, so another worker can run between them: a step is one worker passing
  the test, one worker updating its entry, or a clean-up.
\<close>

record rl_conc =
  shared :: rate_limit_manager
  pending :: "nat \<rightharpoonup> bytes"

inductive conc_step :: "nat \<Rightarrow> rl_conc \<Rightarrow> rl_conc \<Rightarrow> bool" for n where
  pass: "w < n \<Longrightarrow> pending s w = None \<Longrightarrow> admit (shared s) key \<Longrightarrow>
     conc_step n s (s\<lparr>pending := (pending s)(w \<mapsto> key)\<rparr>)"
| update: "pending s w = Some key \<Longrightarrow>
     conc_step n s (s\<lparr>shared := snd (enter (shared s) key ps pm ph now now2),
       pending := (pending s)(w := None)\<rparr>)"
| cleanup: "conc_step n s (s\<lparr>shared := cleanup_expired (shared s) now\<rparr>)"

inductive conc_reach :: "nat \<Rightarrow> nat \<Rightarrow> rl_conc \<Rightarrow> bool" for n m where
  start: "conc_reach n m \<lparr>shared = manager_new m, pending = Map.empty\<rparr>"
| step: "conc_reach n m s \<Longrightarrow> conc_step n s t \<Longrightarrow> conc_reach n m t"

text \<open>The keys that a worker has been admitted for and that the map does not hold.\<close>

definition absent :: "rl_conc \<Rightarrow> bytes set" where
  "absent s = {k \<in> ran (pending s). store_get (buckets (shared s)) k = None}"

definition conc_inv :: "nat \<Rightarrow> nat \<Rightarrow> rl_conc \<Rightarrow> bool" where
  "conc_inv n m s = (store_wf (buckets (shared s)) \<and> max_buckets (shared s) = m \<and>
     dom (pending s) \<subseteq> {..<n} \<and> length (buckets (shared s)) + card (absent s) \<le> m + (n - 1))"

lemma finite_ran_pending: "dom (pending s) \<subseteq> {..<n} \<Longrightarrow> finite (ran (pending s))"
  by (metis finite_lessThan finite_ran finite_subset)

lemma card_absent_le:
  assumes "dom (pending s) \<subseteq> {..<n}"
  shows "card (absent s) \<le> n"
proof -
  have "ran (pending s) = (\<lambda>w. the (pending s w)) ` dom (pending s)"
    by (force simp: ran_def dom_def)
  then have "absent s \<subseteq> (\<lambda>w. the (pending s w)) ` {..<n}"
    using assms by (auto simp: absent_def)
  then have "card (absent s) \<le> card ((\<lambda>w. the (pending s w)) ` {..<n})"
    by (rule card_mono [rotated]) simp
  also have "\<dots> \<le> n" using card_image_le [of "{..<n}"] by simp
  finally show ?thesis .
qed

lemma store_retain_dropped:
  assumes "store_wf m"
  shows "length (store_retain p m) + card {k. store_get m k \<noteq> None \<and> store_get (store_retain p m) k = None}
    = length m"
  using assms
proof (induction m)
  case Nil
  then show ?case by (simp add: store_retain_def)
next
  case (Cons kv m)
  obtain k v where kv: "kv = (k, v)" by fastforce
  have wf: "store_wf m" and k: "store_get m k = None"
    using Cons.prems kv by (auto simp: store_wf_def store_get_def map_of_eq_None_iff)
  have k': "store_get (store_retain p m) k = None"
    using k wf by (simp add: st.get_retain)
  let ?D = "{k. store_get m k \<noteq> None \<and> store_get (store_retain p m) k = None}"
  have fin: "finite ?D"
    by (rule finite_subset [OF _ finite_dom_map_of [of m]]) (auto simp: store_get_def dom_def)
  have notin: "k \<notin> ?D" using k by simp
  have D: "{k'. store_get (kv # m) k' \<noteq> None \<and> store_get (store_retain p (kv # m)) k' = None}
      = (if p k v then ?D else insert k ?D)"
    using k k' kv by (auto simp: store_get_def store_retain_def)
  show ?case
    using Cons.IH [OF wf] fin notin kv unfolding D by (simp add: store_retain_def)
qed

lemma conc_cleanup_inv:
  assumes "conc_inv n m s"
  shows "conc_inv n m (s\<lparr>shared := cleanup_expired (shared s) now\<rparr>)"
proof -
  let ?p = "\<lambda>_ b. hour_ts b = now div 3600" and ?m = "buckets (shared s)"
  let ?D = "{k. store_get ?m k \<noteq> None \<and> store_get (store_retain ?p ?m) k = None}"
  have fin: "finite (absent s)"
    using assms finite_ran_pending [of s n] by (simp add: conc_inv_def absent_def)
  have finD: "finite ?D"
    by (rule finite_subset [OF _ finite_dom_map_of [of ?m]]) (auto simp: store_get_def dom_def)
  have "absent (s\<lparr>shared := cleanup_expired (shared s) now\<rparr>) \<subseteq> absent s \<union> ?D"
    by (auto simp: absent_def cleanup_expired_def)
  then have "card (absent (s\<lparr>shared := cleanup_expired (shared s) now\<rparr>)) \<le> card (absent s) + card ?D"
    using fin finD by (meson card_Un_le card_mono finite_Un le_trans)
  moreover have "length (store_retain ?p ?m) + card ?D = length ?m"
    using assms by (intro store_retain_dropped) (simp add: conc_inv_def)
  ultimately show ?thesis
    using assms by (auto simp: conc_inv_def cleanup_expired_def st.wf_retain)
qed

lemma conc_pass_inv:
  assumes inv: "conc_inv n m s" and w: "w < n" and adm: "admit (shared s) key"
  shows "conc_inv n m (s\<lparr>pending := (pending s)(w \<mapsto> key)\<rparr>)" (is "conc_inv n m ?t")
proof -
  have dom: "dom (pending ?t) \<subseteq> {..<n}" using inv w by (auto simp: conc_inv_def)
  have "length (buckets (shared s)) + card (absent ?t) \<le> m + (n - 1)"
  proof (cases "store_get (buckets (shared s)) key = None")
    case True
    then have "length (buckets (shared s)) < m" using adm inv by (auto simp: admit_def conc_inv_def)
    moreover have "card (absent ?t) \<le> n" by (rule card_absent_le [OF dom])
    ultimately show ?thesis using w by linarith
  next
    case False
    then have "absent ?t \<subseteq> absent s" by (auto simp: absent_def ran_def split: if_splits)
    moreover have "finite (absent s)"
      using inv finite_ran_pending [of s n] by (simp add: conc_inv_def absent_def)
    ultimately show ?thesis using inv card_mono [of "absent s" "absent ?t"] by (simp add: conc_inv_def)
  qed
  with inv dom show ?thesis by (simp add: conc_inv_def)
qed

lemma conc_update_inv:
  assumes inv: "conc_inv n m s" and w: "pending s w = Some key"
  shows "conc_inv n m (s\<lparr>shared := snd (enter (shared s) key ps pm ph now now2),
       pending := (pending s)(w := None)\<rparr>)" (is "conc_inv n m ?t")
proof -
  obtain b where put: "buckets (shared ?t) = store_put key b (buckets (shared s))"
    by (rule enter_buckets [of "shared s" key ps pm ph now now2]) simp
  have dom: "dom (pending ?t) \<subseteq> {..<n}" using inv by (auto simp: conc_inv_def)
  have fin: "finite (absent s)"
    using inv finite_ran_pending [of s n] by (simp add: conc_inv_def absent_def)
  have sub: "absent ?t \<subseteq> absent s - {key}"
    unfolding absent_def put by (auto simp: st.get_put ran_def split: if_splits)
  have "length (buckets (shared ?t)) + card (absent ?t) \<le> length (buckets (shared s)) + card (absent s)"
  proof (cases "store_get (buckets (shared s)) key = None")
    case True
    then have "key \<in> absent s" using w by (auto simp: absent_def ran_def)
    then have "card (absent ?t) < card (absent s)"
      using sub fin by (intro psubset_card_mono) auto
    then show ?thesis using True inv unfolding put by (simp add: st.len_put conc_inv_def)
  next
    case False
    have "card (absent ?t) \<le> card (absent s)" using sub fin by (intro card_mono) auto
    then show ?thesis using False inv unfolding put by (simp add: st.len_put_present conc_inv_def)
  qed
  with inv dom put show ?thesis by (simp add: conc_inv_def st.wf_put)
qed

lemma conc_step_inv: "conc_step n s t \<Longrightarrow> conc_inv n m s \<Longrightarrow> conc_inv n m t"
  by (induction rule: conc_step.induct) (simp_all add: conc_pass_inv conc_update_inv conc_cleanup_inv)

lemma conc_reach_inv: "conc_reach n m s \<Longrightarrow> conc_inv n m s"
proof (induction rule: conc_reach.induct)
  case start
  show ?case by (simp add: conc_inv_def manager_new_def absent_def)
next
  case (step s t)
  then show ?case by (blast intro: conc_step_inv)
qed


subsection \<open>Properties\<close>

text \<open>C5. Whatever ran before, and whatever other keys are checked and however often the
  background clean-up runs, at most \<open>per_hour\<close> checks of one key are allowed within one
  clock hour; the clean-up never forgets a count that still matters.\<close>

theorem rate_limit_per_hour:
  assumes "\<forall>e \<in> set es. ev_now e div 3600 = h"
    and "\<forall>e \<in> set es. uses_limits k (\<lambda>ps pm ph. ph = L) e" and "L > 0"
  shows "allowed_count k (fst (rl_run (snd (rl_run (manager_new m) before)) es)) \<le> unat L"
  using hr.allowed_in_window [OF rl_run_inv [OF manager_new_inv, of m before] assms] by simp

theorem rate_limit_per_hour_witness:
  "allowed_count [1] (fst (rl_run (snd (rl_run (manager_new 2) [])) [Check [1] 0 0 1 7200 7200, Cleanup 7201,
     Check [1] 0 0 1 7300 7300])) \<le> unat (1 :: u64)
   \<and> allowed_count [1] (fst (rl_run (manager_new 2) [Check [1] 0 0 1 7200 7200, Cleanup 7201,
     Check [1] 0 0 1 7300 7300])) = 1"
proof
  show "allowed_count [1] (fst (rl_run (snd (rl_run (manager_new 2) [])) [Check [1] 0 0 1 7200 7200, Cleanup 7201,
     Check [1] 0 0 1 7300 7300])) \<le> unat (1 :: u64)"
    by (rule rate_limit_per_hour [where h = 2]) simp_all
  show "allowed_count [1] (fst (rl_run (manager_new 2) [Check [1] 0 0 1 7200 7200, Cleanup 7201,
     Check [1] 0 0 1 7300 7300])) = 1"
    by code_simp
qed

text \<open>The same bound for the per-second limit: at most \<open>per_second\<close> checks of a key are
  allowed while the clock shows one second.\<close>

theorem rate_limit_per_second:
  assumes "\<forall>e \<in> set es. ev_now e = t"
    and "\<forall>e \<in> set es. uses_limits k (\<lambda>ps pm ph. ps = L) e" and "L > 0"
  shows "allowed_count k (fst (rl_run (snd (rl_run (manager_new m) before)) es)) \<le> unat L"
  using sec.allowed_in_window [OF rl_run_inv [OF manager_new_inv, of m before] assms] by simp

theorem rate_limit_per_second_witness:
  "allowed_count [7] (fst (rl_run (snd (rl_run (manager_new 2) [])) [Check [7] 2 0 0 5 5, Check [7] 2 0 0 5 6,
     Check [7] 2 9 0 5 5])) \<le> unat (2 :: u64)"
  by (rule rate_limit_per_second [where t = 5]) simp_all

text \<open>A check is allowed exactly when the key has or may get a bucket and, in every window
  with a limit, fewer requests than the limit were counted since the window began.\<close>

theorem check_allowed_iff:
  "fst (check mgr k ps pm ph now now2) = Allowed \<longleftrightarrow>
     admit mgr k \<and> (ps = 0 \<or> sec.level mgr k now < unat ps)
       \<and> (pm = 0 \<or> mnt.level mgr k (now div 60) < unat pm)
       \<and> (ph = 0 \<or> hr.level mgr k (now div 3600) < unat ph)"
proof -
  define b where "b = roll now (case store_get (buckets mgr) k of None \<Rightarrow> bucket_new now2 | Some b \<Rightarrow> b)"
  have lev: "sec.level mgr k now = unat (second_count b)"
    "mnt.level mgr k (now div 60) = unat (minute_count b)"
    "hr.level mgr k (now div 3600) = unat (hour_count b)"
    by (auto simp: sec.level_def mnt.level_def hr.level_def b_def bucket_new_def split: option.splits)
  have "fst (check mgr k ps pm ph now now2) = Allowed \<longleftrightarrow> admit mgr k \<and> verdict ps pm ph b = Allowed"
    by (simp add: check_def enter_def Let_def b_def)
  then show ?thesis
    unfolding lev
    by (auto simp: verdict_def word_less_nat_alt word_le_nat_alt word_neq_0_conv unat_eq_0 split: if_splits)
qed

text \<open>Used from one thread, the map never grows beyond \<open>max_buckets\<close> and its buckets stay
  coherent: the minute and hour stamps are those of the second stamp.\<close>

theorem rate_limit_invariant: "manager_inv (snd (rl_run (manager_new m) es))"
  by (rule rl_run_inv [OF manager_new_inv])

text \<open>C34. Used from \<open>n\<close> threads, where another worker can run between the admission test and
  the insertion, the map never grows beyond \<open>max_buckets + n - 1\<close> entries.\<close>

theorem rate_limit_concurrent_bound:
  assumes "conc_reach n m s"
  shows "length (buckets (shared s)) \<le> m + (n - 1)"
  using conc_reach_inv [OF assms] by (simp add: conc_inv_def)

text \<open>The bound is attained: two workers that pass the test before either inserts leave two
  buckets in a map limited to one.\<close>

theorem rate_limit_concurrent_bound_witness:
  "\<exists>s. conc_reach 2 1 s \<and> length (buckets (shared s)) = 2 \<and> length (buckets (shared s)) \<le> 1 + (2 - 1)"
proof -
  define s0 where "s0 = \<lparr>shared = manager_new 1, pending = (Map.empty :: nat \<rightharpoonup> bytes)\<rparr>"
  define s1 where "s1 = s0\<lparr>pending := (pending s0)(0 \<mapsto> [1])\<rparr>"
  define s2 where "s2 = s1\<lparr>pending := (pending s1)(1 \<mapsto> [2])\<rparr>"
  define s3 where "s3 = s2\<lparr>shared := snd (enter (shared s2) [1] 0 0 0 0 0), pending := (pending s2)(0 := None)\<rparr>"
  define s4 where "s4 = s3\<lparr>shared := snd (enter (shared s3) [2] 0 0 0 0 0), pending := (pending s3)(1 := None)\<rparr>"
  have r0: "conc_reach 2 1 s0" unfolding s0_def by (rule conc_reach.start)
  have r1: "conc_reach 2 1 s1" unfolding s1_def
    by (rule conc_reach.step [OF r0], rule conc_step.pass) (simp_all add: s0_def admit_def manager_new_def)
  have r2: "conc_reach 2 1 s2" unfolding s2_def
    by (rule conc_reach.step [OF r1], rule conc_step.pass)
      (simp_all add: s1_def s0_def admit_def manager_new_def)
  have r3: "conc_reach 2 1 s3" unfolding s3_def
    by (rule conc_reach.step [OF r2], rule conc_step.update) (simp add: s2_def s1_def)
  have r4: "conc_reach 2 1 s4" unfolding s4_def
    by (rule conc_reach.step [OF r3], rule conc_step.update) (simp add: s3_def s2_def)
  have "length (buckets (shared s4)) = 2"
    by (simp add: s4_def s3_def s2_def s1_def s0_def enter_def Let_def manager_new_def store_put_def)
  with r4 rate_limit_concurrent_bound [OF r4] show ?thesis by blast
qed

end
