(* ===== verification/Rust_Text.thy ===== *)
theory Rust_Text
  imports Prelude
begin

text \<open>
  The parts of Rust's \<open>str\<close>, \<open>u8\<close>, \<open>String::from_utf8\<close> and \<open>Path\<close> interfaces that the
  modelled code calls.  A \<open>str\<close> is its sequence of UTF-8 bytes, an Isabelle \<open>string\<close>.
\<close>

subsection \<open>Splitting and joining\<close>

fun split_on :: "'a \<Rightarrow> 'a list \<Rightarrow> 'a list list" where
  "split_on c [] = [[]]"
| "split_on c (x # xs) =
     (if x = c then [] # split_on c xs
      else (case split_on c xs of [] \<Rightarrow> [[x]] | y # ys \<Rightarrow> (x # y) # ys))"

fun join_with :: "'a list \<Rightarrow> 'a list list \<Rightarrow> 'a list" where
  "join_with sep [] = []"
| "join_with sep [x] = x"
| "join_with sep (x # y # ys) = x @ sep @ join_with sep (y # ys)"

lemma split_on_not_Nil [simp]: "split_on c xs \<noteq> []"
  by (induction xs) (auto split: list.splits)

lemma join_with_Cons: "ys \<noteq> [] \<Longrightarrow> join_with sep (x # ys) = x @ sep @ join_with sep ys"
  by (cases ys) auto

lemma join_with_head: "join_with sep ((a # x) # ys) = a # join_with sep (x # ys)"
  by (cases ys) auto

lemma join_split [simp]: "join_with [c] (split_on c xs) = xs"
proof (induction xs)
  case (Cons x xs)
  then show ?case
    by (auto simp: join_with_Cons join_with_head split: list.splits)
qed simp

lemma split_on_parts: "p \<in> set (split_on c xs) \<Longrightarrow> c \<notin> set p"
proof (induction xs arbitrary: p)
  case (Cons x xs)
  then show ?case by (auto split: if_splits list.splits)
qed simp

lemma split_on_none: "c \<notin> set xs \<Longrightarrow> split_on c xs = [xs]"
  by (induction xs) auto

lemma split_on_append: "c \<notin> set xs \<Longrightarrow> split_on c (xs @ c # ys) = xs # split_on c ys"
  by (induction xs) auto

lemma split_on_sep: "split_on c (xs @ c # ys) = split_on c xs @ split_on c ys"
  by (induction xs) (auto split: list.splits)

lemma split_join:
  "xs \<noteq> [] \<Longrightarrow> \<forall>x \<in> set xs. c \<notin> set x \<Longrightarrow> split_on c (join_with [c] xs) = xs"
proof (induction xs rule: induct_list012)
  case (2 x)
  then show ?case by (simp add: split_on_none)
next
  case (3 x y zs)
  then show ?case by (simp add: split_on_append)
qed simp

lemma join_with_eq_Nil:
  "\<forall>x \<in> set xs. x \<noteq> [] \<Longrightarrow> (join_with sep xs = []) = (xs = [])"
  by (cases xs rule: remdups_adj.cases) auto

lemma length_split_on: "length (split_on c xs) = Suc (count_list xs c)"
  by (induction xs) (auto split: list.splits)

subsection \<open>Prefixes, suffixes, trimming\<close>

definition starts_with :: "'a list \<Rightarrow> 'a list \<Rightarrow> bool" where
  "starts_with s p = (take (length p) s = p)"

definition ends_with :: "'a list \<Rightarrow> 'a list \<Rightarrow> bool" where
  "ends_with s p = (length p \<le> length s \<and> drop (length s - length p) s = p)"

definition strip_prefix :: "'a list \<Rightarrow> 'a list \<Rightarrow> 'a list option" where
  "strip_prefix s p = (if starts_with s p then Some (drop (length p) s) else None)"

lemma starts_with_append [simp]: "starts_with (p @ s) p"
  by (simp add: starts_with_def)

lemma starts_with_iff: "starts_with s p \<longleftrightarrow> (\<exists>r. s = p @ r)"
  by (metis append_take_drop_id append_eq_conv_conj starts_with_def)

lemma strip_prefix_Some [simp]: "strip_prefix s p = Some r \<longleftrightarrow> s = p @ r"
  by (auto simp: strip_prefix_def starts_with_iff)

definition trim_start_char :: "'a \<Rightarrow> 'a list \<Rightarrow> 'a list" where
  "trim_start_char c s = dropWhile (\<lambda>x. x = c) s"

definition trim_end_char :: "'a \<Rightarrow> 'a list \<Rightarrow> 'a list" where
  "trim_end_char c s = rev (dropWhile (\<lambda>x. x = c) (rev s))"

definition trim_char :: "'a \<Rightarrow> 'a list \<Rightarrow> 'a list" where
  "trim_char c s = trim_end_char c (trim_start_char c s)"

text \<open>\<open>trim_start_matches\<close> with a (non-empty) string pattern strips it repeatedly.\<close>

function trim_start_str :: "'a list \<Rightarrow> 'a list \<Rightarrow> 'a list" where
  "trim_start_str p s =
     (if p \<noteq> [] \<and> starts_with s p then trim_start_str p (drop (length p) s) else s)"
  by pat_completeness auto
termination
proof (relation "measure (\<lambda>(p, s). length s)", simp, clarify)
  fix p s :: "'a list"
  assume "p \<noteq> []" and "starts_with s p"
  then show "((p, drop (length p) s), p, s) \<in> measure (\<lambda>(p, s). length s)"
    by (auto simp: starts_with_iff)
qed

declare trim_start_str.simps [simp del]

subsection \<open>Bytes\<close>

definition byte_val :: "char \<Rightarrow> nat" where
  "byte_val c = of_char c"

definition is_ascii_digit :: "char \<Rightarrow> bool" where
  "is_ascii_digit c = (48 \<le> byte_val c \<and> byte_val c \<le> 57)"

definition is_ascii_alphabetic :: "char \<Rightarrow> bool" where
  "is_ascii_alphabetic c = (65 \<le> byte_val c \<and> byte_val c \<le> 90 \<or> 97 \<le> byte_val c \<and> byte_val c \<le> 122)"

definition to_ascii_lowercase1 :: "char \<Rightarrow> char" where
  "to_ascii_lowercase1 c =
     (if 65 \<le> byte_val c \<and> byte_val c \<le> 90 then char_of (byte_val c + 32) else c)"

definition to_ascii_lowercase :: "string \<Rightarrow> string" where
  "to_ascii_lowercase s = map to_ascii_lowercase1 s"

definition eq_ignore_ascii_case :: "string \<Rightarrow> string \<Rightarrow> bool" where
  "eq_ignore_ascii_case s t = (to_ascii_lowercase s = to_ascii_lowercase t)"

lemma byte_val_less [simp]: "byte_val c < 256"
proof -
  have "of_char c = of_char c mod (256 :: nat)" by simp
  then show ?thesis unfolding byte_val_def by (metis mod_less_divisor zero_less_numeral)
qed

lemma char_of_byte_val [simp]: "char_of (byte_val c) = c"
  by (simp add: byte_val_def)

lemma byte_val_char_of: "n < 256 \<Longrightarrow> byte_val (char_of n) = n"
  by (simp add: byte_val_def)

lemma byte_val_inject: "byte_val c = byte_val d \<longleftrightarrow> c = d"
  by (metis char_of_byte_val)

lemma to_ascii_lowercase1_idem [simp]:
  "to_ascii_lowercase1 (to_ascii_lowercase1 c) = to_ascii_lowercase1 c"
  by (simp add: to_ascii_lowercase1_def byte_val_char_of)

lemma to_ascii_lowercase_idem [simp]:
  "to_ascii_lowercase (to_ascii_lowercase s) = to_ascii_lowercase s"
  by (simp add: to_ascii_lowercase_def)

text \<open>Lower-case hexadecimal digits.\<close>

definition hex_digit :: "nat \<Rightarrow> char" where
  "hex_digit n = ''0123456789abcdef'' ! n"

subsection \<open>UTF-8\<close>

text \<open>
  \<open>String::from_utf8\<close> accepts exactly the well-formed sequences of the Unicode standard
  (table 3-7), here over the values of the bytes.
\<close>

definition utf8_cont :: "nat \<Rightarrow> bool" where
  "utf8_cont b = (128 \<le> b \<and> b \<le> 191)"

fun utf8_valid :: "nat list \<Rightarrow> bool" where
  "utf8_valid [] = True"
| "utf8_valid (b # bs) =
     (if b < 128 then utf8_valid bs
      else if 194 \<le> b \<and> b \<le> 223 then
        (case bs of c1 # r \<Rightarrow> utf8_cont c1 \<and> utf8_valid r | _ \<Rightarrow> False)
      else if 224 \<le> b \<and> b \<le> 239 then
        (case bs of c1 # c2 # r \<Rightarrow>
           utf8_cont c1 \<and> (b = 224 \<longrightarrow> 160 \<le> c1) \<and> (b = 237 \<longrightarrow> c1 \<le> 159) \<and> utf8_cont c2 \<and> utf8_valid r
         | _ \<Rightarrow> False)
      else if 240 \<le> b \<and> b \<le> 244 then
        (case bs of c1 # c2 # c3 # r \<Rightarrow>
           utf8_cont c1 \<and> (b = 240 \<longrightarrow> 144 \<le> c1) \<and> (b = 244 \<longrightarrow> c1 \<le> 143) \<and> utf8_cont c2 \<and> utf8_cont c3
             \<and> utf8_valid r
         | _ \<Rightarrow> False)
      else False)"

definition from_utf8 :: "string \<Rightarrow> string option" where
  "from_utf8 s = (if utf8_valid (map byte_val s) then Some s else None)"

lemma utf8_valid_ascii: "\<forall>b \<in> set bs. b < 128 \<Longrightarrow> utf8_valid bs"
  by (induction bs) auto

subsection \<open>Whitespace of \<open>str::trim\<close>\<close>

text \<open>The code points with the property White\_Space, in UTF-8.\<close>

definition ws_encodings :: "nat list list" where
  "ws_encodings = [[9], [10], [11], [12], [13], [32], [194, 133], [194, 160], [225, 154, 128],
     [226, 128, 128], [226, 128, 129], [226, 128, 130], [226, 128, 131], [226, 128, 132],
     [226, 128, 133], [226, 128, 134], [226, 128, 135], [226, 128, 136], [226, 128, 137],
     [226, 128, 138], [226, 128, 168], [226, 128, 169], [226, 128, 175], [226, 129, 159],
     [227, 128, 128]]"

definition ws_prefix :: "string list" where
  "ws_prefix = map (map char_of) ws_encodings"

text \<open>
  Stripping one whitespace character at a time from the front, for a given list of encodings;
  the end is stripped on the reversed string.  Each step removes at least one byte.
\<close>

fun strip_ws :: "nat \<Rightarrow> string list \<Rightarrow> string \<Rightarrow> string" where
  "strip_ws 0 ws s = s"
| "strip_ws (Suc n) ws s =
     (case find (starts_with s) ws of None \<Rightarrow> s | Some w \<Rightarrow> strip_ws n ws (drop (length w) s))"

definition str_trim :: "string \<Rightarrow> string" where
  "str_trim s =
     (let t = strip_ws (length s) ws_prefix s
      in rev (strip_ws (length t) (map rev ws_prefix) (rev t)))"

text \<open>The fuel is enough: the stripped string does not begin with a whitespace character.\<close>

lemma strip_ws_stuck:
  "[] \<notin> set ws \<Longrightarrow> length s \<le> n \<Longrightarrow> find (starts_with (strip_ws n ws s)) ws = None"
proof (induction n arbitrary: s)
  case 0
  then show ?case by (auto simp: find_None_iff starts_with_def)
next
  case (Suc n)
  show ?case
  proof (cases "find (starts_with s) ws")
    case (Some w)
    then have "w \<in> set ws" and "starts_with s w" by (auto simp: find_Some_iff)
    then have "w \<noteq> []" and "s \<noteq> []" using Suc.prems(1) by (auto simp: starts_with_def)
    then have "length (drop (length w) s) \<le> n" using Suc.prems(2) by (cases w; cases s) auto
    with Some Suc show ?thesis by simp
  qed simp
qed

definition graphic :: "char \<Rightarrow> bool" where
  "graphic c = (33 \<le> byte_val c \<and> byte_val c \<le> 126)"

lemma ws_not_graphic: "w \<in> set ws_prefix \<Longrightarrow> w \<noteq> [] \<and> \<not> graphic (hd w) \<and> \<not> graphic (last w)"
  by (auto simp: ws_prefix_def ws_encodings_def graphic_def byte_val_char_of)

lemma strip_ws_none: "\<forall>w \<in> set ws. \<not> starts_with s w \<Longrightarrow> strip_ws n ws s = s"
  by (cases n) (auto split: option.split simp: find_Some_iff)

lemma str_trim_graphic [simp]:
  assumes "s \<noteq> []" and "graphic (hd s)" and "graphic (last s)"
  shows "str_trim s = s"
proof -
  have "\<not> starts_with s w" if "w \<in> set ws_prefix" for w
    using ws_not_graphic [OF that] assms(2) by (cases w; cases s) (auto simp: starts_with_def)
  then have front: "strip_ws (length s) ws_prefix s = s" by (intro strip_ws_none) blast
  have "\<not> starts_with (rev s) (rev w)" if "w \<in> set ws_prefix" for w
    using ws_not_graphic [OF that] assms(3)
    by (cases w rule: rev_cases; cases s rule: rev_cases) (auto simp: starts_with_def)
  then have "strip_ws (length s) (map rev ws_prefix) (rev s) = rev s"
    by (intro strip_ws_none) auto
  with front show ?thesis by (simp add: str_trim_def Let_def)
qed

subsection \<open>Lines\<close>

text \<open>\<open>str::lines\<close>: lines end in a newline or a carriage return and a newline; the last line
  needs no end, and keeps a carriage return that no newline follows.\<close>

definition strip_suffix :: "'a list \<Rightarrow> 'a list \<Rightarrow> 'a list option" where
  "strip_suffix s p = (if ends_with s p then Some (take (length s - length p) s) else None)"

definition strip_cr :: "string \<Rightarrow> string" where
  "strip_cr l = (case strip_suffix l [CHR 0x0D] of None \<Rightarrow> l | Some l' \<Rightarrow> l')"

definition str_lines :: "string \<Rightarrow> string list" where
  "str_lines s =
     (let parts = split_on (CHR 0x0A) s
      in map strip_cr (butlast parts) @ (if last parts = [] then [] else [last parts]))"

lemma strip_suffix_append [simp]: "strip_suffix (s @ p) p = Some s"
  by (simp add: strip_suffix_def ends_with_def)

lemma strip_suffix_Some: "strip_suffix s p = Some r \<longleftrightarrow> s = r @ p"
  by (auto simp: strip_suffix_def ends_with_def) (metis append_take_drop_id)

lemma str_lines_Nil [simp]: "str_lines [] = []"
  by (simp add: str_lines_def)

lemma str_lines_step:
  assumes "CHR 0x0A \<notin> set l" and "l = [] \<or> graphic (last l)"
  shows "str_lines (l @ CHR 0x0A # s) = l # str_lines s"
proof -
  have "strip_cr l = l"
    using assms(2) by (auto simp: strip_cr_def strip_suffix_Some graphic_def byte_val_def split: option.split)
  then show ?thesis by (simp add: str_lines_def split_on_append [OF assms(1)] Let_def)
qed

subsection \<open>Searching\<close>

text \<open>
  \<open>windows(n).position(|w| w == pat)\<close> and \<open>str::find\<close>: the first position where a non-empty
  pattern occurs; \<open>str::split\<close> for a string pattern and \<open>split_once\<close> for a character.
\<close>

fun find_sub :: "'a list \<Rightarrow> 'a list \<Rightarrow> nat option" where
  "find_sub pat [] = None"
| "find_sub pat (x # xs) = (if starts_with (x # xs) pat then Some 0 else map_option Suc (find_sub pat xs))"

lemma find_sub_SomeD:
  "find_sub pat s = Some i \<Longrightarrow> s = take i s @ pat @ drop (i + length pat) s \<and> i + length pat \<le> length s"
proof (induction s arbitrary: i)
  case (Cons x xs)
  show ?case
  proof (cases "starts_with (x # xs) pat")
    case True
    then have "i = 0" using Cons.prems by simp
    moreover from True obtain r where "x # xs = pat @ r" by (auto simp: starts_with_iff)
    ultimately show ?thesis by simp
  next
    case False
    then obtain j where j: "find_sub pat xs = Some j" "i = Suc j" using Cons.prems by auto
    then show ?thesis using Cons.IH [OF j(1)] by simp
  qed
qed simp

lemma starts_with_longer: "length p \<le> length s \<Longrightarrow> starts_with (s @ t) p \<longleftrightarrow> starts_with s p"
  by (simp add: starts_with_def)

lemma find_sub_append:
  "find_sub pat s = Some i \<Longrightarrow> find_sub pat (s @ t) = Some i"
proof (induction s arbitrary: i)
  case (Cons x xs)
  show ?case
  proof (cases "starts_with (x # xs) pat")
    case True
    then have "starts_with (x # xs @ t) pat" by (metis append_Cons append_assoc starts_with_iff)
    then show ?thesis using Cons.prems True by simp
  next
    case False
    then obtain j where j: "find_sub pat xs = Some j" "i = Suc j" using Cons.prems by auto
    have "length pat \<le> length (x # xs)" using find_sub_SomeD [OF j(1)] by simp
    then have "\<not> starts_with (x # xs @ t) pat" using False starts_with_longer [of pat "x # xs" t] by simp
    then show ?thesis using Cons.IH [OF j(1)] j(2) by simp
  qed
qed simp

function split_str :: "'a list \<Rightarrow> 'a list \<Rightarrow> 'a list list" where
  "split_str pat s =
     (if pat = [] then [s]
      else case find_sub pat s of None \<Rightarrow> [s] | Some i \<Rightarrow> take i s # split_str pat (drop (i + length pat) s))"
  by pat_completeness auto
termination
proof (relation "measure (\<lambda>(_, s). length s)", goal_cases)
  case (2 pat s i)
  then show ?case using find_sub_SomeD [of pat s i] by (cases pat; cases s) auto
qed simp

declare split_str.simps [simp del]

definition split_once :: "'a \<Rightarrow> 'a list \<Rightarrow> ('a list \<times> 'a list) option" where
  "split_once c s = (if c \<in> set s then Some (takeWhile (\<lambda>x. x \<noteq> c) s, tl (dropWhile (\<lambda>x. x \<noteq> c) s)) else None)"

lemma split_once_append: "c \<notin> set xs \<Longrightarrow> split_once c (xs @ c # ys) = Some (xs, ys)"
  by (induction xs) (auto simp: split_once_def)

lemma split_once_SomeD: "split_once c s = Some (a, b) \<Longrightarrow> s = a @ c # b \<and> c \<notin> set a"
proof -
  assume r: "split_once c s = Some (a, b)"
  then have "c \<in> set s" by (simp add: split_once_def split: if_splits)
  then obtain xs ys where "s = xs @ c # ys" "c \<notin> set xs" by (meson split_list_first)
  with r show ?thesis by (simp add: split_once_append)
qed

subsection \<open>Numbers\<close>

text \<open>
  \<open>from_str_radix\<close> and \<open>parse\<close> of an unsigned integer below \<open>bound\<close>: an optional plus sign and
  at least one digit, with an error on overflow at any digit.
\<close>

definition digit_val :: "nat \<Rightarrow> char \<Rightarrow> nat option" where
  "digit_val base c =
     (let b = byte_val c;
          v = (if 48 \<le> b \<and> b \<le> 57 then b - 48
               else if 97 \<le> b \<and> b \<le> 122 then b - 87
               else if 65 \<le> b \<and> b \<le> 90 then b - 55 else base)
      in if v < base then Some v else None)"

fun parse_digits :: "nat \<Rightarrow> nat \<Rightarrow> nat \<Rightarrow> string \<Rightarrow> nat option" where
  "parse_digits base bound acc [] = Some acc"
| "parse_digits base bound acc (c # cs) =
     (case digit_val base c of
        None \<Rightarrow> None
      | Some d \<Rightarrow>
          if acc * base + d < bound then parse_digits base bound (acc * base + d) cs else None)"

definition parse_uint :: "nat \<Rightarrow> nat \<Rightarrow> string \<Rightarrow> nat option" where
  "parse_uint base bound s =
     (let ds = (if starts_with s ''+'' then tl s else s)
      in if ds = [] then None else parse_digits base bound 0 ds)"

text \<open>\<open>format!("{n}")\<close> and \<open>{n:X}\<close>: the digits of a number, without leading zeros.\<close>

definition digit_char :: "nat \<Rightarrow> char" where
  "digit_char d = ''0123456789ABCDEF'' ! d"

fun show_base :: "nat \<Rightarrow> nat \<Rightarrow> string" where
  "show_base base n =
     (if n < base \<or> base < 2 then [digit_char n] else show_base base (n div base) @ [digit_char (n mod base)])"

declare show_base.simps [simp del]

lemma digit_val_base: "digit_val 16 c = Some d \<Longrightarrow> d < base \<Longrightarrow> digit_val base c = Some d"
  by (auto simp: digit_val_def Let_def split: if_splits)

lemma digit_chars:
  assumes "d < 16"
  shows "digit_val 16 (digit_char d) = Some d" and "graphic (digit_char d)" and "digit_char d \<noteq> CHR ''+''"
proof -
  have "list_all (\<lambda>d. digit_val 16 (digit_char d) = Some d \<and> graphic (digit_char d) \<and> digit_char d \<noteq> CHR ''+'')
      [0..<16]"
    by code_simp
  then show "digit_val 16 (digit_char d) = Some d" "graphic (digit_char d)" "digit_char d \<noteq> CHR ''+''"
    using assms by (simp_all add: list_all_iff)
qed

lemma digit_val_char: "base \<le> 16 \<Longrightarrow> d < base \<Longrightarrow> digit_val base (digit_char d) = Some d"
  by (rule digit_val_base) (simp_all add: digit_chars)

lemma parse_digits_append:
  "parse_digits base bound acc (s @ t) =
     Option.bind (parse_digits base bound acc s) (\<lambda>acc. parse_digits base bound acc t)"
  by (induction s arbitrary: acc) (auto split: option.splits)

lemma parse_show_digits:
  assumes "2 \<le> base" and "base \<le> 16"
  shows "n < bound \<Longrightarrow> parse_digits base bound 0 (show_base base n) = Some n"
proof (induction n rule: less_induct)
  case (less n)
  show ?case
  proof (cases "n < base")
    case True
    then show ?thesis using less.prems assms by (subst show_base.simps) (simp add: digit_val_char)
  next
    case False
    then have "n div base < n" using assms by simp
    moreover from this have "n div base < bound" using less.prems by linarith
    ultimately have "parse_digits base bound 0 (show_base base (n div base)) = Some (n div base)" by (rule less.IH)
    moreover have "n mod base < base" using assms by simp
    ultimately show ?thesis
      using False assms less.prems
      by (subst show_base.simps) (simp add: parse_digits_append digit_val_char not_less)
  qed
qed

lemma show_base_chars:
  assumes "2 \<le> base" and "base \<le> 16"
  shows "show_base base n \<noteq> [] \<and> set (show_base base n) \<subseteq> digit_char ` {..<16}"
proof (induction n rule: less_induct)
  case (less n)
  show ?case
  proof (cases "n < base")
    case True
    then show ?thesis using assms by (subst (1 2) show_base.simps) auto
  next
    case False
    then have "n div base < n" using assms by simp
    moreover have "n mod base < 16"
      using assms mod_less_divisor [of base n] by linarith
    ultimately show ?thesis using less.IH [of "n div base"] assms False by (subst (1 2) show_base.simps) auto
  qed
qed

lemma parse_uint_show:
  assumes "2 \<le> base" and "base \<le> 16" and "n < bound"
  shows "parse_uint base bound (show_base base n) = Some n"
proof -
  have s: "show_base base n \<noteq> []" "set (show_base base n) \<subseteq> digit_char ` {..<16}"
    using show_base_chars [OF assms(1,2)] by blast+
  have "hd (show_base base n) \<in> digit_char ` {..<16}" using s(2) hd_in_set [OF s(1)] by blast
  then have "hd (show_base base n) \<noteq> CHR ''+''" using digit_chars(3) by (metis imageE lessThan_iff)
  then have "\<not> starts_with (show_base base n) ''+''" using s(1) by (cases "show_base base n") (auto simp: starts_with_def)
  then show ?thesis using parse_show_digits [OF assms] s(1) by (simp add: parse_uint_def Let_def)
qed

subsection \<open>Paths\<close>

text \<open>
  \<open>Path::file_name\<close> and \<open>Path::extension\<close>: empty and \<open>.\<close> components do not count, a path that
  ends in \<open>..\<close> has no file name, and a leading dot does not start an extension.
\<close>

definition path_file_name :: "string \<Rightarrow> string option" where
  "path_file_name p =
     (case rev (filter (\<lambda>c. c \<noteq> '''' \<and> c \<noteq> ''.'') (split_on (CHR ''/'') p)) of
        [] \<Rightarrow> None
      | c # _ \<Rightarrow> if c = ''..'' then None else Some c)"

definition path_extension :: "string \<Rightarrow> string option" where
  "path_extension p =
     (case path_file_name p of
        None \<Rightarrow> None
      | Some f \<Rightarrow>
          (let ext = takeWhile (\<lambda>c. c \<noteq> CHR ''.'') (rev f)
           in if length ext \<ge> length f - 1 then None else Some (rev ext)))"

subsection \<open>Slices, splitting by a string, signed numbers\<close>

text \<open>
  \<open>is_char_boundary\<close>, \<open>str::split_once\<close> for a string pattern, \<open>parse::<i64>\<close>, and
  \<open>str::contains\<close> for a non-empty pattern.
\<close>

definition is_char_boundary :: "string \<Rightarrow> nat \<Rightarrow> bool" where
  "is_char_boundary s i = (i = 0 \<or> i = length s \<or> (i < length s \<and> \<not> utf8_cont (byte_val (s ! i))))"

definition split_once_str :: "string \<Rightarrow> string \<Rightarrow> (string \<times> string) option" where
  "split_once_str pat s = map_option (\<lambda>i. (take i s, drop (i + length pat) s)) (find_sub pat s)"

definition parse_i64 :: "string \<Rightarrow> int option" where
  "parse_i64 s =
     (case s of
        [] \<Rightarrow> None
      | c # r \<Rightarrow>
          if c = CHR ''-'' then (if r = [] then None else map_option (\<lambda>n. - int n) (parse_digits 10 (2 ^ 63 + 1) 0 r))
          else if c = CHR ''+'' then (if r = [] then None else map_option int (parse_digits 10 (2 ^ 63) 0 r))
          else map_option int (parse_digits 10 (2 ^ 63) 0 s))"

definition str_contains :: "string \<Rightarrow> string \<Rightarrow> bool" where
  "str_contains s pat = (find_sub pat s \<noteq> None)"

lemma length_strip_ws: "length (strip_ws n ws s) \<le> length s"
proof (induction n arbitrary: s)
  case (Suc n)
  show ?case
  proof (cases "find (starts_with s) ws")
    case (Some w)
    have "length (strip_ws n ws (drop (length w) s)) \<le> length s"
      using Suc [of "drop (length w) s"] by simp
    with Some show ?thesis by simp
  qed simp
qed simp

lemma length_str_trim: "length (str_trim s) \<le> length s"
proof -
  let ?t = "strip_ws (length s) ws_prefix s"
  have "length (strip_ws (length ?t) (map rev ws_prefix) (rev ?t)) \<le> length ?t"
    using length_strip_ws [of "length ?t" "map rev ws_prefix" "rev ?t"] by simp
  also have "\<dots> \<le> length s" by (rule length_strip_ws)
  finally show ?thesis by (simp add: str_trim_def Let_def)
qed

subsection \<open>Decimal numbers\<close>

definition show_nat :: "nat \<Rightarrow> string" where
  "show_nat n = show_base 10 n"

definition show_int :: "int \<Rightarrow> string" where
  "show_int i = (if i < 0 then CHR ''-'' # show_nat (nat (- i)) else show_nat (nat i))"

lemma digit_char_plain: "d < 16 \<Longrightarrow> digit_char d \<notin> {CHR ''-'', CHR '','', CHR ''/'', CHR '':'', CHR ''.''}"
proof -
  have "list_all (\<lambda>d. digit_char d \<notin> {CHR ''-'', CHR '','', CHR ''/'', CHR '':'', CHR ''.''}) [0..<16]"
    by code_simp
  then show "d < 16 \<Longrightarrow> ?thesis" by (auto simp: list_all_iff)
qed

lemma show_nat_chars:
  "c \<in> set (show_nat n) \<Longrightarrow> graphic c \<and> c \<notin> {CHR ''-'', CHR '','', CHR ''/'', CHR '':'', CHR ''.''}"
proof -
  assume "c \<in> set (show_nat n)"
  then obtain d where "c = digit_char d" "d < 16" using show_base_chars [of 10 n] by (auto simp: show_nat_def)
  then show ?thesis using digit_chars(2) [of d] digit_char_plain [of d] by simp
qed

lemma show_nat_ne [simp]: "show_nat n \<noteq> []"
  using show_base_chars [of 10 n] by (simp add: show_nat_def)

lemma show_nat_plain [simp]:
  "CHR ''-'' \<notin> set (show_nat n)" "CHR '','' \<notin> set (show_nat n)"
  "graphic (hd (show_nat n))" "graphic (last (show_nat n))"
  using show_nat_chars [of _ n] hd_in_set [OF show_nat_ne [of n]] last_in_set [OF show_nat_ne [of n]] by force+

lemma parse_show_nat [simp]: "n < bound \<Longrightarrow> parse_uint 10 bound (show_nat n) = Some n"
  by (simp add: show_nat_def parse_uint_show)

lemma trim_show_nat [simp]: "str_trim (show_nat n) = show_nat n"
  by simp

text \<open>The characters a header value may be made of.\<close>

definition visible :: "char \<Rightarrow> bool" where
  "visible c = (32 \<le> byte_val c \<and> byte_val c < 127)"

lemma graphic_visible: "graphic c \<Longrightarrow> visible c"
  by (simp add: graphic_def visible_def)

lemma visible_show: "list_all visible (show_nat n)"
  using show_nat_chars [of _ n] by (auto simp: list_all_iff intro: graphic_visible)

lemma visible_show_int: "list_all visible (show_int i)"
  by (simp add: show_int_def visible_show visible_def byte_val_def)

end
