(* ===== verification/Site.thy ===== *)
theory Site
  imports Rust_Text Rate_Limit
begin

text \<open>
  The site index of \<open>src/src/site.rs\<close>: request paths are decoded and normalised, tarball
  entries are indexed by path, and a request is looked up in the index.  The tar reader and
  the BLAKE3 hash are libraries: an archive is the list of what the reader yields for each
  entry, and the hash is a parameter.
\<close>

subsection \<open>Percent decoding\<close>

definition hex_val :: "char \<Rightarrow> nat option" where
  "hex_val c =
     (let b = byte_val c
      in if 48 \<le> b \<and> b \<le> 57 then Some (b - 48)
         else if 97 \<le> b \<and> b \<le> 102 then Some (b - 97 + 10)
         else if 65 \<le> b \<and> b \<le> 70 then Some (b - 65 + 10)
         else None)"

fun percent_decode :: "string \<Rightarrow> string option" where
  "percent_decode [] = Some []"
| "percent_decode (c # cs) =
     (case (c = CHR ''%'', cs) of
        (True, h # l # rest) \<Rightarrow>
          do { hi \<leftarrow> hex_val h; lo \<leftarrow> hex_val l; out \<leftarrow> percent_decode rest;
               Some (char_of (hi * 16 + lo) # out) }
      | _ \<Rightarrow> map_option ((#) c) (percent_decode cs))"

definition hex_encode_prefix :: "string \<Rightarrow> string" where
  "hex_encode_prefix bs =
     concat (map (\<lambda>b. [hex_digit (byte_val b div 16), hex_digit (byte_val b mod 16)]) bs)"

subsection \<open>Request paths\<close>

record normalized_path =
  relative :: string
  encoded_relative :: string
  dir_hint :: bool

definition append_index :: "normalized_path \<Rightarrow> string \<Rightarrow> string" where
  "append_index np index =
     (if relative np = [] then index else relative np @ ''/'' @ index)"

definition encoded_path :: "normalized_path \<Rightarrow> string" where
  "encoded_path np = (if encoded_relative np = [] then ''/'' else ''/'' @ encoded_relative np)"

definition encoded_path_with_dir_hint :: "normalized_path \<Rightarrow> string" where
  "encoded_path_with_dir_hint np =
     (let path = encoded_path np in if dir_hint np \<and> path \<noteq> ''/'' then path @ ''/'' else path)"

text \<open>The loop over the raw segments, with the two component vectors it pushes to and pops from.\<close>

fun normalize_loop :: "string list \<Rightarrow> string list \<Rightarrow> string list \<Rightarrow> (string list \<times> string list) option" where
  "normalize_loop [] dec raw = Some (dec, raw)"
| "normalize_loop (part # parts) dec raw =
     (if part = [] then normalize_loop parts dec raw
      else
        (case percent_decode part of
           None \<Rightarrow> None
         | Some d \<Rightarrow>
             if d = ''.'' then normalize_loop parts dec raw
             else if d = ''..'' then
               (if dec = [] \<or> raw = [] then None
                else normalize_loop parts (butlast dec) (butlast raw))
             else if CHR ''/'' \<in> set d then None
             else
               (case from_utf8 d of
                  None \<Rightarrow> None
                | Some seg \<Rightarrow> normalize_loop parts (dec @ [seg]) (raw @ [part]))))"

definition normalize_request_path :: "string \<Rightarrow> normalized_path option" where
  "normalize_request_path raw =
     (let r = (if raw = [] then ''/'' else raw);
          dir = (r = ''/'' \<or> (ends_with r ''/'' \<and> length r > 1))
      in case normalize_loop (split_on (CHR ''/'') r) [] [] of
           None \<Rightarrow> None
         | Some (dec, rawc) \<Rightarrow>
             Some \<lparr>relative = join_with ''/'' dec, encoded_relative = join_with ''/'' rawc,
                   dir_hint = dir\<rparr>)"

definition guess_mime :: "string \<Rightarrow> string" where
  "guess_mime path =
     (case map_option to_ascii_lowercase (path_extension path) of
        None \<Rightarrow> ''application/octet-stream''
      | Some e \<Rightarrow>
          if e = ''html'' \<or> e = ''htm'' then ''text/html; charset=utf-8''
          else if e = ''css'' then ''text/css; charset=utf-8''
          else if e = ''js'' then ''application/javascript; charset=utf-8''
          else if e = ''json'' then ''application/json; charset=utf-8''
          else if e = ''png'' then ''image/png''
          else if e = ''jpg'' \<or> e = ''jpeg'' then ''image/jpeg''
          else if e = ''gif'' then ''image/gif''
          else if e = ''svg'' then ''image/svg+xml''
          else if e = ''wasm'' then ''application/wasm''
          else if e = ''txt'' then ''text/plain; charset=utf-8''
          else if e = ''xml'' then ''application/xml''
          else if e = ''ico'' then ''image/x-icon''
          else ''application/octet-stream'')"

subsection \<open>The tarball index\<close>

datatype entry_type = Regular | Continuous | GNUSparse | Directory | OtherType

text \<open>
  What the tar reader yields for one entry: its type, path, position, size and header time.
  \<open>ti_path\<close> is None for a path the reader rejects, \<open>ti_content\<close> is None when reading the
  data fails.
\<close>

record tar_item =
  ti_type :: entry_type
  ti_path :: "string option"
  ti_pos :: u64
  ti_size :: u64
  ti_content :: "string option"
  ti_mtime :: "u64 option"

record tar_entry =
  te_path :: string
  te_offset :: u64
  te_size :: u64
  te_etag :: string
  te_mtime :: u64

record site =
  entries :: "(string, tar_entry) store"
  directories :: "string set"
  directory_mtimes :: "(string, u64) store"
  total_bytes :: u64
  total_entries :: nat
  rate_limits :: rate_limit_manager

datatype load_error =
  UndecodableEntry | InvalidEntryPath | HashFailed string | NoRegularFiles

definition normalize_tar_path :: "string \<Rightarrow> string" where
  "normalize_tar_path path = trim_char (CHR ''/'') (trim_start_str ''./'' path)"

text \<open>
  \<open>mark_parents\<close> cuts the path at its last slash until none is left; \<open>parents\<close> is the list
  of prefixes it inserts.
\<close>

definition rcut :: "string \<Rightarrow> string option" where
  "rcut s = (if CHR ''/'' \<in> set s
     then Some (rev (tl (dropWhile (\<lambda>c. c \<noteq> CHR ''/'') (rev s)))) else None)"

lemma rcut_SomeD:
  assumes "rcut s = Some t"
  shows "\<exists>u. s = t @ CHR ''/'' # u \<and> CHR ''/'' \<notin> set u"
proof -
  let ?p = "\<lambda>c. c \<noteq> CHR ''/''"
  have ne: "dropWhile ?p (rev s) \<noteq> []" and t: "t = rev (tl (dropWhile ?p (rev s)))"
    using assms by (auto simp: rcut_def dropWhile_eq_Nil_conv split: if_splits)
  have "dropWhile ?p (rev s) = CHR ''/'' # tl (dropWhile ?p (rev s))"
    using ne hd_dropWhile [OF ne] by (metis list.collapse)
  then have "rev s = takeWhile ?p (rev s) @ CHR ''/'' # tl (dropWhile ?p (rev s))"
    by (metis takeWhile_dropWhile_id)
  then have "s = t @ CHR ''/'' # rev (takeWhile ?p (rev s))"
    using t by (metis append.assoc append_Cons append_Nil rev.simps(2) rev_append rev_rev_ident)
  moreover have "CHR ''/'' \<notin> set (rev (takeWhile ?p (rev s)))"
    by (auto dest: set_takeWhileD)
  ultimately show ?thesis by blast
qed

function parents :: "string \<Rightarrow> string list" where
  "parents s =
     (case rcut s of None \<Rightarrow> [] | Some t \<Rightarrow> if t = [] then [] else t # parents t)"
  by pat_completeness auto
termination
  by (relation "measure length") (auto dest!: rcut_SomeD)

declare parents.simps [simp del]

definition mark_parents :: "string \<Rightarrow> string set \<Rightarrow> string set" where
  "mark_parents path ds =
     (let current = trim_end_char (CHR ''/'') path
      in if current = [] then ds else set (parents current) \<union> ds)"

definition entry_etag :: "(string \<Rightarrow> string) \<Rightarrow> string \<Rightarrow> string" where
  "entry_etag blake3 content = hex_encode_prefix (take 16 (blake3 content))"

record index =
  ix_entries :: "(string, tar_entry) store"
  ix_directories :: "string set"
  ix_mtimes :: "(string, u64) store"

text \<open>One pass of the loop over the archive; None as an item is an undecodable entry.\<close>

definition index_item ::
  "(string \<Rightarrow> string) \<Rightarrow> tar_item option \<Rightarrow> index \<Rightarrow> load_error + index" where
  "index_item blake3 it ix =
     (case it of
        None \<Rightarrow> Inl UndecodableEntry
      | Some i \<Rightarrow>
          (case ti_path i of
             None \<Rightarrow> Inl InvalidEntryPath
           | Some p \<Rightarrow>
               (let n = normalize_tar_path p; mt = (case ti_mtime i of None \<Rightarrow> 0 | Some t \<Rightarrow> t)
                in if n = [] then Inr ix
                   else if ti_type i \<in> {Regular, Continuous, GNUSparse} then
                     (case ti_content i of
                        None \<Rightarrow> Inl (HashFailed n)
                      | Some c \<Rightarrow>
                          Inr (ix\<lparr>ix_entries := store_put n
                                 \<lparr>te_path = n, te_offset = ti_pos i, te_size = ti_size i,
                                  te_etag = entry_etag blake3 c, te_mtime = mt\<rparr> (ix_entries ix),
                               ix_directories := mark_parents n (ix_directories ix)\<rparr>))
                   else if ti_type i = Directory then
                     Inr (ix\<lparr>ix_directories := mark_parents n (insert n (ix_directories ix)),
                             ix_mtimes := store_put n mt (ix_mtimes ix)\<rparr>)
                   else Inr ix)))"

fun index_items ::
  "(string \<Rightarrow> string) \<Rightarrow> tar_item option list \<Rightarrow> index \<Rightarrow> load_error + index" where
  "index_items blake3 [] ix = Inr ix"
| "index_items blake3 (it # its) ix =
     (case index_item blake3 it ix of Inl e \<Rightarrow> Inl e | Inr ix' \<Rightarrow> index_items blake3 its ix')"

definition load_from_file ::
  "(string \<Rightarrow> string) \<Rightarrow> tar_item option list \<Rightarrow> u64 \<Rightarrow> nat \<Rightarrow> load_error + site" where
  "load_from_file blake3 items file_len max_rate_limit_buckets =
     (case index_items blake3 items \<lparr>ix_entries = [], ix_directories = {}, ix_mtimes = []\<rparr> of
        Inl e \<Rightarrow> Inl e
      | Inr ix \<Rightarrow>
          if ix_entries ix = [] then Inl NoRegularFiles
          else Inr \<lparr>entries = ix_entries ix, directories = ix_directories ix,
                    directory_mtimes = ix_mtimes ix, total_bytes = file_len,
                    total_entries = length (ix_entries ix),
                    rate_limits = manager_new max_rate_limit_buckets\<rparr>)"

subsection \<open>Lookup\<close>

definition get_entry_safe :: "site \<Rightarrow> string \<Rightarrow> tar_entry option" where
  "get_entry_safe s key = (if starts_with key ''.zeroserve/'' then None else store_get (entries s) key)"

definition lookup :: "site \<Rightarrow> normalized_path \<Rightarrow> string \<Rightarrow> bool \<Rightarrow> tar_entry option" where
  "lookup s np default_index try_html =
     (let rel = relative np in
      case get_entry_safe s rel of
        Some e \<Rightarrow> Some e
      | None \<Rightarrow>
          (case (if dir_hint np \<or> rel = [] \<or> rel \<in> directories s
                 then get_entry_safe s (append_index np default_index) else None) of
             Some e \<Rightarrow> Some e
           | None \<Rightarrow>
               (case get_entry_safe s (if rel \<noteq> [] then rel @ ''/'' @ default_index else default_index) of
                  Some e \<Rightarrow> Some e
                | None \<Rightarrow>
                    if try_html \<and> rel \<noteq> [] \<and> \<not> ends_with rel ''.html''
                    then get_entry_safe s (rel @ ''.html'') else None)))"


subsection \<open>Normalised paths\<close>

text \<open>A path segment that can be served: not empty, no dot segment, no separator, valid UTF-8.\<close>

definition plain_segment :: "string \<Rightarrow> bool" where
  "plain_segment d = (d \<noteq> [] \<and> d \<noteq> ''.'' \<and> d \<noteq> ''..'' \<and> CHR ''/'' \<notin> set d \<and> from_utf8 d = Some d)"

text \<open>What the loop keeps between a raw and a decoded component.\<close>

definition segment_pair :: "string \<Rightarrow> string \<Rightarrow> bool" where
  "segment_pair r d = (r \<noteq> [] \<and> CHR ''/'' \<notin> set r \<and> percent_decode r = Some d \<and> plain_segment d)"

lemma hex_val_less: "hex_val c = Some n \<Longrightarrow> n < 16"
  by (auto simp: hex_val_def Let_def split: if_splits)

lemma percent_decode_escape:
  "percent_decode (CHR ''%'' # h # l # rest) =
     do { hi \<leftarrow> hex_val h; lo \<leftarrow> hex_val l; out \<leftarrow> percent_decode rest;
          Some (char_of (hi * 16 + lo) # out) }"
  by simp

lemma percent_decode_literal:
  "c \<noteq> CHR ''%'' \<or> length cs < 2 \<Longrightarrow> percent_decode (c # cs) = map_option ((#) c) (percent_decode cs)"
  by (cases cs rule: remdups_adj.cases) (auto split: bool.split)

declare percent_decode.simps(2) [simp del]

lemma percent_decode_cases:
  obtains (Nil) "s = []" | (escape) h l rest where "s = CHR ''%'' # h # l # rest"
  | (literal) c cs where "s = c # cs" "c \<noteq> CHR ''%'' \<or> length cs < 2"
proof (cases s)
  case (Cons c cs)
  then show ?thesis
    using escape literal by (cases cs rule: remdups_adj.cases) auto
qed simp

lemma percent_decode_not_Nil: "percent_decode s = Some d \<Longrightarrow> s \<noteq> [] \<Longrightarrow> d \<noteq> []"
  by (cases s rule: percent_decode_cases)
    (auto simp: percent_decode_escape percent_decode_literal split: Option.bind_splits)

lemma percent_decode_plain: "CHR ''%'' \<notin> set s \<Longrightarrow> percent_decode s = Some s"
  by (induction s) (auto simp: percent_decode_literal)

lemma from_utf8_Some: "from_utf8 d = Some s \<Longrightarrow> s = d"
  by (auto simp: from_utf8_def split: if_splits)

lemma normalize_loop_pairs:
  assumes "normalize_loop parts dec raw = Some (dec', raw')"
    and "\<forall>p \<in> set parts. CHR ''/'' \<notin> set p" and "list_all2 segment_pair raw dec"
  shows "list_all2 segment_pair raw' dec'"
  using assms
proof (induction parts dec raw rule: normalize_loop.induct)
  case (1 dec raw)
  then show ?case by simp
next
  case (2 part parts dec raw)
  have bl: "list_all2 segment_pair (butlast raw) (butlast dec)"
    using "2.prems"(3) by (auto simp: list_all2_conv_all_nth nth_butlast)
  have snoc: "list_all2 segment_pair (raw @ [part]) (dec @ [d])"
    if "part \<noteq> []" "percent_decode part = Some d" "d \<noteq> ''.''" "d \<noteq> ''..''" "CHR ''/'' \<notin> set d"
      "from_utf8 d = Some d" for d
  proof -
    have "segment_pair part d"
      using that "2.prems"(2) percent_decode_not_Nil [of part d]
      by (simp add: segment_pair_def plain_segment_def)
    with "2.prems"(3) show ?thesis by (intro list_all2_appendI) simp_all
  qed
  have parts: "\<forall>p \<in> set parts. CHR ''/'' \<notin> set p" using "2.prems"(2) by simp
  show ?case
  proof (cases "part = []")
    case True
    with "2.prems" "2.IH"(1) parts show ?thesis by simp
  next
    case False
    then obtain d where d: "percent_decode part = Some d"
      using "2.prems"(1) by (auto split: option.splits)
    consider "d = ''.''" | "d = ''..''" | "d \<noteq> ''.''" "d \<noteq> ''..''" by blast
    then show ?thesis
    proof cases
      case 1
      with False d "2.prems" "2.IH"(2) parts show ?thesis by simp
    next
      case 2
      with False d "2.prems" "2.IH"(3) parts bl show ?thesis by (simp split: if_splits)
    next
      case 3
      with False d "2.prems"(1) have ok: "CHR ''/'' \<notin> set d" "from_utf8 d = Some d"
        by (auto split: if_splits option.splits dest: from_utf8_Some)
      with 3 False d "2.prems"(1) "2.IH"(4) parts snoc show ?thesis by simp
    qed
  qed
qed

lemma normalize_loop_replay:
  "list_all2 segment_pair rs ds \<Longrightarrow>
   normalize_loop rs dec raw = Some (dec @ ds, raw @ rs)"
proof (induction rs ds arbitrary: dec raw rule: list_all2_induct)
  case Nil
  then show ?case by simp
next
  case (Cons r rs d ds)
  then show ?case by (simp add: segment_pair_def plain_segment_def)
qed

lemma normalize_request_pathD:
  assumes "normalize_request_path raw = Some np"
  obtains rs ds where "list_all2 segment_pair rs ds"
    and "relative np = join_with ''/'' ds" and "encoded_relative np = join_with ''/'' rs"
proof -
  obtain ds rs where
    "normalize_loop (split_on (CHR ''/'') (if raw = [] then ''/'' else raw)) [] [] = Some (ds, rs)"
    and np: "relative np = join_with ''/'' ds" "encoded_relative np = join_with ''/'' rs"
    using assms by (auto simp: normalize_request_path_def Let_def split: option.splits)
  then have "list_all2 segment_pair rs ds"
    by (auto intro: normalize_loop_pairs dest: split_on_parts)
  with np that show ?thesis by blast
qed

lemma segment_pairs_plain:
  assumes "list_all2 segment_pair rs ds"
  shows "\<forall>d \<in> set ds. plain_segment d" and "\<forall>r \<in> set rs. r \<noteq> [] \<and> CHR ''/'' \<notin> set r"
    and "map percent_decode rs = map Some ds"
  using assms by (induction rule: list_all2_induct) (auto simp: segment_pair_def)

lemma split_join_plain:
  "\<forall>d \<in> set ds. plain_segment d \<Longrightarrow> ds \<noteq> [] \<Longrightarrow>
   split_on (CHR ''/'') (join_with ''/'' ds) = ds"
  by (rule split_join) (auto simp: plain_segment_def)

lemma normalize_loop_slashes [simp]:
  "normalize_loop ([] # parts) dec raw = normalize_loop parts dec raw"
  by simp

lemma normalize_loop_append_Nil:
  "normalize_loop (parts @ [[]]) dec raw = normalize_loop parts dec raw"
  by (induction parts dec raw rule: normalize_loop.induct) (auto split: option.splits)

lemma split_slash_path: "split_on (CHR ''/'') (CHR ''/'' # s) = [] # split_on (CHR ''/'') s"
  by simp

lemma split_on_snoc: "split_on c (s @ [c]) = split_on c s @ [[]]"
  by (induction s) (auto split: list.splits)

subsection \<open>The index\<close>

lemma rcut_None: "rcut s = None \<longleftrightarrow> CHR ''/'' \<notin> set s"
  by (simp add: rcut_def)

lemma set_parents: "set (parents s) = {t. t \<noteq> [] \<and> (\<exists>u. s = t @ CHR ''/'' # u)}"
proof (induction s rule: parents.induct)
  case (1 s)
  show ?case
  proof (cases "rcut s")
    case None
    then have "CHR ''/'' \<notin> set s" by (simp add: rcut_None)
    then have "\<not> (\<exists>u. s = t @ CHR ''/'' # u)" for t by auto
    with None show ?thesis by (simp add: parents.simps [of s])
  next
    case (Some t)
    then obtain u where s: "s = t @ CHR ''/'' # u" and u: "CHR ''/'' \<notin> set u"
      using rcut_SomeD by blast
    have cut: "(\<exists>u'. s = t' @ CHR ''/'' # u') \<longleftrightarrow> t' = t \<or> (\<exists>u'. t = t' @ CHR ''/'' # u')" for t'
    proof
      assume "\<exists>u'. s = t' @ CHR ''/'' # u'"
      then obtain u' where "t @ CHR ''/'' # u = t' @ CHR ''/'' # u'" using s by auto
      then obtain v where "t = t' @ v \<and> v @ CHR ''/'' # u = CHR ''/'' # u' \<or>
          t @ v = t' \<and> CHR ''/'' # u = v @ CHR ''/'' # u'"
        by (auto simp: append_eq_append_conv2)
      then show "t' = t \<or> (\<exists>u'. t = t' @ CHR ''/'' # u')"
        using u by (cases v) auto
    next
      assume "t' = t \<or> (\<exists>u'. t = t' @ CHR ''/'' # u')"
      then show "\<exists>u'. s = t' @ CHR ''/'' # u'" using s by auto
    qed
    show ?thesis
    proof (cases "t = []")
      case True
      then have "set (parents s) = {}" using Some by (simp add: parents.simps [of s])
      then show ?thesis unfolding cut using True by auto
    next
      case False
      then have "set (parents t) = {t'. t' \<noteq> [] \<and> (\<exists>u. t = t' @ CHR ''/'' # u)}"
        using "1.IH" Some by simp
      moreover have "set (parents s) = insert t (set (parents t))"
        using Some False by (simp add: parents.simps [of s])
      ultimately show ?thesis unfolding cut using False by auto
    qed
  qed
qed

lemma trim_end_char_idem: "trim_end_char c (trim_char c s) = trim_char c s"
  by (simp add: trim_char_def trim_end_char_def)

text \<open>
  Every indexed entry is stored under its own path, its ancestors are known directories, and
  so are the ancestors of every directory.
\<close>

definition index_ok :: "(string, tar_entry) store \<Rightarrow> string set \<Rightarrow> bool" where
  "index_ok es ds =
     (store_wf es \<and> (\<forall>k e. store_get es k = Some e \<longrightarrow> te_path e = k \<and> k \<noteq> [] \<and> set (parents k) \<subseteq> ds) \<and>
      (\<forall>d \<in> ds. set (parents d) \<subseteq> ds))"

lemma parents_trans: "t \<in> set (parents s) \<Longrightarrow> set (parents t) \<subseteq> set (parents s)"
  by (auto simp: set_parents)

lemma mark_parents_normalized:
  assumes "n = normalize_tar_path p" and "n \<noteq> []"
  shows "mark_parents n ds = set (parents n) \<union> ds"
  using assms by (simp add: mark_parents_def normalize_tar_path_def trim_end_char_idem Let_def)

lemma index_ok_put:
  assumes ok: "index_ok es ds" and e: "te_path e = n" "n \<noteq> []"
  shows "index_ok (store_put n e es) (set (parents n) \<union> ds)"
proof -
  have wf: "store_wf (store_put n e es)" using ok by (simp add: index_ok_def store_laws)
  have ent: "te_path e' = k \<and> k \<noteq> [] \<and> set (parents k) \<subseteq> set (parents n) \<union> ds"
    if "store_get (store_put n e es) k = Some e'" for k e'
  proof (cases "k = n")
    case True
    with that e show ?thesis by (simp add: st.get_put)
  next
    case False
    with that have "store_get es k = Some e'" by (simp add: st.get_put)
    with ok show ?thesis by (simp add: index_ok_def le_supI2)
  qed
  have "set (parents d) \<subseteq> set (parents n) \<union> ds" if "d \<in> set (parents n) \<union> ds" for d
    using that ok parents_trans [of d n] by (simp add: index_ok_def) blast
  with wf ent show ?thesis unfolding index_ok_def by blast
qed

lemma index_ok_insert:
  assumes ok: "index_ok es ds"
  shows "index_ok es (insert n (set (parents n) \<union> ds))"
proof -
  have ent: "te_path e = k \<and> k \<noteq> [] \<and> set (parents k) \<subseteq> insert n (set (parents n) \<union> ds)"
    if "store_get es k = Some e" for k e
    using that ok by (simp add: index_ok_def le_supI2 subset_insertI2)
  have "set (parents d) \<subseteq> insert n (set (parents n) \<union> ds)" if "d \<in> insert n (set (parents n) \<union> ds)" for d
    using that ok parents_trans [of d n] by (simp add: index_ok_def) blast
  with ok ent show ?thesis unfolding index_ok_def by blast
qed

lemma index_item_ok:
  assumes "index_item blake3 it ix = Inr ix'" and "index_ok (ix_entries ix) (ix_directories ix)"
  shows "index_ok (ix_entries ix') (ix_directories ix')"
proof -
  obtain i p where it: "it = Some i" "ti_path i = Some p"
    using assms(1) by (auto simp: index_item_def split: option.splits)
  define n where "n = normalize_tar_path p"
  have mp: "n \<noteq> [] \<Longrightarrow> mark_parents n ds = set (parents n) \<union> ds" for ds
    using mark_parents_normalized [OF n_def] .
  show ?thesis
    using assms it mp
    by (auto simp: index_item_def n_def [symmetric] Let_def intro!: index_ok_put index_ok_insert
        split: if_splits option.splits)
qed

lemma index_items_ok:
  "index_items blake3 its ix = Inr ix' \<Longrightarrow> index_ok (ix_entries ix) (ix_directories ix) \<Longrightarrow>
   index_ok (ix_entries ix') (ix_directories ix')"
proof (induction its arbitrary: ix)
  case (Cons it its)
  then show ?case by (auto split: sum.splits dest: index_item_ok)
qed simp

lemma loaded_index_ok:
  assumes "load_from_file blake3 items file_len m = Inr s"
  shows "index_ok (entries s) (directories s)"
proof -
  obtain ix where ix: "index_items blake3 items \<lparr>ix_entries = [], ix_directories = {}, ix_mtimes = []\<rparr> = Inr ix"
    and s: "entries s = ix_entries ix" "directories s = ix_directories ix"
    using assms by (auto simp: load_from_file_def split: sum.splits if_splits)
  show ?thesis unfolding s by (rule index_items_ok [OF ix]) (simp add: index_ok_def)
qed

lemma lookup_key:
  assumes "lookup s np idx try_html = Some e"
  obtains key where "get_entry_safe s key = Some e"
  using assms by (auto simp: lookup_def Let_def split: option.splits if_splits)

lemma ends_with_slash: "ends_with (a # s) [c] \<longleftrightarrow> last (a # s) = c"
  by (cases "a # s" rule: rev_cases) (auto simp: ends_with_def)

subsection \<open>Properties\<close>

text \<open>C1. No path traversal: a normalised request path is the root or a sequence of segments,
  none of them empty, \<open>.\<close> or \<open>..\<close>, however the dots and slashes of the request were
  percent-encoded.\<close>

theorem normalize_no_traversal:
  assumes "normalize_request_path raw = Some np"
  shows "relative np = [] \<or>
    (\<forall>c \<in> set (split_on (CHR ''/'') (relative np)). c \<notin> {'''', ''.'', ''..''})"
proof -
  obtain rs ds where p: "list_all2 segment_pair rs ds" and rel: "relative np = join_with ''/'' ds"
    using assms by (rule normalize_request_pathD)
  show ?thesis
  proof (cases "ds = []")
    case False
    then show ?thesis
      using segment_pairs_plain(1) [OF p] by (simp add: rel split_join_plain plain_segment_def)
  qed (simp add: rel)
qed

theorem normalize_no_traversal_witness:
  "\<exists>np. normalize_request_path ''/a/%2e%2E/b%20c'' = Some np \<and> relative np = ''b c'' \<and>
     (\<forall>c \<in> set (split_on (CHR ''/'') (relative np)). c \<notin> {'''', ''.'', ''..''})"
proof -
  have n: "normalize_request_path ''/a/%2e%2E/b%20c'' =
      Some \<lparr>relative = ''b c'', encoded_relative = ''b%20c'', dir_hint = False\<rparr>"
    by code_simp
  show ?thesis using normalize_no_traversal [OF n] n by simp
qed

text \<open>The encoded view of a path, on which rules are written, and the decoded view, which
  selects the file, have the same segments: decoding each encoded segment gives the decoded
  one.\<close>

theorem normalize_views_agree:
  assumes "normalize_request_path raw = Some np" and "relative np \<noteq> []"
  shows "map percent_decode (split_on (CHR ''/'') (encoded_relative np)) =
    map Some (split_on (CHR ''/'') (relative np))"
proof -
  obtain rs ds where p: "list_all2 segment_pair rs ds" and rel: "relative np = join_with ''/'' ds"
    and enc: "encoded_relative np = join_with ''/'' rs"
    using assms(1) by (rule normalize_request_pathD)
  have ne: "ds \<noteq> []" using assms(2) rel by auto
  then have "rs \<noteq> []" using p by auto
  then have "split_on (CHR ''/'') (encoded_relative np) = rs"
    unfolding enc using segment_pairs_plain(2) [OF p] by (intro split_join) auto
  with ne show ?thesis
    using segment_pairs_plain(1,3) [OF p] by (simp add: rel split_join_plain)
qed

theorem normalize_views_agree_witness:
  "map percent_decode (split_on (CHR ''/'') ''x/y%2Ez'') = map Some (split_on (CHR ''/'') ''x/y.z'')"
proof -
  have n: "normalize_request_path ''/x//./y%2Ez/'' =
      Some \<lparr>relative = ''x/y.z'', encoded_relative = ''x/y%2Ez'', dir_hint = True\<rparr>"
    by code_simp
  show ?thesis using normalize_views_agree [OF n] by simp
qed

text \<open>Normalisation is idempotent: the encoded path it yields normalises to the same
  segments, and to the same trailing-slash hint unless the path is the root.\<close>

theorem normalize_idempotent:
  assumes "normalize_request_path raw = Some np"
  shows "\<exists>np'. normalize_request_path (encoded_path_with_dir_hint np) = Some np' \<and>
    relative np' = relative np \<and> encoded_relative np' = encoded_relative np \<and>
    (encoded_relative np \<noteq> [] \<longrightarrow> dir_hint np' = dir_hint np)"
proof -
  obtain rs ds where p: "list_all2 segment_pair rs ds" and rel: "relative np = join_with ''/'' ds"
    and enc: "encoded_relative np = join_with ''/'' rs"
    using assms by (rule normalize_request_pathD)
  have rs: "\<forall>r \<in> set rs. r \<noteq> [] \<and> CHR ''/'' \<notin> set r" by (rule segment_pairs_plain(2) [OF p])
  have loop: "normalize_loop rs [] [] = Some (ds, rs)" using normalize_loop_replay [OF p, of "[]" "[]"] by simp
  show ?thesis
  proof (cases "rs = []")
    case True
    then have "ds = []" using p by simp
    with True enc rel show ?thesis
      by (simp add: encoded_path_with_dir_hint_def encoded_path_def normalize_request_path_def Let_def)
  next
    case False
    then have ne: "encoded_relative np \<noteq> []" using rs enc by (simp add: join_with_eq_Nil)
    have split: "split_on (CHR ''/'') (encoded_relative np) = rs"
      unfolding enc using rs False by (intro split_join) auto
    have last: "last (encoded_relative np) \<noteq> CHR ''/''"
    proof
      assume l: "last (encoded_relative np) = CHR ''/''"
      have "split_on (CHR ''/'') (butlast (encoded_relative np) @ [CHR ''/'']) = rs"
        using split l ne append_butlast_last_id [OF ne] by simp
      then have "[] \<in> set rs" by (auto simp: split_on_snoc)
      with rs show False by blast
    qed
    show ?thesis
      using ne last split loop
      by (auto simp: encoded_path_with_dir_hint_def encoded_path_def normalize_request_path_def Let_def
          ends_with_slash normalize_loop_append_Nil split_on_snoc rel enc)
  qed
qed

theorem normalize_idempotent_witness:
  "\<exists>np'. normalize_request_path ''/b%20c/'' = Some np' \<and> relative np' = ''b c'' \<and>
     encoded_relative np' = ''b%20c'' \<and> dir_hint np'"
proof -
  have n: "normalize_request_path ''a/../b%20c/'' =
      Some \<lparr>relative = ''b c'', encoded_relative = ''b%20c'', dir_hint = True\<rparr>"
    by code_simp
  have e: "encoded_path_with_dir_hint \<lparr>relative = ''b c'', encoded_relative = ''b%20c'', dir_hint = True\<rparr>
      = ''/b%20c/''"
    by code_simp
  show ?thesis using normalize_idempotent [OF n] by (simp add: e)
qed

text \<open>An archive with one page and one script, for the witnesses.\<close>

definition sample_archive :: "tar_item option list" where
  "sample_archive =
     [Some \<lparr>ti_type = Regular, ti_path = Some ''./a/b'', ti_pos = 512, ti_size = 1,
        ti_content = Some ''x'', ti_mtime = None\<rparr>,
      Some \<lparr>ti_type = Regular, ti_path = Some ''.zeroserve/scripts/b'', ti_pos = 1536, ti_size = 1,
        ti_content = Some ''y'', ti_mtime = Some 7\<rparr>]"

text \<open>C21. The server never serves a file below \<open>.zeroserve/\<close> (the request scripts): whatever a
  loaded site is asked for, with whatever index name and fallback options, the entry found has
  a path outside that directory, and it is the entry stored under its own path.\<close>

theorem lookup_never_serves_scripts:
  assumes "load_from_file blake3 items file_len m = Inr s" and "lookup s np idx try_html = Some e"
  shows "\<not> starts_with (te_path e) ''.zeroserve/'' \<and> store_get (entries s) (te_path e) = Some e"
proof -
  obtain key where "get_entry_safe s key = Some e" using assms(2) by (rule lookup_key)
  with loaded_index_ok [OF assms(1)] show ?thesis
    by (auto simp: get_entry_safe_def index_ok_def split: if_splits)
qed

theorem lookup_never_serves_scripts_witness:
  "\<exists>s e. load_from_file (\<lambda>_. ''0123456789abcdef'') sample_archive 4096 1 = Inr s \<and>
     lookup s \<lparr>relative = ''a'', encoded_relative = ''a'', dir_hint = False\<rparr> ''b'' False = Some e \<and>
     te_path e = ''a/b'' \<and> \<not> starts_with (te_path e) ''.zeroserve/''"
proof -
  let ?load = "load_from_file (\<lambda>_. ''0123456789abcdef'') sample_archive 4096 1"
  let ?look = "lookup (projr ?load) \<lparr>relative = ''a'', encoded_relative = ''a'', dir_hint = False\<rparr> ''b'' False"
  have "\<not> isl ?load" by code_simp
  then have l: "?load = Inr (projr ?load)" by (simp add: sum.expand)
  have "map_option te_path ?look = Some ''a/b''" by code_simp
  then obtain e where e: "?look = Some e" "te_path e = ''a/b''" by auto
  show ?thesis
    using l e lookup_never_serves_scripts [OF l e(1)] by blast
qed

text \<open>In a loaded site the directory set is closed: every ancestor of an indexed file or
  directory is a known directory, so a request for it finds the directory's index file.\<close>

theorem loaded_directories_closed:
  assumes "load_from_file blake3 items file_len m = Inr s"
    and "store_get (entries s) k = Some e \<or> k \<in> directories s"
    and "k = t @ ''/'' @ u" and "t \<noteq> []"
  shows "t \<in> directories s"
proof -
  have "t \<in> set (parents k)" using assms(3,4) by (auto simp: set_parents)
  with loaded_index_ok [OF assms(1)] assms(2) show ?thesis by (auto simp: index_ok_def)
qed

theorem loaded_directories_closed_witness:
  "\<exists>s e. load_from_file (\<lambda>_. ''0123456789abcdef'') sample_archive 4096 1 = Inr s \<and>
     store_get (entries s) ''a/b'' = Some e \<and> ''a'' \<in> directories s"
proof -
  let ?load = "load_from_file (\<lambda>_. ''0123456789abcdef'') sample_archive 4096 1"
  have "\<not> isl ?load" by code_simp
  then have l: "?load = Inr (projr ?load)" by (simp add: sum.expand)
  have "map_option te_path (store_get (entries (projr ?load)) ''a/b'') = Some ''a/b''" by code_simp
  then obtain e where e: "store_get (entries (projr ?load)) ''a/b'' = Some e" by auto
  have "''a'' \<in> directories (projr ?load)"
    by (rule loaded_directories_closed [OF l disjI1 [OF e], of _ "''b''"]) simp_all
  with l e show ?thesis by blast
qed

end
