(* ===== verification/Glob.thy ===== *)
theory Glob
  imports Rust_Text
begin

text \<open>
  The file matching rules of \<open>src/src/caddy_file.rs\<close>: joining a root and a request path, the
  \<open>hide\<close> patterns of the file server, and the memoised glob matcher.  Patterns and names are
  byte strings.  The working directory is a parameter.
\<close>

subsection \<open>The glob matcher\<close>

definition glob_class_byte :: "string \<Rightarrow> nat \<Rightarrow> (char \<times> nat) option" where
  "glob_class_byte pattern pi =
     (if pi \<ge> length pattern then None
      else if pattern ! pi = CHR 0x5C \<and> pi + 1 < length pattern then Some (pattern ! (pi + 1), pi + 2)
      else Some (pattern ! pi, pi + 1))"

text \<open>The loop of \<open>glob_class_match\<close>, with its variables \<open>pi\<close>, \<open>matched\<close> and \<open>has_term\<close>.\<close>

function glob_class_loop :: "string \<Rightarrow> char \<Rightarrow> nat \<Rightarrow> bool \<Rightarrow> bool \<Rightarrow> (bool \<times> nat) option" where
  "glob_class_loop pattern v pi matched has_term =
     (if pi \<ge> length pattern then None
      else if pattern ! pi = CHR '']'' \<and> has_term then Some (matched, pi + 1)
      else if pattern ! pi = CHR ''-'' then None
      else
        (case glob_class_byte pattern pi of
           None \<Rightarrow> None
         | Some (start, pi1) \<Rightarrow>
             if pi1 < length pattern \<and> pattern ! pi1 = CHR ''-'' then
               (if pi1 + 1 \<ge> length pattern \<or> pattern ! (pi1 + 1) = CHR '']'' then None
                else
                  (case glob_class_byte pattern (pi1 + 1) of
                     None \<Rightarrow> None
                   | Some (stop, pi2) \<Rightarrow>
                       glob_class_loop pattern v pi2
                         (matched \<or> byte_val start \<le> byte_val v \<and> byte_val v \<le> byte_val stop) True))
             else glob_class_loop pattern v pi1 (matched \<or> v = start) True))"
  by pat_completeness auto
termination
  by (relation "measure (\<lambda>(pattern, v, pi, matched, has_term). length pattern - pi)")
    (auto simp: glob_class_byte_def split: if_splits)

declare glob_class_loop.simps [simp del]

definition glob_class_match :: "string \<Rightarrow> nat \<Rightarrow> char \<Rightarrow> (bool \<times> nat) option" where
  "glob_class_match pattern pi v =
     (let negated = (pi < length pattern \<and> pattern ! pi = CHR ''^'');
          pi' = (if negated then pi + 1 else pi)
      in case glob_class_loop pattern v pi' False False of
           None \<Rightarrow> None
         | Some (matched, next_pi) \<Rightarrow> Some (if negated then \<not> matched else matched, next_pi))"

lemma glob_class_loop_bound:
  "glob_class_loop pattern v pi matched has_term = Some (r, n) \<Longrightarrow> pi < n \<and> n \<le> length pattern"
proof (induction pattern v pi matched has_term rule: glob_class_loop.induct)
  case (1 pattern v pi matched has_term)
  then show ?case
    by (subst (asm) (3) glob_class_loop.simps)
      (fastforce simp: glob_class_byte_def split: if_splits option.splits prod.splits)
qed

lemma glob_class_match_bound:
  "glob_class_match pattern pi v = Some (r, n) \<Longrightarrow> pi < n \<and> n \<le> length pattern"
  by (auto simp: glob_class_match_def Let_def dest!: glob_class_loop_bound
      split: option.splits prod.splits if_splits)

text \<open>
  The matcher itself, with the memo table threaded through the calls; \<open>||\<close> and \<open>&&\<close> do not
  evaluate their right operand when the left one decides.  The index \<open>pi\<close> never exceeds the
  length of the pattern.
\<close>

type_synonym glob_memo = "(nat \<times> nat, bool) store"

function glob_match_inner :: "string \<Rightarrow> string \<Rightarrow> nat \<Rightarrow> nat \<Rightarrow> glob_memo \<Rightarrow> bool \<times> glob_memo" where
  "glob_match_inner pattern v pi vi memo =
     (case store_get memo (pi, vi) of
        Some r \<Rightarrow> (r, memo)
      | None \<Rightarrow>
          (let (result, memo') =
             (if pi \<ge> length pattern then (vi = length v, memo)
              else if pattern ! pi = CHR ''*'' then
                (let (r1, m1) = glob_match_inner pattern v (pi + 1) vi memo
                 in if r1 then (True, m1)
                    else if vi < length v then glob_match_inner pattern v pi (vi + 1) m1
                    else (False, m1))
              else if pattern ! pi = CHR ''?'' then
                (if vi < length v then glob_match_inner pattern v (pi + 1) (vi + 1) memo else (False, memo))
              else if pattern ! pi = CHR ''['' then
                (if vi \<ge> length v then (False, memo)
                 else
                   (case glob_class_match pattern (pi + 1) (v ! vi) of
                      Some (matched, next_pi) \<Rightarrow>
                        (if matched then glob_match_inner pattern v next_pi (vi + 1) memo else (False, memo))
                    | None \<Rightarrow> (False, memo)))
              else if pattern ! pi = CHR 0x5C then
                (if pi + 1 \<ge> length pattern then (False, memo)
                 else if vi < length v \<and> v ! vi = pattern ! (pi + 1)
                   then glob_match_inner pattern v (pi + 2) (vi + 1) memo
                   else (False, memo))
              else if vi < length v \<and> v ! vi = pattern ! pi
                then glob_match_inner pattern v (pi + 1) (vi + 1) memo
                else (False, memo))
           in (result, store_put (pi, vi) result memo')))"
  by pat_completeness auto
termination
  by (relation "measure (\<lambda>(pattern, v, pi, vi, memo). (length pattern - pi) + (length v - vi))")
    (auto dest!: glob_class_match_bound)

declare glob_match_inner.simps [simp del]

definition glob_match :: "string \<Rightarrow> string \<Rightarrow> bool" where
  "glob_match pattern v = fst (glob_match_inner pattern v 0 0 [])"

subsection \<open>Paths and hide rules\<close>

definition path_glob_match :: "string \<Rightarrow> string \<Rightarrow> bool" where
  "path_glob_match pattern v =
     (let pattern_parts = split_on (CHR ''/'') pattern; value_parts = split_on (CHR ''/'') v
      in length pattern_parts = length value_parts \<and> list_all2 glob_match pattern_parts value_parts)"

definition path_hidden :: "string \<Rightarrow> string \<Rightarrow> bool" where
  "path_hidden pattern path =
     ((case strip_prefix path pattern of
         Some after \<Rightarrow> after = [] \<or> starts_with after ''/''
       | None \<Rightarrow> False)
      \<or> path_glob_match pattern path)"

definition display_path :: "string \<Rightarrow> string" where
  "display_path path = map (\<lambda>c. if c = CHR 0x5C then CHR ''/'' else c) path"

definition skip_pattern :: "string \<Rightarrow> bool" where
  "skip_pattern pattern = (pattern = [] \<or> CHR ''{'' \<in> set pattern \<or> CHR ''}'' \<in> set pattern)"

definition hides :: "string \<Rightarrow> string list \<Rightarrow> string \<Rightarrow> bool" where
  "hides path components pattern0 =
     (let pattern = str_trim pattern0
      in \<not> skip_pattern pattern \<and>
         (if CHR ''/'' \<in> set pattern then path_hidden pattern path
          else (\<exists>c \<in> set components. glob_match pattern c)))"

definition file_hidden :: "string \<Rightarrow> string list \<Rightarrow> bool" where
  "file_hidden path hide =
     (path \<noteq> [] \<and> (\<exists>p \<in> set hide. hides path (split_on (CHR ''/'') path) p))"

text \<open>\<open>cwd\<close> is what \<open>std::env::current_dir\<close> returns, None when it fails.\<close>

definition hide_path_with_cwd :: "string option \<Rightarrow> string \<Rightarrow> string" where
  "hide_path_with_cwd cwd pattern =
     (if starts_with pattern ''/'' then display_path pattern
      else
        (case cwd of
           Some d \<Rightarrow> display_path (if d = [] \<or> ends_with d ''/'' then d @ pattern else d @ ''/'' @ pattern)
         | None \<Rightarrow> display_path pattern))"

definition fs_hides :: "string option \<Rightarrow> string \<Rightarrow> string list \<Rightarrow> string \<Rightarrow> bool" where
  "fs_hides cwd full_path components pattern0 =
     (let pattern = str_trim pattern0
      in \<not> skip_pattern pattern \<and>
         (if CHR ''/'' \<in> set pattern then path_hidden (hide_path_with_cwd cwd pattern) full_path
          else (\<exists>c \<in> set components. glob_match pattern c)))"

definition fs_file_hidden :: "string option \<Rightarrow> string \<Rightarrow> string \<Rightarrow> string list \<Rightarrow> bool" where
  "fs_file_hidden cwd logical full_path0 hide =
     (hide \<noteq> [] \<and>
      (let full_path = display_path full_path0;
           components = split_on (CHR ''/'') logical @ split_on (CHR ''/'') full_path
       in \<exists>p \<in> set hide. fs_hides cwd full_path components p))"

definition join_file_path :: "string \<Rightarrow> string \<Rightarrow> string option" where
  "join_file_path root rel =
     (let joined =
        (case (root = [], rel = []) of
           (True, True) \<Rightarrow> []
         | (True, False) \<Rightarrow> trim_start_char (CHR ''/'') rel
         | (False, True) \<Rightarrow> root
         | (False, False) \<Rightarrow> trim_end_char (CHR ''/'') root @ ''/'' @ trim_start_char (CHR ''/'') rel)
      in if \<exists>c \<in> set (split_on (CHR ''/'') joined). c = ''.'' \<or> c = ''..'' then None else Some joined)"

subsection \<open>What a pattern means\<close>

text \<open>
  The specification: a pattern is parsed into elements, and each element says which strings
  it matches.  A character class that is not closed or has a stray dash, and a backslash at
  the end, match nothing.
\<close>

datatype glob_elem = GStar | GAny | GLit char | GClass bool "(char \<times> char) list" | GBad

fun class_char :: "string \<Rightarrow> (char \<times> string) option" where
  "class_char [] = None"
| "class_char (c # s) =
     (if c = CHR 0x5C then (case s of [] \<Rightarrow> Some (c, s) | d # s' \<Rightarrow> Some (d, s')) else Some (c, s))"

lemma class_char_suffix: "class_char s = Some (c, r) \<Longrightarrow> strict_suffix r s"
  by (cases s) (auto simp: strict_suffix_def suffix_def split: if_splits list.splits)

lemma class_char_shorter: "class_char s = Some (c, r) \<Longrightarrow> length r < length s"
  by (rule strict_suffix_drop(2) [OF class_char_suffix])

function class_ranges :: "bool \<Rightarrow> string \<Rightarrow> ((char \<times> char) list \<times> string) option" where
  "class_ranges closable s =
     (if s = [] then None
      else if hd s = CHR '']'' \<and> closable then Some ([], tl s)
      else if hd s = CHR ''-'' then None
      else
        (case class_char s of
           None \<Rightarrow> None
         | Some (a, r) \<Rightarrow>
             if r \<noteq> [] \<and> hd r = CHR ''-'' then
               (if tl r = [] \<or> hd (tl r) = CHR '']'' then None
                else
                  (case class_char (tl r) of
                     None \<Rightarrow> None
                   | Some (b, r') \<Rightarrow>
                       map_option (\<lambda>(rs, t). ((a, b) # rs, t)) (class_ranges True r')))
             else map_option (\<lambda>(rs, t). ((a, a) # rs, t)) (class_ranges True r)))"
  by pat_completeness auto
termination
proof (relation "measure (\<lambda>(closable, s). length s)", simp, goal_cases)
  case (1 closable s x a r x' b r')
  then have "length r < length s" and "length r' < length (tl r)"
    by (auto dest: class_char_shorter)
  then show ?case by simp
next
  case (2 closable s x a r)
  then show ?case by (auto dest: class_char_shorter)
qed

declare class_ranges.simps [simp del]

abbreviation class_stop :: "bool \<Rightarrow> string \<Rightarrow> bool" where
  "class_stop closable s \<equiv> s = [] \<or> hd s = CHR '']'' \<and> closable \<or> hd s = CHR ''-''"

abbreviation starts_range :: "string \<Rightarrow> bool" where
  "starts_range r \<equiv> r \<noteq> [] \<and> hd r = CHR ''-''"

lemma class_ranges_stop:
  "class_stop closable s \<Longrightarrow>
   class_ranges closable s = (if s \<noteq> [] \<and> hd s = CHR '']'' \<and> closable then Some ([], tl s) else None)"
  by (subst class_ranges.simps) auto

lemma class_ranges_single:
  "\<not> class_stop closable s \<Longrightarrow> class_char s = Some (a, r) \<Longrightarrow> \<not> starts_range r \<Longrightarrow>
   class_ranges closable s = map_option (\<lambda>(rs, t). ((a, a) # rs, t)) (class_ranges True r)"
  by (subst class_ranges.simps) auto

lemma class_ranges_range:
  "\<not> class_stop closable s \<Longrightarrow> class_char s = Some (a, r) \<Longrightarrow> starts_range r \<Longrightarrow>
   class_ranges closable s =
     (if tl r = [] \<or> hd (tl r) = CHR '']'' then None
      else case class_char (tl r) of None \<Rightarrow> None
        | Some (b, r') \<Rightarrow> map_option (\<lambda>(rs, t). ((a, b) # rs, t)) (class_ranges True r'))"
  by (subst class_ranges.simps) (auto split: option.splits)

lemma class_char_total: "s \<noteq> [] \<Longrightarrow> \<exists>c r. class_char s = Some (c, r)"
  by (cases s) (auto split: list.splits)

lemma class_ranges_suffix: "class_ranges closable s = Some (rs, t) \<Longrightarrow> strict_suffix t s"
proof (induction closable s arbitrary: rs rule: class_ranges.induct)
  case (1 closable s)
  show ?case
  proof (cases "class_stop closable s")
    case True
    with "1.prems" show ?thesis
      by (cases s) (auto simp: class_ranges_stop strict_suffix_def suffix_def split: if_splits)
  next
    case False
    then obtain a r where a: "class_char s = Some (a, r)" using class_char_total [of s] by auto
    then have r: "strict_suffix r s" by (rule class_char_suffix)
    show ?thesis
    proof (cases "starts_range r")
      case True
      then obtain b r' rs' where b: "class_char (tl r) = Some (b, r')" and rr: "class_ranges True r' = Some (rs', t)"
        and nb: "\<not> (tl r = [] \<or> hd (tl r) = CHR '']'')"
        using "1.prems" class_ranges_range [OF False a True] by (auto split: option.splits if_splits)
      with "1.IH"(1) [OF _ _ _ a refl True nb b refl rr] False have "strict_suffix t r'" by blast
      also have "strict_suffix r' r" by (rule strict_suffix_tl [OF class_char_suffix [OF b]])
      also note r
      finally show ?thesis .
    next
      case nodash: False
      then obtain rs' where rr: "class_ranges True r = Some (rs', t)"
        using "1.prems" class_ranges_single [OF False a nodash] by auto
      with "1.IH"(2) [OF _ _ _ a refl nodash rr] False have "strict_suffix t r" by blast
      with r show ?thesis by (meson suffix_order.less_trans)
    qed
  qed
qed

definition parse_class :: "string \<Rightarrow> ((bool \<times> (char \<times> char) list) \<times> string) option" where
  "parse_class s =
     (let negated = (s \<noteq> [] \<and> hd s = CHR ''^'')
      in map_option (\<lambda>(rs, t). ((negated, rs), t)) (class_ranges False (if negated then tl s else s)))"

lemma parse_class_suffix: "parse_class s = Some (x, t) \<Longrightarrow> strict_suffix t s"
  by (auto simp: parse_class_def Let_def dest!: class_ranges_suffix intro: strict_suffix_tl split: if_splits)

lemma parse_class_shorter: "parse_class s = Some (x, t) \<Longrightarrow> length t < length s"
  by (rule strict_suffix_drop(2) [OF parse_class_suffix])

function parse_glob :: "string \<Rightarrow> glob_elem list" where
  "parse_glob s =
     (case s of
        [] \<Rightarrow> []
      | c # r \<Rightarrow>
          if c = CHR ''*'' then GStar # parse_glob r
          else if c = CHR ''?'' then GAny # parse_glob r
          else if c = CHR ''['' then
            (case parse_class r of None \<Rightarrow> [GBad] | Some ((n, rs), t) \<Rightarrow> GClass n rs # parse_glob t)
          else if c = CHR 0x5C then
            (case r of [] \<Rightarrow> [GBad] | d # t \<Rightarrow> GLit d # parse_glob t)
          else GLit c # parse_glob r)"
  by pat_completeness auto
termination
  by (relation "measure length") (auto dest!: parse_class_shorter)

declare parse_glob.simps [simp del]

definition in_ranges :: "char \<Rightarrow> (char \<times> char) list \<Rightarrow> bool" where
  "in_ranges c rs = (\<exists>(a, b) \<in> set rs. byte_val a \<le> byte_val c \<and> byte_val c \<le> byte_val b)"

fun glob_matches :: "glob_elem list \<Rightarrow> string \<Rightarrow> bool" where
  "glob_matches [] v = (v = [])"
| "glob_matches (GStar # g) v = (\<exists>i \<le> length v. glob_matches g (drop i v))"
| "glob_matches (GAny # g) v = (v \<noteq> [] \<and> glob_matches g (tl v))"
| "glob_matches (GLit c # g) v = (v \<noteq> [] \<and> hd v = c \<and> glob_matches g (tl v))"
| "glob_matches (GClass n rs # g) v = (v \<noteq> [] \<and> in_ranges (hd v) rs \<noteq> n \<and> glob_matches g (tl v))"
| "glob_matches (GBad # g) v = False"

subsection \<open>The matcher implements the specification\<close>

lemma glob_star_step:
  "glob_matches (GStar # g) v \<longleftrightarrow> glob_matches g v \<or> v \<noteq> [] \<and> glob_matches (GStar # g) (tl v)"
proof
  assume "glob_matches (GStar # g) v"
  then obtain i where i: "i \<le> length v" "glob_matches g (drop i v)" by auto
  show "glob_matches g v \<or> v \<noteq> [] \<and> glob_matches (GStar # g) (tl v)"
  proof (cases i)
    case 0
    with i show ?thesis by simp
  next
    case (Suc j)
    with i have "v \<noteq> []" "j \<le> length (tl v)" "glob_matches g (drop j (tl v))"
      by (auto simp: drop_Suc)
    then show ?thesis by auto
  qed
next
  assume "glob_matches g v \<or> v \<noteq> [] \<and> glob_matches (GStar # g) (tl v)"
  then show "glob_matches (GStar # g) v"
  proof
    assume "glob_matches g v"
    then show ?thesis by (auto intro: exI [of _ 0])
  next
    assume v: "v \<noteq> [] \<and> glob_matches (GStar # g) (tl v)"
    then obtain j where "j \<le> length (tl v)" "glob_matches g (drop j (tl v))" by auto
    with v show ?thesis by (cases v) (auto intro: exI [of _ "Suc j"])
  qed
qed

lemma drop_nth_Cons: "i < length xs \<Longrightarrow> drop i xs = xs ! i # drop (Suc i) xs"
  by (simp add: Cons_nth_drop_Suc)

lemma glob_class_byte_drop:
  "glob_class_byte pattern pi =
     map_option (\<lambda>(c, r). (c, length pattern - length r)) (class_char (drop pi pattern))"
proof (cases "pi < length pattern")
  case True
  show ?thesis
  proof (cases "pi + 1 < length pattern")
    case True
    then show ?thesis
      by (auto simp: glob_class_byte_def drop_nth_Cons [of pi] drop_nth_Cons [of "Suc pi"])
  next
    case False
    then have "pi + 1 = length pattern" using True by simp
    then show ?thesis using True by (auto simp: glob_class_byte_def drop_nth_Cons [of pi])
  qed
qed (simp add: glob_class_byte_def)

lemma class_char_drop: "class_char (drop pi p) = Some (c, r) \<Longrightarrow> r = drop (length p - length r) p"
  by (rule strict_suffix_drop(1) [OF strict_suffix_of_drop [OF class_char_suffix]])

lemma parse_class_drop: "parse_class (drop pi p) = Some (x, t) \<Longrightarrow> t = drop (length p - length t) p"
  by (rule strict_suffix_drop(1) [OF strict_suffix_of_drop [OF parse_class_suffix]])

lemma in_ranges_Cons:
  "in_ranges c ((a, b) # rs) \<longleftrightarrow> (byte_val a \<le> byte_val c \<and> byte_val c \<le> byte_val b) \<or> in_ranges c rs"
  by (auto simp: in_ranges_def)

lemma in_ranges_single: "(byte_val a \<le> byte_val c \<and> byte_val c \<le> byte_val a) \<longleftrightarrow> c = a"
  by (auto simp: byte_val_inject [symmetric])

lemma glob_class_loop_stop:
  "pi \<ge> length p \<or> p ! pi = CHR '']'' \<and> closable \<or> p ! pi = CHR ''-'' \<Longrightarrow>
   glob_class_loop p v pi matched closable =
     (if pi < length p \<and> p ! pi = CHR '']'' \<and> closable then Some (matched, pi + 1) else None)"
  by (subst glob_class_loop.simps) auto

lemma glob_class_loop_single:
  "\<not> (pi \<ge> length p \<or> p ! pi = CHR '']'' \<and> closable \<or> p ! pi = CHR ''-'') \<Longrightarrow>
   glob_class_byte p pi = Some (a, pi1) \<Longrightarrow> \<not> (pi1 < length p \<and> p ! pi1 = CHR ''-'') \<Longrightarrow>
   glob_class_loop p v pi matched closable = glob_class_loop p v pi1 (matched \<or> v = a) True"
  by (subst glob_class_loop.simps) auto

lemma glob_class_loop_range:
  "\<not> (pi \<ge> length p \<or> p ! pi = CHR '']'' \<and> closable \<or> p ! pi = CHR ''-'') \<Longrightarrow>
   glob_class_byte p pi = Some (a, pi1) \<Longrightarrow> pi1 < length p \<and> p ! pi1 = CHR ''-'' \<Longrightarrow>
   glob_class_loop p v pi matched closable =
     (if pi1 + 1 \<ge> length p \<or> p ! (pi1 + 1) = CHR '']'' then None
      else case glob_class_byte p (pi1 + 1) of None \<Rightarrow> None
        | Some (b, pi2) \<Rightarrow> glob_class_loop p v pi2
             (matched \<or> byte_val a \<le> byte_val v \<and> byte_val v \<le> byte_val b) True)"
  by (subst glob_class_loop.simps) (auto split: option.splits)

lemma drop_index:
  "drop pi p \<noteq> [] \<longleftrightarrow> pi < length p" "pi < length p \<Longrightarrow> hd (drop pi p) = p ! pi"
  "tl (drop pi p) = drop (pi + 1) p"
  by (auto simp: hd_drop_conv_nth tl_drop drop_Suc)

lemma glob_class_loop_spec:
  "glob_class_loop p v pi matched closable =
     map_option (\<lambda>(rs, t). (matched \<or> in_ranges v rs, length p - length t)) (class_ranges closable (drop pi p))"
proof (induction p v pi matched closable rule: glob_class_loop.induct)
  case (1 p v pi matched closable)
  let ?stop = "pi \<ge> length p \<or> p ! pi = CHR '']'' \<and> closable \<or> p ! pi = CHR ''-''"
  have stop: "class_stop closable (drop pi p) = ?stop"
    by (cases "pi < length p") (simp_all add: drop_index)
  show ?case
  proof (cases ?stop)
    case True
    then have "class_stop closable (drop pi p)" by (simp only: stop)
    then show ?thesis
      unfolding glob_class_loop_stop [OF True] class_ranges_stop [OF \<open>class_stop closable (drop pi p)\<close>]
      by (auto simp: drop_index in_ranges_def)
  next
    case False
    then have cstop: "\<not> class_stop closable (drop pi p)" using stop by blast
    then obtain a r where a: "class_char (drop pi p) = Some (a, r)"
      using class_char_total [of "drop pi p"] by auto
    define pi1 where "pi1 = length p - length r"
    have r: "r = drop pi1 p" using class_char_drop [OF a] by (simp add: pi1_def)
    have byte: "glob_class_byte p pi = Some (a, pi1)" by (simp add: glob_class_byte_drop a pi1_def)
    have dash: "starts_range r \<longleftrightarrow> (pi1 < length p \<and> p ! pi1 = CHR ''-'')"
      unfolding r by (cases "pi1 < length p") (simp_all add: drop_index)
    show ?thesis
    proof (cases "pi1 < length p \<and> p ! pi1 = CHR ''-''")
      case nodash: False
      then have rng: "\<not> starts_range r" using dash by blast
      have "glob_class_loop p v pi1 (matched \<or> v = a) True =
          map_option (\<lambda>(rs, t). ((matched \<or> v = a) \<or> in_ranges v rs, length p - length t)) (class_ranges True r)"
        unfolding r using "1.IH"(2) False byte nodash by auto
      then show ?thesis
        unfolding glob_class_loop_single [OF False byte nodash] class_ranges_single [OF cstop a rng]
        by (cases "class_ranges True r") (auto simp: in_ranges_Cons in_ranges_single)
    next
      case isdash: True
      then have rng: "starts_range r" by (simp only: dash)
      have tl: "tl r = drop (pi1 + 1) p" by (simp only: r drop_index)
      have end_iff: "(tl r = [] \<or> hd (tl r) = CHR '']'') \<longleftrightarrow> (pi1 + 1 \<ge> length p \<or> p ! (pi1 + 1) = CHR '']'')"
        unfolding tl by (cases "pi1 + 1 < length p") (simp_all add: hd_drop_conv_nth)
      show ?thesis
      proof (cases "pi1 + 1 \<ge> length p \<or> p ! (pi1 + 1) = CHR '']''")
        case True
        then show ?thesis
          unfolding glob_class_loop_range [OF False byte isdash] class_ranges_range [OF cstop a rng] end_iff
          by simp
      next
        case nostop: False
        then have "\<not> (tl r = [] \<or> hd (tl r) = CHR '']'')" using end_iff by blast
        then obtain b r' where b: "class_char (tl r) = Some (b, r')"
          using class_char_total [of "tl r"] by auto
        define pi2 where "pi2 = length p - length r'"
        have r': "r' = drop pi2 p" using class_char_drop [OF b [unfolded tl]] by (simp add: pi2_def)
        have byte2: "glob_class_byte p (Suc pi1) = Some (b, pi2)"
          using b by (simp add: glob_class_byte_drop tl pi2_def)
        define m where "m = (matched \<or> byte_val a \<le> byte_val v \<and> byte_val v \<le> byte_val b)"
        have "glob_class_loop p v pi2 m True =
            map_option (\<lambda>(rs, t). (m \<or> in_ranges v rs, length p - length t)) (class_ranges True r')"
          unfolding r' m_def using "1.IH"(1) False byte isdash nostop byte2 by simp
        then show ?thesis
          unfolding glob_class_loop_range [OF False byte isdash] class_ranges_range [OF cstop a rng] end_iff
          using nostop
          by (cases "class_ranges True r'") (auto simp: byte2 b m_def in_ranges_Cons)
      qed
    qed
  qed
qed

lemma glob_class_match_spec:
  "glob_class_match p pi v =
     map_option (\<lambda>((n, rs), t). (in_ranges v rs \<noteq> n, length p - length t)) (parse_class (drop pi p))"
proof (cases "pi < length p \<and> p ! pi = CHR ''^''")
  case True
  then have "drop pi p \<noteq> []" "hd (drop pi p) = CHR ''^''" by (auto simp: hd_drop_conv_nth)
  with True show ?thesis
    by (auto simp: glob_class_match_def parse_class_def glob_class_loop_spec tl_drop
        drop_Suc [symmetric] split: option.splits)
next
  case False
  then have "\<not> (drop pi p \<noteq> [] \<and> hd (drop pi p) = CHR ''^'')" by (auto simp: hd_drop_conv_nth)
  with False show ?thesis
    unfolding glob_class_match_def parse_class_def
    by (simp only: Let_def if_False glob_class_loop_spec) (auto split: option.splits)
qed

text \<open>What the memo table holds is right.\<close>

definition memo_ok :: "string \<Rightarrow> string \<Rightarrow> glob_memo \<Rightarrow> bool" where
  "memo_ok p v memo =
     (\<forall>pi vi r. store_get memo (pi, vi) = Some r \<longrightarrow> r = glob_matches (parse_glob (drop pi p)) (drop vi v))"

lemma memo_ok_put:
  "memo_ok p v memo \<Longrightarrow> r = glob_matches (parse_glob (drop pi p)) (drop vi v) \<Longrightarrow>
   memo_ok p v (store_put (pi, vi) r memo)"
  by (auto simp: memo_ok_def st.get_put split: if_splits)

lemma parse_glob_drop:
  assumes "pi < length p"
  shows "parse_glob (drop pi p) =
    (if p ! pi = CHR ''*'' then GStar # parse_glob (drop (pi + 1) p)
     else if p ! pi = CHR ''?'' then GAny # parse_glob (drop (pi + 1) p)
     else if p ! pi = CHR ''['' then
       (case parse_class (drop (pi + 1) p) of None \<Rightarrow> [GBad]
        | Some ((n, rs), t) \<Rightarrow> GClass n rs # parse_glob t)
     else if p ! pi = CHR 0x5C then
       (if pi + 1 < length p then GLit (p ! (pi + 1)) # parse_glob (drop (pi + 2) p) else [GBad])
     else GLit (p ! pi) # parse_glob (drop (pi + 1) p))"
proof -
  have d: "drop pi p = p ! pi # drop (pi + 1) p" using assms by (simp add: drop_nth_Cons)
  have e: "(case drop (pi + 1) p of [] \<Rightarrow> [GBad] | d # t \<Rightarrow> GLit d # parse_glob t) =
      (if pi + 1 < length p then GLit (p ! (pi + 1)) # parse_glob (drop (pi + 2) p) else [GBad])"
    by (cases "pi + 1 < length p") (simp_all add: drop_nth_Cons)
  show ?thesis unfolding d by (subst parse_glob.simps) (simp only: list.case e)
qed

lemma parse_glob_Nil [simp]: "parse_glob [] = []"
  by (subst parse_glob.simps) simp

text \<open>
  The result of one evaluation of the matcher and the table it leaves are right; the body of
  the matcher, before it stores its result, is named so that the proof can speak of it.
\<close>

definition inner_ok :: "string \<Rightarrow> string \<Rightarrow> nat \<Rightarrow> nat \<Rightarrow> bool \<times> glob_memo \<Rightarrow> bool" where
  "inner_ok p v pi vi res =
     (fst res = glob_matches (parse_glob (drop pi p)) (drop vi v) \<and> memo_ok p v (snd res))"

lemma glob_match_inner_spec:
  assumes "memo_ok p v memo" and "pi \<le> length p" and "vi \<le> length v"
  shows "inner_ok p v pi vi (glob_match_inner p v pi vi memo)"
  using assms
proof (induction p v pi vi memo rule: glob_match_inner.induct)
  case (1 p v pi vi memo)
  show ?case
  proof (cases "store_get memo (pi, vi)")
    case (Some r)
    with "1.prems" show ?thesis
      by (subst glob_match_inner.simps) (simp add: inner_ok_def memo_ok_def)
  next
    case None
    note IH = "1.IH" [OF None]
    define body where "body =
      (if pi \<ge> length p then (vi = length v, memo)
       else if p ! pi = CHR ''*'' then
         (let (r1, m1) = glob_match_inner p v (pi + 1) vi memo
          in if r1 then (True, m1)
             else if vi < length v then glob_match_inner p v pi (vi + 1) m1 else (False, m1))
       else if p ! pi = CHR ''?'' then
         (if vi < length v then glob_match_inner p v (pi + 1) (vi + 1) memo else (False, memo))
       else if p ! pi = CHR ''['' then
         (if vi \<ge> length v then (False, memo)
          else (case glob_class_match p (pi + 1) (v ! vi) of
                  Some (matched, next_pi) \<Rightarrow>
                    (if matched then glob_match_inner p v next_pi (vi + 1) memo else (False, memo))
                | None \<Rightarrow> (False, memo)))
       else if p ! pi = CHR 0x5C then
         (if pi + 1 \<ge> length p then (False, memo)
          else if vi < length v \<and> v ! vi = p ! (pi + 1)
            then glob_match_inner p v (pi + 2) (vi + 1) memo else (False, memo))
       else if vi < length v \<and> v ! vi = p ! pi
         then glob_match_inner p v (pi + 1) (vi + 1) memo else (False, memo))"
    have whole: "glob_match_inner p v pi vi memo = (fst body, store_put (pi, vi) (fst body) (snd body))"
      by (subst glob_match_inner.simps) (simp add: None body_def case_prod_beta Let_def)
    have v: "drop vi v \<noteq> [] \<longleftrightarrow> vi < length v" "vi < length v \<Longrightarrow> hd (drop vi v) = v ! vi"
      "tl (drop vi v) = drop (vi + 1) v" by (fact drop_index)+
    consider (fin) "pi = length p" | (star) "pi < length p" "p ! pi = CHR ''*''"
      | (any) "pi < length p" "p ! pi = CHR ''?''" | (cls) "pi < length p" "p ! pi = CHR ''[''"
      | (esc) "pi < length p" "p ! pi = CHR 0x5C"
      | (lit) "pi < length p" "p ! pi \<noteq> CHR ''*''" "p ! pi \<noteq> CHR ''?''" "p ! pi \<noteq> CHR ''[''" "p ! pi \<noteq> CHR 0x5C"
      using "1.prems"(2) by linarith
    then have "inner_ok p v pi vi body"
    proof cases
      case fin
      then show ?thesis using "1.prems" by (auto simp: body_def inner_ok_def)
    next
      case star
      define i1 where "i1 = glob_match_inner p v (pi + 1) vi memo"
      have ok1: "inner_ok p v (pi + 1) vi i1" unfolding i1_def
        by (rule IH(1)) (use star "1.prems" in auto)
      have ok2: "inner_ok p v pi (vi + 1) (glob_match_inner p v pi (vi + 1) (snd i1))"
        if "\<not> fst i1" "vi < length v"
        using IH(2) [of i1 "fst i1" "snd i1"] ok1 that star "1.prems" by (simp add: i1_def inner_ok_def)
      have g: "parse_glob (drop pi p) = GStar # parse_glob (drop (pi + 1) p)"
        using star by (simp add: parse_glob_drop)
      have b: "body = (if fst i1 then (True, snd i1)
          else if vi < length v then glob_match_inner p v pi (vi + 1) (snd i1) else (False, snd i1))"
        using star by (simp add: body_def i1_def case_prod_beta)
      show ?thesis
        using ok1 ok2 unfolding b inner_ok_def g glob_star_step [of _ "drop vi v"] v
        by auto
    next
      case any
      then show ?thesis using IH(3) "1.prems"
        by (auto simp: body_def inner_ok_def parse_glob_drop v)
    next
      case cls
      show ?thesis
      proof (cases "vi < length v")
        case False
        with cls "1.prems" show ?thesis
          by (auto simp: body_def inner_ok_def parse_glob_drop v split: option.splits)
      next
        case True
        show ?thesis
        proof (cases "parse_class (drop (pi + 1) p)")
          case None
          with cls True "1.prems" show ?thesis
            by (auto simp: body_def inner_ok_def parse_glob_drop glob_class_match_spec)
        next
          case (Some nrst)
          obtain n rs t where nrst: "nrst = ((n, rs), t)" by (metis prod.exhaust)
          have t: "t = drop (length p - length t) p" using Some nrst parse_class_drop by simp
          have m: "glob_class_match p (pi + 1) (v ! vi) =
              Some (in_ranges (v ! vi) rs \<noteq> n, length p - length t)"
            using Some nrst by (simp add: glob_class_match_spec)
          have "inner_ok p v (length p - length t) (vi + 1)
              (glob_match_inner p v (length p - length t) (vi + 1) memo)" if "in_ranges (v ! vi) rs \<noteq> n"
            by (rule IH(4) [OF _ _ _ _ _ m refl]) (use cls True that "1.prems" in auto)
          then show ?thesis
            using cls True "1.prems" m Some nrst t
            by (auto simp: body_def inner_ok_def parse_glob_drop v)
        qed
      qed
    next
      case esc
      then show ?thesis using IH(5) "1.prems"
        by (auto simp: body_def inner_ok_def parse_glob_drop v)
    next
      case lit
      then show ?thesis using IH(6) "1.prems"
        by (auto simp: body_def inner_ok_def parse_glob_drop v)
    qed
    then show ?thesis unfolding whole by (simp add: inner_ok_def memo_ok_put)
  qed
qed

subsection \<open>Properties\<close>

text \<open>C8. The memoised, index-based glob matcher agrees with the meaning of the pattern on every
  pattern and name: stars, question marks, escapes, character classes with ranges and
  negation, and malformed classes, which match nothing.\<close>

theorem glob_match_correct: "glob_match pattern name = glob_matches (parse_glob pattern) name"
  using glob_match_inner_spec [of pattern name "[]" 0 0]
  by (simp add: glob_match_def inner_ok_def memo_ok_def)

lemma glob_match_literal:
  assumes "set p \<inter> {CHR ''*'', CHR ''?'', CHR ''['', CHR 0x5C} = {}"
  shows "glob_match p v \<longleftrightarrow> v = p"
proof -
  have "parse_glob p = map GLit p"
    using assms by (induction p) (simp, subst parse_glob.simps, auto)
  moreover have "glob_matches (map GLit p) v \<longleftrightarrow> v = p"
  proof (induction p arbitrary: v)
    case (Cons c p)
    then show ?case by (cases v) auto
  qed simp
  ultimately show ?thesis by (simp add: glob_match_correct)
qed

text \<open>A hide pattern without a slash hides whole subtrees: if it hides a path then it hides
  everything below that path.  A pattern with a slash that is a prefix of the path at a
  component boundary does the same.\<close>

theorem hidden_descends:
  assumes "file_hidden path [pattern]"
    and "CHR ''/'' \<in> set (str_trim pattern) \<longrightarrow>
      (\<exists>rest. path = str_trim pattern @ rest \<and> (rest = [] \<or> starts_with rest ''/''))"
  shows "file_hidden (path @ ''/'' @ below) [pattern]"
proof (cases "CHR ''/'' \<in> set (str_trim pattern)")
  case True
  then obtain rest where path: "path = str_trim pattern @ rest" and "rest = [] \<or> starts_with rest ''/''"
    using assms(2) by blast
  then have "path_hidden (str_trim pattern) (path @ ''/'' @ below)"
    by (auto simp: path_hidden_def starts_with_iff split: option.splits)
      (auto simp: strip_prefix_def starts_with_iff)
  with assms(1) True show ?thesis by (auto simp: file_hidden_def hides_def Let_def)
next
  case False
  have "set (split_on (CHR ''/'') path) \<subseteq> set (split_on (CHR ''/'') (path @ ''/'' @ below))"
    by (simp add: split_on_sep)
  with assms(1) False show ?thesis by (auto simp: file_hidden_def hides_def Let_def)
qed

theorem hidden_descends_witness: "file_hidden (''a/.git'' @ ''/'' @ ''config'') ['' .g*'']"
proof -
  have "file_hidden ''a/.git'' ['' .g*'']" by code_simp
  moreover have "CHR ''/'' \<notin> set (str_trim '' .g*'')" by code_simp
  ultimately show ?thesis using hidden_descends [of "''a/.git''" "'' .g*''"] by blast
qed

text \<open>A joined file path stays below its root: it has no dot components, and it is the root
  itself or continues the root after one slash.\<close>

theorem join_file_path_below_root:
  assumes "join_file_path root rel = Some joined" and "root \<noteq> []"
  shows "(\<forall>c \<in> set (split_on (CHR ''/'') joined). c \<noteq> ''.'' \<and> c \<noteq> ''..'') \<and>
    (joined = root \<or> starts_with joined (trim_end_char (CHR ''/'') root @ ''/''))"
  using assms
  by (auto simp: join_file_path_def Let_def starts_with_iff split: bool.splits if_splits)

theorem join_file_path_below_root_witness:
  "join_file_path ''/srv/www/'' ''//img/a.png'' = Some ''/srv/www/img/a.png'' \<and>
   starts_with ''/srv/www/img/a.png'' (trim_end_char (CHR ''/'') ''/srv/www/'' @ ''/'')"
proof -
  have j: "join_file_path ''/srv/www/'' ''//img/a.png'' = Some ''/srv/www/img/a.png''" by code_simp
  show ?thesis using j join_file_path_below_root [OF j] by auto
qed

end
