(* ===== verification/Wire.thy ===== *)
theory Wire
  imports Rust_Text
begin

text \<open>
  Big-endian integers and length-checked byte readers, shared by the TLS record parsers
  (\<open>src/src/ech/config.rs\<close> and \<open>src/src/ja4.rs\<close>, which has its own reader).  The locale
  \<open>byte_reader\<close> is the contract both readers keep; each theory interprets it on its reader.
\<close>

subsection \<open>Fallible steps\<close>

text \<open>The \<open>?\<close> operator on \<open>Result\<close>: continue with the value or return the error.\<close>

definition and_then :: "'e + 'a \<Rightarrow> ('a \<Rightarrow> 'e + 'b) \<Rightarrow> 'e + 'b" where
  "and_then x f = (case x of Inl e \<Rightarrow> Inl e | Inr a \<Rightarrow> f a)"

lemma and_then_simps [simp]:
  "and_then (Inl e) f = Inl e" "and_then (Inr a) f = f a"
  by (simp_all add: and_then_def)

lemma and_then_Inr: "and_then x f = Inr b \<longleftrightarrow> (\<exists>a. x = Inr a \<and> f a = Inr b)"
  by (cases x) auto

subsection \<open>Big-endian integers\<close>

definition be16 :: "u16 \<Rightarrow> bytes" where
  "be16 w = [ucast (drop_bit 8 w), ucast w]"

definition of_be16 :: "u8 \<Rightarrow> u8 \<Rightarrow> u16" where
  "of_be16 hi lo = push_bit 8 (ucast hi) OR ucast lo"

lemma length_be16 [simp]: "length (be16 w) = 2"
  by (simp add: be16_def)

lemma be16_bytes [simp]: "of_be16 (be16 w ! 0) (be16 w ! Suc 0) = w"
  by (rule bit_word_eqI)
    (auto simp: be16_def of_be16_def bit_or_iff bit_push_bit_iff bit_ucast_iff bit_drop_bit_eq)

lemma of_be16_be16: "of_be16 (ucast (drop_bit 8 w)) (ucast w) = w"
  using be16_bytes [of w] by (simp add: be16_def)

lemma be16_of_be16: "be16 (of_be16 hi lo) = [hi, lo]"
proof -
  have "ucast (drop_bit 8 (of_be16 hi lo)) = hi"
    by (rule bit_word_eqI)
      (auto simp: of_be16_def bit_or_iff bit_push_bit_iff bit_ucast_iff bit_drop_bit_eq
        dest: bit_imp_le_length)
  moreover have "ucast (of_be16 hi lo) = lo"
    by (rule bit_word_eqI)
      (auto simp: of_be16_def bit_or_iff bit_push_bit_iff bit_ucast_iff dest: bit_imp_le_length)
  ultimately show ?thesis by (simp add: be16_def)
qed

text \<open>\<open>u16::try_from\<close> and \<open>u8::try_from\<close> of a length; None is the overflow.\<close>

definition u16_of_len :: "nat \<Rightarrow> u16 option" where
  "u16_of_len n = (if n < 65536 then Some (of_nat n) else None)"

definition u8_of_len :: "nat \<Rightarrow> u8 option" where
  "u8_of_len n = (if n < 256 then Some (of_nat n) else None)"

lemma u16_of_len_unat: "u16_of_len n = Some w \<Longrightarrow> unat w = n"
  by (auto simp: u16_of_len_def unat_of_nat split: if_splits)

lemma u8_of_len_unat: "u8_of_len n = Some w \<Longrightarrow> unat w = n"
  by (auto simp: u8_of_len_def unat_of_nat split: if_splits)

subsection \<open>The contract of a byte reader\<close>

locale byte_reader =
  fixes unread :: "'r \<Rightarrow> bytes"
    and take_bytes :: "nat \<Rightarrow> 'r \<Rightarrow> (bytes \<times> 'r) option"
    and wf :: "'r \<Rightarrow> bool"
  assumes short: "wf r \<Longrightarrow> length (unread r) < n \<Longrightarrow> take_bytes n r = None"
    and enough: "wf r \<Longrightarrow> n \<le> length (unread r) \<Longrightarrow>
      \<exists>r'. take_bytes n r = Some (take n (unread r), r') \<and> unread r' = drop n (unread r) \<and> wf r'"
begin

lemma take_bytes_SomeD:
  assumes "wf r" and "take_bytes n r = Some (bs, r')"
  shows "unread r = bs @ unread r'" and "length bs = n" and "wf r'"
proof -
  have n: "n \<le> length (unread r)"
    using assms short [of r n] by (cases "length (unread r) < n") auto
  from enough [OF assms(1) n] assms(2)
  show "unread r = bs @ unread r'" "length bs = n" "wf r'" using n by auto
qed

lemma take_bytes_None_iff: "wf r \<Longrightarrow> take_bytes n r = None \<longleftrightarrow> length (unread r) < n"
  using short [of r n] enough [of r n] by (cases "length (unread r) < n") auto

lemma take_bytes_append:
  assumes "wf r" and "unread r = xs @ ys" and "length xs = n"
  obtains r' where "take_bytes n r = Some (xs, r')" and "unread r' = ys" and "wf r'"
  using enough [OF assms(1), of n] assms(2,3) by auto

lemma take_bytes_shrinks:
  "wf r \<Longrightarrow> take_bytes n r = Some (bs, r') \<Longrightarrow> length (unread r') = length (unread r) - n"
  using take_bytes_SomeD [of r n bs r'] by auto

end

end
