(* ===== verification/Ech.thy ===== *)
theory Ech
  imports Wire
begin

text \<open>
  The wire format of Encrypted Client Hello configurations, \<open>src/src/ech/config.rs\<close>: the
  encoder, which panics (None) when a length does not fit its field, and the decoder over a
  bounds-checked reader.
\<close>

record cipher_suite =
  kdf_id :: u16
  aead_id :: u16

record ech_config =
  config_id :: u8
  kem_id :: u16
  public_key :: bytes
  cipher_suites :: "cipher_suite list"
  maximum_name_length :: u8
  public_name :: bytes

datatype ech_error =
  ShortRead | TrailingBytes | UnsupportedVersion u16 | InvalidSuitesLength | PublicNameNotUtf8

definition ECH_CONFIG_VERSION_V18 :: u16 where
  "ECH_CONFIG_VERSION_V18 = 0xfe0d"

subsection \<open>The reader\<close>

record reader =
  buf :: bytes
  pos :: nat

definition reader_new :: "bytes \<Rightarrow> reader" where
  "reader_new bs = \<lparr>buf = bs, pos = 0\<rparr>"

definition remaining :: "reader \<Rightarrow> nat" where
  "remaining r = length (buf r) - pos r"

definition reader_is_empty :: "reader \<Rightarrow> bool" where
  "reader_is_empty r = (remaining r = 0)"

definition read_u8 :: "reader \<Rightarrow> ech_error + (u8 \<times> reader)" where
  "read_u8 r = (if remaining r < 1 then Inl ShortRead else Inr (buf r ! pos r, r\<lparr>pos := pos r + 1\<rparr>))"

definition read_u16 :: "reader \<Rightarrow> ech_error + (u16 \<times> reader)" where
  "read_u16 r =
     (if remaining r < 2 then Inl ShortRead
      else Inr (of_be16 (buf r ! pos r) (buf r ! (pos r + 1)), r\<lparr>pos := pos r + 2\<rparr>))"

definition read_u24 :: "reader \<Rightarrow> ech_error + (u32 \<times> reader)" where
  "read_u24 r =
     (if remaining r < 3 then Inl ShortRead
      else Inr (push_bit 16 (ucast (buf r ! pos r)) OR push_bit 8 (ucast (buf r ! (pos r + 1)))
                 OR ucast (buf r ! (pos r + 2)), r\<lparr>pos := pos r + 3\<rparr>))"

definition read_slice :: "nat \<Rightarrow> reader \<Rightarrow> ech_error + (bytes \<times> reader)" where
  "read_slice n r =
     (if remaining r < n then Inl ShortRead
      else Inr (take n (drop (pos r) (buf r)), r\<lparr>pos := pos r + n\<rparr>))"

subsection \<open>Encoding\<close>

definition encode_suite :: "cipher_suite \<Rightarrow> bytes" where
  "encode_suite cs = be16 (kdf_id cs) @ be16 (aead_id cs)"

definition encode :: "ech_config \<Rightarrow> bytes option" where
  "encode c =
     do { pk_len \<leftarrow> u16_of_len (length (public_key c));
          cs_bytes_len \<leftarrow> u16_of_len (length (cipher_suites c) * 4);
          pn_len \<leftarrow> u8_of_len (length (public_name c));
          let contents =
            [config_id c] @ be16 (kem_id c) @ be16 pk_len @ public_key c
              @ be16 cs_bytes_len @ concat (map encode_suite (cipher_suites c))
              @ [maximum_name_length c] @ [pn_len] @ public_name c @ [0, 0];
          contents_len \<leftarrow> u16_of_len (length contents);
          Some (be16 ECH_CONFIG_VERSION_V18 @ be16 contents_len @ contents) }"

fun encode_all :: "ech_config list \<Rightarrow> bytes option" where
  "encode_all [] = Some []"
| "encode_all (c # cs) = do { x \<leftarrow> encode c; y \<leftarrow> encode_all cs; Some (x @ y) }"

definition encode_list :: "ech_config list \<Rightarrow> bytes option" where
  "encode_list cs = do { body \<leftarrow> encode_all cs; n \<leftarrow> u16_of_len (length body); Some (be16 n @ body) }"

subsection \<open>Decoding\<close>

text \<open>The loop over the suites; each round reads four bytes, so the reader shrinks.\<close>

function decode_suites :: "reader \<Rightarrow> ech_error + cipher_suite list" where
  "decode_suites r =
     (if reader_is_empty r then Inr []
      else
        (case read_u16 r of
           Inl e \<Rightarrow> Inl e
         | Inr (kdf, r1) \<Rightarrow>
             (case read_u16 r1 of
                Inl e \<Rightarrow> Inl e
              | Inr (aead, r2) \<Rightarrow>
                  and_then (decode_suites r2) (\<lambda>css. Inr (\<lparr>kdf_id = kdf, aead_id = aead\<rparr> # css)))))"
  by pat_completeness auto
termination
  by (relation "measure remaining") (auto simp: read_u16_def remaining_def split: if_splits)

declare decode_suites.simps [simp del]

definition decode_contents :: "bytes \<Rightarrow> ech_error + ech_config" where
  "decode_contents contents =
     and_then (read_u8 (reader_new contents)) (\<lambda>(cid, cr).
     and_then (read_u16 cr) (\<lambda>(kem, cr).
     and_then (read_u16 cr) (\<lambda>(pk_len, cr).
     and_then (read_slice (unat pk_len) cr) (\<lambda>(pk, cr).
     and_then (read_u16 cr) (\<lambda>(cs_len, cr).
     if unat cs_len mod 4 \<noteq> 0 \<or> cs_len = 0 then Inl InvalidSuitesLength
     else
       and_then (read_slice (unat cs_len) cr) (\<lambda>(cs_bytes, cr).
       and_then (decode_suites (reader_new cs_bytes)) (\<lambda>suites.
       and_then (read_u8 cr) (\<lambda>(maxlen, cr).
       and_then (read_u8 cr) (\<lambda>(pn_len, cr).
       and_then (read_slice (unat pn_len) cr) (\<lambda>(pn, cr).
       if \<not> utf8_valid (map unat pn) then Inl PublicNameNotUtf8
       else
         and_then (read_u16 cr) (\<lambda>(ext_len, cr).
         and_then (read_slice (unat ext_len) cr) (\<lambda>(_, cr).
         Inr \<lparr>config_id = cid, kem_id = kem, public_key = pk, cipher_suites = suites,
              maximum_name_length = maxlen, public_name = pn\<rparr>))))))))))))"

definition decode_from :: "reader \<Rightarrow> ech_error + (ech_config \<times> reader)" where
  "decode_from r =
     and_then (read_u16 r) (\<lambda>(version, r).
     and_then (read_u16 r) (\<lambda>(contents_len, r).
     and_then (read_slice (unat contents_len) r) (\<lambda>(contents, r).
     if version \<noteq> ECH_CONFIG_VERSION_V18 then Inl (UnsupportedVersion version)
     else and_then (decode_contents contents) (\<lambda>c. Inr (c, r)))))"

definition decode :: "bytes \<Rightarrow> ech_error + ech_config" where
  "decode bs =
     and_then (decode_from (reader_new bs)) (\<lambda>(cfg, r).
       if \<not> reader_is_empty r then Inl TrailingBytes else Inr cfg)"

subsection \<open>The reader keeps the contract\<close>

definition reader_unread :: "reader \<Rightarrow> bytes" where
  "reader_unread r = drop (pos r) (buf r)"

definition reader_ok :: "reader \<Rightarrow> bool" where
  "reader_ok r = (pos r \<le> length (buf r))"

lemma reader_new_ok [simp]: "reader_ok (reader_new bs)" "reader_unread (reader_new bs) = bs"
  by (simp_all add: reader_ok_def reader_new_def reader_unread_def)

lemma remaining_unread: "remaining r = length (reader_unread r)"
  by (simp add: remaining_def reader_unread_def)

lemma reader_is_empty_unread: "reader_is_empty r \<longleftrightarrow> reader_unread r = []"
  by (simp add: reader_is_empty_def remaining_unread)

interpretation er: byte_reader reader_unread
  "\<lambda>n r. case read_slice n r of Inl _ \<Rightarrow> None | Inr x \<Rightarrow> Some x" reader_ok
proof (unfold_locales, goal_cases)
  case (1 r n)
  then show ?case by (simp add: read_slice_def remaining_unread)
next
  case (2 r n)
  then show ?case
    by (auto simp: read_slice_def remaining_def reader_unread_def reader_ok_def add.commute)
qed

lemma read_slice_append:
  assumes "reader_ok r" and "reader_unread r = xs @ ys" and "length xs = n"
  obtains r' where "read_slice n r = Inr (xs, r')" and "reader_unread r' = ys" and "reader_ok r'"
proof -
  obtain r' where "(case read_slice n r of Inl _ \<Rightarrow> None | Inr x \<Rightarrow> Some x) = Some (xs, r')"
    and "reader_unread r' = ys" and "reader_ok r'"
    by (rule er.take_bytes_append [OF assms])
  then show ?thesis using that by (auto split: sum.splits)
qed

lemma unread_nth: "reader_ok r \<Longrightarrow> reader_unread r = xs \<Longrightarrow> i < length xs \<Longrightarrow> buf r ! (pos r + i) = xs ! i"
  by (auto simp: reader_unread_def reader_ok_def)

lemma unread_advance: "reader_unread (r\<lparr>pos := pos r + n\<rparr>) = drop n (reader_unread r)"
  by (simp add: reader_unread_def add.commute)

lemma reader_ok_advance: "reader_ok r \<Longrightarrow> n \<le> length (reader_unread r) \<Longrightarrow> reader_ok (r\<lparr>pos := pos r + n\<rparr>)"
  by (simp add: reader_unread_def reader_ok_def)

lemma read_u8_append:
  assumes "reader_ok r" and "reader_unread r = b # ys"
  obtains r' where "read_u8 r = Inr (b, r')" and "reader_unread r' = ys" and "reader_ok r'"
proof -
  have "buf r ! pos r = b" using unread_nth [OF assms, of 0] by simp
  then have "read_u8 r = Inr (b, r\<lparr>pos := pos r + 1\<rparr>)"
    using assms(2) by (simp add: read_u8_def remaining_unread)
  moreover have "reader_unread (r\<lparr>pos := pos r + 1\<rparr>) = ys" "reader_ok (r\<lparr>pos := pos r + 1\<rparr>)"
    using assms(2) reader_ok_advance [OF assms(1), of 1] by (simp_all only: unread_advance) simp_all
  ultimately show ?thesis by (rule that)
qed

lemma read_u16_append:
  assumes "reader_ok r" and "reader_unread r = be16 w @ ys"
  obtains r' where "read_u16 r = Inr (w, r')" and "reader_unread r' = ys" and "reader_ok r'"
proof -
  have "buf r ! (pos r + 0) = be16 w ! 0" and "buf r ! (pos r + 1) = be16 w ! Suc 0"
    using unread_nth [OF assms, of 0] unread_nth [OF assms, of 1] by (simp_all add: nth_append)
  then have "read_u16 r = Inr (w, r\<lparr>pos := pos r + 2\<rparr>)"
    using assms(2) be16_bytes [of w] by (simp add: read_u16_def remaining_unread)
  moreover have "reader_unread (r\<lparr>pos := pos r + 2\<rparr>) = ys" "reader_ok (r\<lparr>pos := pos r + 2\<rparr>)"
    using assms(2) reader_ok_advance [OF assms(1), of 2] by (simp_all only: unread_advance) simp_all
  ultimately show ?thesis by (rule that)
qed

text \<open>Rules that step through a chain of reads over a known input.\<close>

lemma step_u8:
  assumes "reader_ok r" and "reader_unread r = b # ys"
    and "\<And>r'. reader_ok r' \<Longrightarrow> reader_unread r' = ys \<Longrightarrow> f (b, r') = res"
  shows "and_then (read_u8 r) f = res"
  by (rule read_u8_append [OF assms(1,2)]) (simp add: assms(3))

lemma step_u16:
  assumes "reader_ok r" and "reader_unread r = be16 w @ ys"
    and "\<And>r'. reader_ok r' \<Longrightarrow> reader_unread r' = ys \<Longrightarrow> f (w, r') = res"
  shows "and_then (read_u16 r) f = res"
  by (rule read_u16_append [OF assms(1,2)]) (simp add: assms(3))

lemma step_slice:
  assumes "reader_ok r" and "reader_unread r = xs @ ys" and "n = length xs"
    and "\<And>r'. reader_ok r' \<Longrightarrow> reader_unread r' = ys \<Longrightarrow> f (xs, r') = res"
  shows "and_then (read_slice n r) f = res"
  by (rule read_slice_append [OF assms(1,2) assms(3) [symmetric]]) (simp add: assms(4))

lemma decode_suites_encoded:
  "reader_ok r \<Longrightarrow> reader_unread r = concat (map encode_suite css) \<Longrightarrow> decode_suites r = Inr css"
proof (induction css arbitrary: r)
  case Nil
  then show ?case by (subst decode_suites.simps) (simp add: reader_is_empty_unread)
next
  case (Cons cs css)
  have u: "reader_unread r = be16 (kdf_id cs) @ be16 (aead_id cs) @ concat (map encode_suite css)"
    using Cons.prems by (simp add: encode_suite_def [of cs])
  have "decode_suites r = and_then (read_u16 r) (\<lambda>(kdf, r1). and_then (read_u16 r1) (\<lambda>(aead, r2).
      and_then (decode_suites r2) (\<lambda>css. Inr (\<lparr>kdf_id = kdf, aead_id = aead\<rparr> # css))))"
    using u by (subst decode_suites.simps)
      (auto simp: reader_is_empty_unread be16_def and_then_def split: sum.splits)
  also have "\<dots> = Inr (cs # css)"
    by (rule step_u16 [OF Cons.prems(1) u], simp, rule step_u16, assumption, assumption) (simp add: Cons.IH)
  finally show ?case .
qed

lemma length_encode_suites [simp]: "length (concat (map encode_suite css)) = length css * 4"
  by (induction css) (simp_all add: encode_suite_def)

lemma decode_contents_encoded:
  assumes pk: "u16_of_len (length (public_key c)) = Some pk_len"
    and cs: "u16_of_len (length (cipher_suites c) * 4) = Some cs_len" "cipher_suites c \<noteq> []"
    and pn: "u8_of_len (length (public_name c)) = Some pn_len" "utf8_valid (map unat (public_name c))"
  shows "decode_contents ([config_id c] @ be16 (kem_id c) @ be16 pk_len @ public_key c
      @ be16 cs_len @ concat (map encode_suite (cipher_suites c))
      @ [maximum_name_length c] @ [pn_len] @ public_name c @ [0, 0]) = Inr c" (is "decode_contents ?bs = _")
proof -
  have len: "unat pk_len = length (public_key c)" "unat cs_len = length (cipher_suites c) * 4"
    "unat pn_len = length (public_name c)"
    using pk cs pn by (simp_all add: u16_of_len_unat u8_of_len_unat)
  have cs0: "unat cs_len mod 4 = 0" "cs_len \<noteq> 0"
    using len(2) cs(2) by (auto simp: unat_eq_0 [symmetric])
  have zero: "[0, 0] = be16 0 @ []" by (simp add: be16_def)
  show ?thesis
    unfolding decode_contents_def
    apply (rule step_u8 [where b = "config_id c"], simp, simp, clarsimp)
    apply (rule step_u16, assumption, assumption, clarsimp)
    apply (rule step_u16, assumption, assumption, clarsimp)
    apply (rule step_slice, assumption, assumption, simp add: len, clarsimp)
    apply (rule step_u16, assumption, assumption, simp add: cs0)
    apply (rule step_slice, assumption, assumption, simp add: len, clarsimp)
    apply (subst decode_suites_encoded [of _ "cipher_suites c"], simp, simp, simp only: and_then_simps)
    apply (rule step_u8, assumption, assumption, clarsimp)
    apply (rule step_u8, assumption, assumption, clarsimp)
    apply (rule step_slice, assumption, assumption, simp add: len, simp add: pn)
    apply (rule step_u16, assumption, simp only: zero, clarsimp)
    apply (rule step_slice [where xs = "[]"], assumption, simp, simp, simp)
    done
qed

lemma encode_SomeD:
  assumes "encode c = Some bs"
  obtains contents n where "bs = be16 ECH_CONFIG_VERSION_V18 @ be16 n @ contents"
    and "unat n = length contents"
    and "cipher_suites c \<noteq> [] \<Longrightarrow> utf8_valid (map unat (public_name c)) \<Longrightarrow> decode_contents contents = Inr c"
proof -
  obtain pk cs pn n where len: "u16_of_len (length (public_key c)) = Some pk"
    "u16_of_len (length (cipher_suites c) * 4) = Some cs" "u8_of_len (length (public_name c)) = Some pn"
    and n: "u16_of_len (length ([config_id c] @ be16 (kem_id c) @ be16 pk @ public_key c
      @ be16 cs @ concat (map encode_suite (cipher_suites c))
      @ [maximum_name_length c] @ [pn] @ public_name c @ [0, 0])) = Some n"
    and bs: "bs = be16 ECH_CONFIG_VERSION_V18 @ be16 n @ ([config_id c] @ be16 (kem_id c) @ be16 pk
      @ public_key c @ be16 cs @ concat (map encode_suite (cipher_suites c))
      @ [maximum_name_length c] @ [pn] @ public_name c @ [0, 0])"
    using assms by (auto simp: encode_def Let_def split: Option.bind_splits)
  show ?thesis
    by (rule that [OF bs u16_of_len_unat [OF n]]) (rule decode_contents_encoded [OF len(1,2) _ len(3)])
qed

subsection \<open>Properties\<close>

lemma decode_from_encoded:
  assumes enc: "encode c = Some bs" and c: "cipher_suites c \<noteq> []" "utf8_valid (map unat (public_name c))"
    and r: "reader_ok r" "reader_unread r = bs @ rest"
  shows "\<exists>r'. decode_from r = Inr (c, r') \<and> reader_unread r' = rest \<and> reader_ok r'"
proof -
  obtain contents n where bs: "bs = be16 ECH_CONFIG_VERSION_V18 @ be16 n @ contents"
    and n: "unat n = length contents" and dec: "decode_contents contents = Inr c"
    using encode_SomeD [OF enc] c by metis
  have u: "reader_unread r = be16 ECH_CONFIG_VERSION_V18 @ be16 n @ contents @ rest" using r(2) bs by simp
  obtain r1 where r1: "read_u16 r = Inr (ECH_CONFIG_VERSION_V18, r1)" and u1: "reader_unread r1 = be16 n @ contents @ rest"
    and ok1: "reader_ok r1"
    by (rule read_u16_append [OF r(1) u])
  obtain r2 where r2: "read_u16 r1 = Inr (n, r2)" and u2: "reader_unread r2 = contents @ rest" and ok2: "reader_ok r2"
    by (rule read_u16_append [OF ok1 u1])
  obtain r3 where "read_slice (unat n) r2 = Inr (contents, r3)" "reader_unread r3 = rest" "reader_ok r3"
    by (rule read_slice_append [OF ok2 u2 n [symmetric]])
  with r1 r2 dec show ?thesis by (simp add: decode_from_def)
qed

lemma decode_encoded:
  assumes "encode c = Some bs" and "cipher_suites c \<noteq> []" and "utf8_valid (map unat (public_name c))"
  shows "decode bs = Inr c"
  using decode_from_encoded [OF assms, of "reader_new bs" "[]"]
  by (auto simp: decode_def reader_is_empty_unread)

text \<open>A configuration for the witnesses.\<close>

definition sample_ech :: ech_config where
  "sample_ech = \<lparr>config_id = 7, kem_id = 0x20, public_key = [1, 2, 3],
     cipher_suites = [\<lparr>kdf_id = 1, aead_id = 1\<rparr>, \<lparr>kdf_id = 1, aead_id = 3\<rparr>],
     maximum_name_length = 64, public_name = [97, 46, 98]\<rparr>"

definition sample_bytes :: bytes where
  "sample_bytes = [0xfe, 0x0d, 0, 25, 7, 0, 0x20, 0, 3, 1, 2, 3, 0, 8, 0, 1, 0, 1, 0, 1, 0, 3, 64, 3, 97, 46, 98, 0, 0]"

lemma sample_encodes:
  "encode sample_ech = Some sample_bytes" "length sample_bytes = 29"
  "cipher_suites sample_ech \<noteq> []" "utf8_valid (map unat (public_name sample_ech))"
  by (simp_all add: encode_def encode_suite_def sample_ech_def sample_bytes_def be16_def u16_of_len_def u8_of_len_def
       ECH_CONFIG_VERSION_V18_def)

text \<open>C17. A configuration that the encoder accepts decodes to itself, provided it offers a cipher
  suite and its public name is a string.\<close>

theorem ech_roundtrip:
  assumes "encode c = Some bs" and "cipher_suites c \<noteq> []" and "utf8_valid (map unat (public_name c))"
  shows "decode bs = Inr c"
  by (rule decode_encoded [OF assms])

theorem ech_roundtrip_witness:
  "\<exists>bs. encode sample_ech = Some bs \<and> length bs = 29 \<and> decode bs = Inr sample_ech"
  using ech_roundtrip [OF sample_encodes(1) sample_encodes(3,4)] sample_encodes(1,2) by blast

text \<open>Configurations written one after another, as in an ECHConfigList, are read back one
  after another: decoding stops exactly where the next configuration begins.\<close>

theorem ech_sequence:
  assumes "encode c = Some bs" and "cipher_suites c \<noteq> []" and "utf8_valid (map unat (public_name c))"
    and "reader_ok r" and "reader_unread r = bs @ rest"
  shows "\<exists>r'. decode_from r = Inr (c, r') \<and> reader_unread r' = rest \<and> reader_ok r'"
  by (rule decode_from_encoded [OF assms])

theorem ech_sequence_witness:
  "\<exists>r'. decode_from (reader_new (sample_bytes @ sample_bytes)) = Inr (sample_ech, r') \<and>
     reader_unread r' = sample_bytes \<and> reader_ok r'"
  by (rule ech_sequence [OF sample_encodes(1) sample_encodes(3,4)]) simp_all

text \<open>A truncated configuration is refused: every strict prefix of an encoding fails with a
  short read.\<close>

theorem ech_truncated:
  assumes "encode c = Some bs" and "k < length bs"
  shows "decode (take k bs) = Inl ShortRead"
proof -
  obtain contents n where bs: "bs = be16 ECH_CONFIG_VERSION_V18 @ be16 n @ contents"
    and n: "unat n = length contents"
    using encode_SomeD [OF assms(1)] by metis
  define r where "r = reader_new (take k bs)"
  have r: "reader_ok r" "reader_unread r = take k bs" by (simp_all add: r_def)
  have short: "read_u16 r = Inl ShortRead" if "remaining r < 2" for r using that by (simp add: read_u16_def)
  have "decode_from r = Inl ShortRead"
  proof (cases "k < 2")
    case True
    then show ?thesis using r assms(2) by (simp add: decode_from_def short remaining_unread)
  next
    case False
    then have u: "reader_unread r = be16 ECH_CONFIG_VERSION_V18 @ take (k - 2) (be16 n @ contents)"
      using r bs by (simp add: take_append)
    obtain r1 where r1: "read_u16 r = Inr (ECH_CONFIG_VERSION_V18, r1)"
      and u1: "reader_unread r1 = take (k - 2) (be16 n @ contents)" and ok1: "reader_ok r1"
      by (rule read_u16_append [OF r(1) u])
    show ?thesis
    proof (cases "k < 4")
      case True
      then have "remaining r1 < 2" using u1 by (simp add: remaining_unread)
      then show ?thesis using r1 by (simp add: decode_from_def short)
    next
      case False
      then have u1': "reader_unread r1 = be16 n @ take (k - 4) contents"
        using u1 by (simp add: take_append)
      obtain r2 where r2: "read_u16 r1 = Inr (n, r2)" and u2: "reader_unread r2 = take (k - 4) contents"
        by (rule read_u16_append [OF ok1 u1'])
      have "remaining r2 < unat n" using u2 n assms(2) bs False by (simp add: remaining_unread)
      then have "read_slice (unat n) r2 = Inl ShortRead" by (simp add: read_slice_def)
      with r1 r2 show ?thesis by (simp add: decode_from_def)
    qed
  qed
  then show ?thesis by (simp add: decode_def r_def)
qed

theorem ech_truncated_witness:
  "encode sample_ech = Some sample_bytes \<and> decode (take 20 sample_bytes) = Inl ShortRead"
  using ech_truncated [OF sample_encodes(1), of 20] sample_encodes(1,2) by simp

end
