(* ===== verification/Ech_Pem.thy ===== *)
theory Ech_Pem
  imports Ech "HOL-Library.List_Lexorder" "HOL-Library.Char_ord" "HOL-Library.Multiset"
begin

text \<open>
  The key files of Encrypted Client Hello, \<open>src/src/ech/key.rs\<close>: the PEM writer and parser and
  the loading of a key set from a file or a directory.  The base64 codec is a library; it is
  the pair of parameters \<open>b64_enc\<close> and \<open>b64_dec\<close>.  The file system is a value, \<open>key_path\<close>.
\<close>

definition PEM_LABEL_KEY :: string where
  "PEM_LABEL_KEY = ''ECH PRIVATE KEY''"

definition PEM_LABEL_CONFIG :: string where
  "PEM_LABEL_CONFIG = ''ECH CONFIG''"

record ech_key_pair =
  private_key :: bytes
  config :: ech_config

record pem_block =
  label :: string
  body :: bytes

datatype key_error =
    PemNotUtf8 | ExpectedBegin string | MissingEnd string | InvalidBase64 string
  | ConfigBeforeKey | UnexpectedLabel string | MissingConfigBlock | ExpectedConfigBlock string
  | BadConfig ech_error
  | StatFailed | ReadFailed | EmptyDirectory | NoKeyPairs | DuplicateConfigId u8

subsection \<open>Writing\<close>

fun chunks :: "nat \<Rightarrow> 'a list \<Rightarrow> 'a list list" where
  "chunks n xs = (if xs = [] \<or> n = 0 then [] else take n xs # chunks n (drop n xs))"

declare chunks.simps [simp del]

definition newline :: char where
  "newline = CHR 0x0A"

definition write_pem_block :: "(bytes \<Rightarrow> string) \<Rightarrow> string \<Rightarrow> bytes \<Rightarrow> string" where
  "write_pem_block b64_enc lab bs =
     ''-----BEGIN '' @ lab @ ''-----'' @ [newline]
       @ concat (map (\<lambda>chunk. chunk @ [newline]) (chunks 64 (b64_enc bs)))
       @ ''-----END '' @ lab @ ''-----'' @ [newline]"

definition encode_pair_pem :: "(bytes \<Rightarrow> string) \<Rightarrow> bytes \<Rightarrow> ech_config \<Rightarrow> string option" where
  "encode_pair_pem b64_enc key cfg =
     map_option (\<lambda>bs. write_pem_block b64_enc PEM_LABEL_KEY key @ write_pem_block b64_enc PEM_LABEL_CONFIG bs)
       (encode cfg)"

subsection \<open>Parsing\<close>

text \<open>The inner loop collects the lines up to the end marker; None when there is none.\<close>

fun pem_body :: "string \<Rightarrow> string list \<Rightarrow> string \<Rightarrow> (string \<times> string list) option" where
  "pem_body end_marker [] b64 = None"
| "pem_body end_marker (inner # lines) b64 =
     (let t = str_trim inner
      in if t = end_marker then Some (b64, lines)
         else if t = [] then pem_body end_marker lines b64
         else pem_body end_marker lines (b64 @ t))"

lemma pem_body_shorter: "pem_body m ls b = Some (b', ls') \<Longrightarrow> length ls' < length ls"
  by (induction m ls b rule: pem_body.induct) (auto simp: Let_def split: if_splits)

definition begin_label :: "string \<Rightarrow> string option" where
  "begin_label trimmed = do { rest \<leftarrow> strip_prefix trimmed ''-----BEGIN ''; strip_suffix rest ''-----'' }"

function parse_pem_lines :: "(string \<Rightarrow> bytes option) \<Rightarrow> string list \<Rightarrow> key_error + pem_block list" where
  "parse_pem_lines b64_dec [] = Inr []"
| "parse_pem_lines b64_dec (line # lines) =
     (let trimmed = str_trim line
      in if trimmed = [] then parse_pem_lines b64_dec lines
         else
           (case begin_label trimmed of
              None \<Rightarrow> Inl (ExpectedBegin trimmed)
            | Some lab \<Rightarrow>
                (case pem_body (''-----END '' @ lab @ ''-----'') lines [] of
                   None \<Rightarrow> Inl (MissingEnd lab)
                 | Some (b64, lines') \<Rightarrow>
                     (case b64_dec b64 of
                        None \<Rightarrow> Inl (InvalidBase64 lab)
                      | Some bs \<Rightarrow>
                          and_then (parse_pem_lines b64_dec lines')
                            (\<lambda>out. Inr (\<lparr>label = lab, body = bs\<rparr> # out))))))"
  by pat_completeness auto
termination
  by (relation "measure (\<lambda>(_, ls). length ls)") (auto dest!: pem_body_shorter)

definition parse_pem_blocks :: "(string \<Rightarrow> bytes option) \<Rightarrow> string \<Rightarrow> key_error + pem_block list" where
  "parse_pem_blocks b64_dec file =
     (case from_utf8 file of None \<Rightarrow> Inl PemNotUtf8 | Some text \<Rightarrow> parse_pem_lines b64_dec (str_lines text))"

text \<open>The blocks alternate: a key, then its configuration.\<close>

definition decode_config :: "bytes \<Rightarrow> key_error + ech_config" where
  "decode_config bs = (case decode bs of Inl e \<Rightarrow> Inl (BadConfig e) | Inr c \<Rightarrow> Inr c)"

definition check_key_label :: "pem_block \<Rightarrow> key_error + unit" where
  "check_key_label b =
     (if label b = PEM_LABEL_KEY then Inr ()
      else if label b = PEM_LABEL_CONFIG then Inl ConfigBeforeKey
      else Inl (UnexpectedLabel (label b)))"

fun pair_blocks :: "pem_block list \<Rightarrow> key_error + ech_key_pair list" where
  "pair_blocks [] = Inr []"
| "pair_blocks [k] = and_then (check_key_label k) (\<lambda>_. Inl MissingConfigBlock)"
| "pair_blocks (k # c # bs) =
     and_then (check_key_label k) (\<lambda>_.
       if label c \<noteq> PEM_LABEL_CONFIG then Inl (ExpectedConfigBlock (label c))
       else
         and_then (decode_config (body c)) (\<lambda>cfg.
         and_then (pair_blocks bs) (\<lambda>out. Inr (\<lparr>private_key = body k, config = cfg\<rparr> # out))))"

definition parse_pem_bundle :: "(string \<Rightarrow> bytes option) \<Rightarrow> string \<Rightarrow> key_error + ech_key_pair list" where
  "parse_pem_bundle b64_dec file = and_then (parse_pem_blocks b64_dec file) pair_blocks"

subsection \<open>Loading\<close>

text \<open>
  The path given on the command line, as the file system answers for it: \<open>metadata\<close> fails,
  a file with the result of reading it, or a directory.  A directory entry that cannot be read
  is None; an entry has a name (None when it is not UTF-8), whether it is a file, and the
  result of reading it.
\<close>

record dir_entry =
  de_name :: "string option"
  de_is_file :: bool
  de_content :: "string option"

datatype key_path =
    NoMetadata
  | KeyFile "string option"
  | KeyDir "dir_entry option list option"

definition visible_entry :: "dir_entry \<Rightarrow> bool" where
  "visible_entry e = (case de_name e of None \<Rightarrow> False | Some n \<Rightarrow> \<not> starts_with n ''.'')"

fun read_entries :: "dir_entry list \<Rightarrow> key_error + string list" where
  "read_entries [] = Inr []"
| "read_entries (e # es) =
     (if de_is_file e then
        (case de_content e of
           None \<Rightarrow> Inl ReadFailed
         | Some bs \<Rightarrow> and_then (read_entries es) (\<lambda>rest. Inr (bs # rest)))
      else read_entries es)"

definition read_bundles :: "key_path \<Rightarrow> key_error + string list" where
  "read_bundles p =
     (case p of
        NoMetadata \<Rightarrow> Inl StatFailed
      | KeyFile None \<Rightarrow> Inl ReadFailed
      | KeyFile (Some bs) \<Rightarrow> Inr [bs]
      | KeyDir None \<Rightarrow> Inl ReadFailed
      | KeyDir (Some es) \<Rightarrow>
          and_then (read_entries (sort_key (\<lambda>e. the (de_name e)) (filter visible_entry (List.map_filter id es))))
            (\<lambda>bundles. if bundles = [] then Inl EmptyDirectory else Inr bundles))"

fun parse_bundles :: "(string \<Rightarrow> bytes option) \<Rightarrow> string list \<Rightarrow> key_error + ech_key_pair list" where
  "parse_bundles b64_dec [] = Inr []"
| "parse_bundles b64_dec (bs # rest) =
     and_then (parse_pem_bundle b64_dec bs) (\<lambda>file_pairs.
       if file_pairs = [] then Inl NoKeyPairs
       else and_then (parse_bundles b64_dec rest) (\<lambda>pairs. Inr (file_pairs @ pairs)))"

text \<open>The two nested loops over the pairs stop at the first pair whose identifier recurs.\<close>

fun duplicate_id :: "ech_key_pair list \<Rightarrow> u8 option" where
  "duplicate_id [] = None"
| "duplicate_id (p # ps) =
     (if \<exists>q \<in> set ps. config_id (config p) = config_id (config q) then Some (config_id (config p))
      else duplicate_id ps)"

definition load :: "(string \<Rightarrow> bytes option) \<Rightarrow> key_path \<Rightarrow> key_error + ech_key_pair list" where
  "load b64_dec path =
     and_then (read_bundles path) (\<lambda>bundles.
     and_then (parse_bundles b64_dec bundles) (\<lambda>pairs.
       case duplicate_id pairs of Some i \<Rightarrow> Inl (DuplicateConfigId i) | None \<Rightarrow> Inr pairs))"

definition config_list_bytes :: "ech_key_pair list \<Rightarrow> bytes option" where
  "config_list_bytes pairs = encode_list (map config pairs)"

subsection \<open>The parser reads what the writer writes\<close>

text \<open>
  What the code relies on of the base64 library: decoding inverts encoding, and the encoding
  uses the standard alphabet.
\<close>

definition b64_alphabet :: string where
  "b64_alphabet = ''ABCDEFGHIJKLMNOPQRSTUVWXYZabcdefghijklmnopqrstuvwxyz0123456789+/=''"

definition base64_codec :: "(bytes \<Rightarrow> string) \<Rightarrow> (string \<Rightarrow> bytes option) \<Rightarrow> bool" where
  "base64_codec b64_enc b64_dec \<longleftrightarrow>
     (\<forall>bs. b64_dec (b64_enc bs) = Some bs \<and> set (b64_enc bs) \<subseteq> set b64_alphabet)"

lemma b64_alphabet_graphic:
  "c \<in> set b64_alphabet \<Longrightarrow> graphic c \<and> c \<noteq> CHR ''-'' \<and> c \<noteq> newline \<and> byte_val c < 128"
  by (auto simp: b64_alphabet_def graphic_def byte_val_def newline_def)

lemma concat_chunks: "0 < n \<Longrightarrow> concat (chunks n xs) = xs"
  by (induction n xs rule: chunks.induct) (subst chunks.simps, auto)

lemma chunks_parts: "p \<in> set (chunks n xs) \<Longrightarrow> p \<noteq> [] \<and> set p \<subseteq> set xs"
proof (induction n xs rule: chunks.induct)
  case (1 n xs)
  from "1.prems" have "\<not> (xs = [] \<or> n = 0)" by (subst (asm) chunks.simps) (auto split: if_splits)
  with 1 show ?case
    by (subst (asm) (2) chunks.simps) (auto dest: in_set_takeD in_set_dropD)
qed

definition solid_line :: "string \<Rightarrow> bool" where
  "solid_line l \<longleftrightarrow> l \<noteq> [] \<and> newline \<notin> set l \<and> graphic (hd l) \<and> graphic (last l)"

lemma str_lines_solid: "solid_line l \<Longrightarrow> str_lines (l @ newline # s) = l # str_lines s"
  unfolding newline_def by (rule str_lines_step) (auto simp: solid_line_def newline_def)

lemma str_lines_solids:
  "\<forall>l \<in> set ls. solid_line l \<Longrightarrow> str_lines (concat (map (\<lambda>l. l @ [newline]) ls) @ s) = ls @ str_lines s"
  by (induction ls) (auto simp: str_lines_solid)

lemma str_lines_blank: "str_lines (replicate n newline @ s) = replicate n [] @ str_lines s"
  by (induction n) (auto simp: newline_def str_lines_step [of "[]", simplified])

lemma trim_solid [simp]: "solid_line l \<Longrightarrow> str_trim l = l"
  by (simp add: solid_line_def)

lemma pem_body_collects:
  "\<forall>l \<in> set ls. solid_line l \<and> l \<noteq> m \<Longrightarrow> solid_line m \<Longrightarrow>
     pem_body m (ls @ m # rest) b = Some (b @ concat ls, rest)"
  by (induction ls arbitrary: b) (auto simp: solid_line_def)

lemma chunk_solid:
  assumes "base64_codec enc dec" and "l \<in> set (chunks 64 (enc bs))"
  shows "solid_line l" and "l \<noteq> ''-----END '' @ lab @ ''-----''"
proof -
  have l: "l \<noteq> []" "\<forall>c \<in> set l. graphic c \<and> c \<noteq> CHR ''-'' \<and> c \<noteq> newline"
    using chunks_parts [OF assms(2)] assms(1) b64_alphabet_graphic by (auto simp: base64_codec_def)
  then show "solid_line l" by (auto simp: solid_line_def)
  show "l \<noteq> ''-----END '' @ lab @ ''-----''"
  proof
    assume "l = ''-----END '' @ lab @ ''-----''"
    then have "CHR ''-'' \<in> set l" by simp
    with l(2) show False by blast
  qed
qed

lemma marker_solid:
  assumes "newline \<notin> set lab"
  shows "solid_line (''-----BEGIN '' @ lab @ ''-----'')" and "solid_line (''-----END '' @ lab @ ''-----'')"
  using assms by (auto simp: solid_line_def graphic_def byte_val_def newline_def)

lemma begin_label_marker: "begin_label (''-----BEGIN '' @ lab @ ''-----'') = Some lab"
proof -
  have "strip_prefix (''-----BEGIN '' @ lab @ ''-----'') ''-----BEGIN '' = Some (lab @ ''-----'')"
    by (simp only: strip_prefix_Some)
  then show ?thesis
    using strip_suffix_append [of lab "''-----''"] by (simp only: begin_label_def Option.bind_lunit)
qed

lemma parse_written_block:
  assumes codec: "base64_codec enc dec" and lab: "newline \<notin> set lab"
  shows "parse_pem_lines dec (str_lines (write_pem_block enc lab bs @ s)) =
    and_then (parse_pem_lines dec (str_lines s)) (\<lambda>out. Inr (\<lparr>label = lab, body = bs\<rparr> # out))"
proof -
  let ?b = "''-----BEGIN '' @ lab @ ''-----''" and ?e = "''-----END '' @ lab @ ''-----''"
  have out: "write_pem_block enc lab bs @ s =
      ?b @ newline # concat (map (\<lambda>l. l @ [newline]) (chunks 64 (enc bs))) @ ?e @ newline # s"
    by (simp only: write_pem_block_def append_assoc append_Cons append_Nil)
  have lines: "str_lines (write_pem_block enc lab bs @ s) = ?b # chunks 64 (enc bs) @ ?e # str_lines s"
    unfolding out str_lines_solid [OF marker_solid(1) [OF lab]]
    using chunk_solid [OF codec] str_lines_solid [OF marker_solid(2) [OF lab]]
    by (subst str_lines_solids) auto
  have inner: "pem_body ?e (chunks 64 (enc bs) @ ?e # str_lines s) [] = Some (enc bs, str_lines s)"
    using pem_body_collects [OF _ marker_solid(2) [OF lab], of "chunks 64 (enc bs)" "str_lines s" "[]"]
      chunk_solid [OF codec] by (simp only: concat_chunks append_Nil) blast
  have "dec (enc bs) = Some bs" using codec by (simp add: base64_codec_def)
  moreover have "?b \<noteq> []" by simp
  ultimately show ?thesis
    unfolding lines
    by (simp only: parse_pem_lines.simps Let_def trim_solid [OF marker_solid(1) [OF lab]] begin_label_marker
        option.case inner if_False prod.case)
qed

subsection \<open>Whole files\<close>

definition sendable :: "ech_config \<Rightarrow> bool" where
  "sendable c \<longleftrightarrow> encode c \<noteq> None \<and> cipher_suites c \<noteq> [] \<and> utf8_valid (map unat (public_name c))"

text \<open>A file of pairs, each followed by some number of blank lines.\<close>

definition render_bundle :: "(bytes \<Rightarrow> string) \<Rightarrow> (ech_key_pair \<times> nat) list \<Rightarrow> string" where
  "render_bundle enc ps =
     concat (map (\<lambda>(p, n). the (encode_pair_pem enc (private_key p) (config p)) @ replicate n newline) ps)"

fun blocks_of :: "ech_key_pair list \<Rightarrow> pem_block list" where
  "blocks_of [] = []"
| "blocks_of (p # ps) =
     \<lparr>label = PEM_LABEL_KEY, body = private_key p\<rparr> #
     \<lparr>label = PEM_LABEL_CONFIG, body = the (encode (config p))\<rparr> # blocks_of ps"

lemma label_no_newline: "newline \<notin> set PEM_LABEL_KEY" "newline \<notin> set PEM_LABEL_CONFIG"
  by (simp_all add: PEM_LABEL_KEY_def PEM_LABEL_CONFIG_def newline_def)

lemma parse_blank_lines: "parse_pem_lines dec (replicate n [] @ ls) = parse_pem_lines dec ls"
  by (induction n) (simp_all add: str_trim_def)

lemma parse_rendered:
  assumes codec: "base64_codec enc dec" and "\<forall>(p, n) \<in> set ps. sendable (config p)"
  shows "parse_pem_lines dec (str_lines (render_bundle enc ps)) = Inr (blocks_of (map fst ps))"
  using assms(2)
proof (induction ps)
  case Nil
  then show ?case by (simp add: render_bundle_def)
next
  case (Cons pn ps)
  obtain p n where pn: "pn = (p, n)" by (cases pn)
  with Cons.prems obtain bs where "encode (config p) = Some bs" by (auto simp: sendable_def)
  moreover from this have "render_bundle enc (pn # ps) =
      write_pem_block enc PEM_LABEL_KEY (private_key p) @ write_pem_block enc PEM_LABEL_CONFIG bs
        @ replicate n newline @ render_bundle enc ps"
    by (simp add: pn render_bundle_def encode_pair_pem_def)
  ultimately show ?case
    using Cons
    by (simp add: pn parse_written_block [OF codec] label_no_newline str_lines_blank parse_blank_lines)
qed

lemma pair_rendered: "\<forall>p \<in> set ps. sendable (config p) \<Longrightarrow> pair_blocks (blocks_of ps) = Inr ps"
proof (induction ps)
  case (Cons p ps)
  then obtain bs where "encode (config p) = Some bs" "decode bs = Inr (config p)"
    using decode_encoded by (auto simp: sendable_def)
  with Cons show ?case
    by (simp add: check_key_label_def decode_config_def)
qed simp

definition ascii :: "string \<Rightarrow> bool" where
  "ascii s \<longleftrightarrow> (\<forall>x \<in> set s. byte_val x < 128)"

lemma ascii_append [simp]: "ascii (s @ t) \<longleftrightarrow> ascii s \<and> ascii t"
  by (auto simp: ascii_def)

lemma ascii_concat: "(\<And>s. s \<in> set ss \<Longrightarrow> ascii s) \<Longrightarrow> ascii (concat ss)"
  by (auto simp: ascii_def)

lemma ascii_newlines [simp]: "ascii (replicate n newline)" "ascii [newline]"
  by (auto simp: ascii_def newline_def byte_val_def)

lemma ascii_markers: "ascii ''-----BEGIN ''" "ascii ''-----END ''" "ascii ''-----''"
  "ascii PEM_LABEL_KEY" "ascii PEM_LABEL_CONFIG"
  by (simp_all add: ascii_def PEM_LABEL_KEY_def PEM_LABEL_CONFIG_def byte_val_def)

lemma ascii_block:
  assumes "base64_codec enc dec" and "ascii lab"
  shows "ascii (write_pem_block enc lab bs)"
proof -
  have "ascii p" if "p \<in> set (chunks 64 (enc bs))" for p
    using chunks_parts [OF that] assms(1) b64_alphabet_graphic by (auto simp: ascii_def base64_codec_def)
  then have "ascii (concat (map (\<lambda>chunk. chunk @ [newline]) (chunks 64 (enc bs))))"
    by (intro ascii_concat) auto
  with assms(2) ascii_markers show ?thesis by (simp only: write_pem_block_def ascii_append ascii_newlines)
qed

lemma rendered_utf8:
  assumes "base64_codec enc dec" and "\<forall>(p, n) \<in> set ps. sendable (config p)"
  shows "from_utf8 (render_bundle enc ps) = Some (render_bundle enc ps)"
proof -
  have "ascii (the (encode_pair_pem enc (private_key p) (config p)))" if "(p, n) \<in> set ps" for p n
    using assms(2) that ascii_block [OF assms(1)] ascii_markers(4,5)
    by (auto simp: sendable_def encode_pair_pem_def)
  then have "ascii (render_bundle enc ps)"
    unfolding render_bundle_def by (intro ascii_concat) auto
  then show ?thesis by (simp add: from_utf8_def utf8_valid_ascii ascii_def)
qed

text \<open>A codec with the laws of base64, for the witnesses: two letters per byte.\<close>

definition letter_enc :: "bytes \<Rightarrow> string" where
  "letter_enc bs = concat (map (\<lambda>b. [char_of (97 + unat b div 16), char_of (97 + unat b mod 16)]) bs)"

fun letter_dec :: "string \<Rightarrow> bytes option" where
  "letter_dec [] = Some []"
| "letter_dec [_] = None"
| "letter_dec (a # b # s) =
     map_option (\<lambda>bs. of_nat ((byte_val a - 97) * 16 + (byte_val b - 97)) # bs) (letter_dec s)"

lemma letter_codec: "base64_codec letter_enc letter_dec"
proof -
  have nib: "unat b div 16 < 16" "unat b mod 16 < 16" for b :: u8
    using unsigned_less [of b, where ?'a = nat] by (simp_all add: less_mult_imp_div_less)
  have "list_all (\<lambda>k. char_of (97 + k) \<in> set b64_alphabet) [0..<16]" by code_simp
  then have alpha: "char_of (97 + k) \<in> set b64_alphabet" if "k < 16" for k :: nat
    using that by (simp add: list_all_iff)
  have letter: "byte_val (char_of (97 + k)) - 97 = k" if "k < 16" for k :: nat
    using that by (simp add: byte_val_char_of)
  have "letter_dec (letter_enc bs) = Some bs" for bs
    by (induction bs) (simp_all add: letter_enc_def letter nib del: of_nat_add of_nat_mult)
  moreover have "set (letter_enc bs) \<subseteq> set b64_alphabet" for bs
    using nib alpha by (auto simp: letter_enc_def)
  ultimately show ?thesis by (simp add: base64_codec_def)
qed

lemma duplicate_id_None: "duplicate_id ps = None \<longleftrightarrow> distinct (map (\<lambda>p. config_id (config p)) ps)"
  by (induction ps) auto

lemma parse_bundles_nonempty: "parse_bundles dec bs = Inr ps \<Longrightarrow> bs \<noteq> [] \<Longrightarrow> ps \<noteq> []"
  by (cases bs) (auto simp: and_then_Inr split: if_splits)

lemma read_bundles_nonempty: "read_bundles p = Inr bs \<Longrightarrow> bs \<noteq> []"
  by (auto simp: read_bundles_def and_then_Inr split: key_path.splits option.splits if_splits)

subsection \<open>Properties\<close>

text \<open>C31. Whatever key pairs are written, in whatever number and with whatever blank lines
  between them, the parser reads the same pairs back.\<close>

theorem pem_roundtrip:
  assumes "base64_codec enc dec" and "\<forall>(p, n) \<in> set ps. sendable (config p)"
  shows "parse_pem_bundle dec (render_bundle enc ps) = Inr (map fst ps)"
  using assms
  by (simp add: parse_pem_bundle_def parse_pem_blocks_def rendered_utf8 parse_rendered pair_rendered
      split_beta)

definition sample_pairs :: "(ech_key_pair \<times> nat) list" where
  "sample_pairs = [(\<lparr>private_key = [1, 2], config = sample_ech\<rparr>, 1),
     (\<lparr>private_key = [], config = sample_ech\<lparr>config_id := 9\<rparr>\<rparr>, 0)]"

theorem pem_roundtrip_witness:
  "parse_pem_bundle letter_dec (render_bundle letter_enc sample_pairs) = Inr (map fst sample_pairs)"
proof (rule pem_roundtrip [OF letter_codec])
  have "sendable sample_ech" using sample_encodes by (simp add: sendable_def)
  moreover have "sendable (sample_ech\<lparr>config_id := 9\<rparr>)"
    using sample_encodes(3,4) by (simp add: sendable_def encode_def sample_ech_def u16_of_len_def u8_of_len_def
        encode_suite_def)
  ultimately show "\<forall>(p, n) \<in> set sample_pairs. sendable (config p)" by (simp add: sample_pairs_def)
qed

text \<open>A key set that loads has at least one pair and no two with the same configuration
  identifier, so an identifier in a ClientHello selects at most one key.\<close>

theorem load_distinct_ids:
  assumes "load dec path = Inr ps"
  shows "ps \<noteq> [] \<and> distinct (map (\<lambda>p. config_id (config p)) ps)"
proof -
  obtain bs where bs: "read_bundles path = Inr bs" "parse_bundles dec bs = Inr ps" "duplicate_id ps = None"
    using assms by (auto simp: load_def and_then_Inr split: option.splits)
  then show ?thesis
    using parse_bundles_nonempty [OF bs(2) read_bundles_nonempty [OF bs(1)]] duplicate_id_None by blast
qed

theorem load_distinct_ids_witness:
  "\<exists>ps. load letter_dec (KeyFile (Some (render_bundle letter_enc sample_pairs))) = Inr ps \<and>
     length ps = 2 \<and> distinct (map (\<lambda>p. config_id (config p)) ps)"
proof -
  have "\<forall>(p, n) \<in> set sample_pairs. sendable (config p)"
    using sample_encodes by (simp add: sample_pairs_def sendable_def encode_def sample_ech_def u16_of_len_def
        u8_of_len_def encode_suite_def)
  then have "parse_pem_bundle letter_dec (render_bundle letter_enc sample_pairs) = Inr (map fst sample_pairs)"
    using letter_codec
    by (simp add: parse_pem_bundle_def parse_pem_blocks_def rendered_utf8 parse_rendered pair_rendered split_beta)
  then have l: "load letter_dec (KeyFile (Some (render_bundle letter_enc sample_pairs))) = Inr (map fst sample_pairs)"
    by (simp add: load_def read_bundles_def sample_pairs_def sample_ech_def)
  show ?thesis using load_distinct_ids [OF l] l by (auto simp: sample_pairs_def)
qed

text \<open>The key set does not depend on the order in which the directory lists its entries:
  file names differ, so the listing is sorted in one way.\<close>

theorem load_order_irrelevant:
  assumes "mset es = mset es'" and "distinct (map de_name (filter visible_entry (List.map_filter id es)))"
  shows "load dec (KeyDir (Some es)) = load dec (KeyDir (Some es'))"
proof -
  let ?vis = "\<lambda>es. filter visible_entry (List.map_filter id es)"
  have m: "mset (?vis es) = mset (?vis es')"
    using assms(1) by (simp add: map_filter_def)
  have "inj_on (\<lambda>e. the (de_name e)) (set (?vis es))"
    using assms(2) by (auto simp: inj_on_def distinct_map visible_entry_def split: option.splits)
  then have "sort_key (\<lambda>e. the (de_name e)) (?vis es) = sort_key (\<lambda>e. the (de_name e)) (?vis es')"
    by (intro sort_key_inj_key_eq) (simp_all only: m mset_sort sorted_sort_key)
  then show ?thesis by (simp add: load_def read_bundles_def)
qed

theorem load_order_irrelevant_witness:
  "load letter_dec (KeyDir (Some [Some \<lparr>de_name = Some ''b'', de_is_file = True, de_content = Some []\<rparr>,
       Some \<lparr>de_name = Some ''a'', de_is_file = True, de_content = None\<rparr>]))
   = load letter_dec (KeyDir (Some [Some \<lparr>de_name = Some ''a'', de_is_file = True, de_content = None\<rparr>,
       Some \<lparr>de_name = Some ''b'', de_is_file = True, de_content = Some []\<rparr>]))"
  by (rule load_order_irrelevant) (simp_all add: List.map_filter_def visible_entry_def starts_with_def)

end
