(* ===== verification/Ja4.thy ===== *)
theory Ja4
  imports Wire Rust_Text "HOL-Library.Multiset"
begin

text \<open>
  The TLS client fingerprint of \<open>src/src/ja4.rs\<close>: the ClientHello parser, the JA4 string and
  the outer server name.  SHA-256 is a library, the parameter \<open>sha256\<close>.
\<close>

definition EXT_SNI :: u16 where "EXT_SNI = 0x0000"

definition EXT_ALPN :: u16 where "EXT_ALPN = 0x0010"

definition EXT_SIGNATURE_ALGORITHMS :: u16 where "EXT_SIGNATURE_ALGORITHMS = 0x000d"

definition EXT_SUPPORTED_VERSIONS :: u16 where "EXT_SUPPORTED_VERSIONS = 0x002b"

record extension =
  ty :: u16
  ext_body :: bytes

record parsed_client_hello =
  legacy_version :: u16
  supported_version :: "u16 option"
  ciphers :: "u16 list"
  extensions :: "extension list"

subsection \<open>The reader: what is left of the input\<close>

definition rd_bytes :: "nat \<Rightarrow> bytes \<Rightarrow> (bytes \<times> bytes) option" where
  "rd_bytes n input = (if length input < n then None else Some (take n input, drop n input))"

fun rd_u8 :: "bytes \<Rightarrow> (u8 \<times> bytes) option" where
  "rd_u8 [] = None"
| "rd_u8 (value # rest) = Some (value, rest)"

definition rd_u16 :: "bytes \<Rightarrow> (u16 \<times> bytes) option" where
  "rd_u16 input = do { (bs, rest) \<leftarrow> rd_bytes 2 input; Some (of_be16 (bs ! 0) (bs ! 1), rest) }"

subsection \<open>Helpers\<close>

definition is_grease :: "u16 \<Rightarrow> bool" where
  "is_grease value =
     (let high = be16 value ! 0; low = be16 value ! 1 in high = low \<and> low AND 0x0f = 0x0a)"

definition two_digit_count :: "nat \<Rightarrow> string" where
  "two_digit_count n = (let m = min n 99 in [char_of (48 + m div 10), char_of (48 + m mod 10)])"

definition ja4_version :: "u16 \<Rightarrow> string" where
  "ja4_version version =
     (if version = 0x0304 then ''13'' else if version = 0x0303 then ''12''
      else if version = 0x0302 then ''11'' else if version = 0x0301 then ''10''
      else if version = 0x0300 then ''s3'' else if version = 0x0002 then ''s2''
      else if version = 0xfeff then ''d1'' else if version = 0xfefd then ''d2''
      else if version = 0xfefc then ''d3'' else ''00'')"

fun hex_prefix_loop :: "bytes \<Rightarrow> nat \<Rightarrow> string \<Rightarrow> string" where
  "hex_prefix_loop [] chars out = out"
| "hex_prefix_loop (byte # bs) chars out =
     (if length out = chars then out
      else
        let out1 = out @ [hex_digit (unat (drop_bit 4 byte))]
        in if length out1 = chars then out1
           else hex_prefix_loop bs chars (out1 @ [hex_digit (unat (byte AND 0x0f))]))"

definition hex_prefix :: "bytes \<Rightarrow> nat \<Rightarrow> string" where
  "hex_prefix bs chars = hex_prefix_loop bs chars []"

definition truncated_sha256 :: "(string \<Rightarrow> bytes) \<Rightarrow> string \<Rightarrow> string" where
  "truncated_sha256 sha256 input = hex_prefix (sha256 input) 12"

definition hash_list_or_zero :: "(string \<Rightarrow> bytes) \<Rightarrow> string \<Rightarrow> string" where
  "hash_list_or_zero sha256 list = (if list = [] then ''000000000000'' else truncated_sha256 sha256 list)"

definition hex4 :: "u16 \<Rightarrow> string" where
  "hex4 v = map (\<lambda>k. hex_digit (unat v div 16 ^ k mod 16)) [3, 2, 1, 0]"

definition hex2 :: "u8 \<Rightarrow> string" where
  "hex2 b = [hex_digit (unat b div 16), hex_digit (unat b mod 16)]"

definition original_hex_list :: "u16 list \<Rightarrow> string" where
  "original_hex_list values = join_with '','' (map hex4 values)"

definition sorted_hex_list :: "u16 list \<Rightarrow> string" where
  "sorted_hex_list values = original_hex_list (sort values)"

fun read_u16_list :: "bytes \<Rightarrow> u16 list" where
  "read_u16_list (a # b # rest) = of_be16 a b # read_u16_list rest"
| "read_u16_list _ = []"

definition is_ascii_alphanumeric :: "nat \<Rightarrow> bool" where
  "is_ascii_alphanumeric b = (48 \<le> b \<and> b \<le> 57 \<or> 65 \<le> b \<and> b \<le> 90 \<or> 97 \<le> b \<and> b \<le> 122)"

text \<open>\<open>slice.get(..n)\<close>.\<close>

definition get_to :: "nat \<Rightarrow> 'a list \<Rightarrow> 'a list option" where
  "get_to n xs = (if n \<le> length xs then Some (take n xs) else None)"

definition alpn_marker :: "bytes \<Rightarrow> string option" where
  "alpn_marker body =
     (if length body < 3 then None
      else
        do { list \<leftarrow> get_to (unat (of_be16 (body ! 0) (body ! 1))) (drop 2 body);
             (first_len, rest) \<leftarrow> rd_u8 list;
             if first_len = 0 then None
             else
               do { first \<leftarrow> get_to (unat first_len) rest;
                    let first_byte = hd first;
                    let last_byte = last first;
                    if is_ascii_alphanumeric (unat first_byte) \<and> is_ascii_alphanumeric (unat last_byte)
                    then Some [char_of (unat first_byte), char_of (unat last_byte)]
                    else Some [hex2 first_byte ! 0, hex2 last_byte ! 1] } })"

definition signature_algorithms :: "bytes \<Rightarrow> u16 list" where
  "signature_algorithms body =
     (case body of
        len_hi # len_lo # rest \<Rightarrow>
          (case get_to (unat (of_be16 len_hi len_lo)) rest of
             None \<Rightarrow> []
           | Some values \<Rightarrow>
               if length values mod 2 \<noteq> 0 then []
               else filter (\<lambda>v. \<not> is_grease v) (read_u16_list values))
      | _ \<Rightarrow> [])"

definition max_of :: "u16 list \<Rightarrow> u16 option" where
  "max_of vs = (if vs = [] then None else Some (fold max (tl vs) (hd vs)))"

definition supported_versions_max :: "bytes \<Rightarrow> u16 option" where
  "supported_versions_max body =
     do { (len, rest) \<leftarrow> rd_u8 body;
          versions \<leftarrow> get_to (unat len) rest;
          if length versions mod 2 \<noteq> 0 then None
          else max_of (filter (\<lambda>v. \<not> is_grease v) (read_u16_list versions)) }"

subsection \<open>Parsing a ClientHello\<close>

function parse_extensions :: "bytes \<Rightarrow> extension list option" where
  "parse_extensions input =
     (if input = [] then Some []
      else if length input < 4 then None
      else
        let t = of_be16 (input ! 0) (input ! 1);
            len = unat (of_be16 (input ! 2) (input ! 3));
            input' = drop 4 input
        in if length input' < len then None
           else map_option (\<lambda>out. \<lparr>ty = t, ext_body = take len input'\<rparr> # out) (parse_extensions (drop len input')))"
  by pat_completeness auto
termination
  by (relation "measure length") auto

declare parse_extensions.simps [simp del]

definition strip_handshake_header :: "bytes \<Rightarrow> bytes option" where
  "strip_handshake_header input =
     (if length input < 4 \<or> input ! 0 \<noteq> 1 then None
      else
        let len = push_bit 16 (unat (input ! 1)) OR push_bit 8 (unat (input ! 2)) OR unat (input ! 3)
        in if length input = len + 4 then Some (drop 4 input) else None)"

definition find_ext :: "u16 \<Rightarrow> extension list \<Rightarrow> extension option" where
  "find_ext t exts = find (\<lambda>e. ty e = t) exts"

definition parse_client_hello :: "bytes \<Rightarrow> parsed_client_hello option" where
  "parse_client_hello input =
     do { (version, r) \<leftarrow> rd_u16 input;
          (_, r) \<leftarrow> rd_bytes 32 r;
          (session_id_len, r) \<leftarrow> rd_u8 r;
          (_, r) \<leftarrow> rd_bytes (unat session_id_len) r;
          (ciphers_len, r) \<leftarrow> rd_u16 r;
          if unat ciphers_len mod 2 \<noteq> 0 then None
          else
            do { (ciphers_bytes, r) \<leftarrow> rd_bytes (unat ciphers_len) r;
                 (compression_len, r) \<leftarrow> rd_u8 r;
                 (_, r) \<leftarrow> rd_bytes (unat compression_len) r;
                 exts \<leftarrow>
                   (if r = [] then Some []
                    else
                      do { (extensions_len, r) \<leftarrow> rd_u16 r;
                           (extensions_bytes, r) \<leftarrow> rd_bytes (unat extensions_len) r;
                           if r \<noteq> [] then None else parse_extensions extensions_bytes });
                 Some \<lparr>legacy_version = version,
                   supported_version =
                     do { e \<leftarrow> find_ext EXT_SUPPORTED_VERSIONS exts; supported_versions_max (ext_body e) },
                   ciphers = read_u16_list ciphers_bytes, extensions = exts\<rparr> } }"

subsection \<open>The server name\<close>

function parse_sni_entries :: "bytes \<Rightarrow> string option" where
  "parse_sni_entries entries =
     (if entries = [] then None
      else
        (case rd_u8 entries of
           None \<Rightarrow> None
         | Some (name_type, r) \<Rightarrow>
             (case rd_u16 r of
                None \<Rightarrow> None
              | Some (name_len, r) \<Rightarrow>
                  (case rd_bytes (unat name_len) r of
                     None \<Rightarrow> None
                   | Some (name, r) \<Rightarrow>
                       if name_type = 0 then
                         map_option to_ascii_lowercase (from_utf8 (map (\<lambda>b. char_of (unat b)) name))
                       else parse_sni_entries r))))"
  by pat_completeness auto
termination
proof (relation "measure length", goal_cases)
  case (2 entries p name_type r q name_len s t name u)
  then show ?case
    by (cases entries) (auto simp: rd_u16_def rd_bytes_def split: if_splits)
qed simp

declare parse_sni_entries.simps [simp del]

definition parse_sni_host_name :: "bytes \<Rightarrow> string option" where
  "parse_sni_host_name body =
     do { (list_len, r) \<leftarrow> rd_u16 body; (list, _) \<leftarrow> rd_bytes (unat list_len) r; parse_sni_entries list }"

definition client_hello_sni :: "bytes \<Rightarrow> string option" where
  "client_hello_sni handshake_message =
     do { body \<leftarrow> strip_handshake_header handshake_message;
          parsed \<leftarrow> parse_client_hello body;
          ext \<leftarrow> find_ext EXT_SNI (extensions parsed);
          parse_sni_host_name (ext_body ext) }"

subsection \<open>The fingerprint\<close>

definition extension_hash :: "(string \<Rightarrow> bytes) \<Rightarrow> extension list \<Rightarrow> string" where
  "extension_hash sha256 exts =
     (let extension_values = filter (\<lambda>v. \<not> is_grease v \<and> v \<noteq> EXT_SNI \<and> v \<noteq> EXT_ALPN) (map ty exts);
          extension_list = sorted_hex_list extension_values
      in if extension_list = [] then ''000000000000''
         else
           let sig_algs = (case find_ext EXT_SIGNATURE_ALGORITHMS exts of
                 None \<Rightarrow> [] | Some ext \<Rightarrow> signature_algorithms (ext_body ext));
               sig_alg_list = original_hex_list sig_algs;
               hash_input = (if sig_alg_list = [] then extension_list
                 else extension_list @ ''_'' @ sig_alg_list)
           in truncated_sha256 sha256 hash_input)"

definition tls_client_fingerprint :: "(string \<Rightarrow> bytes) \<Rightarrow> bytes \<Rightarrow> string option" where
  "tls_client_fingerprint sha256 client_hello =
     do { let hello = (case strip_handshake_header client_hello of None \<Rightarrow> client_hello | Some h \<Rightarrow> h);
          parsed \<leftarrow> parse_client_hello hello;
          let version = ja4_version (case supported_version parsed of None \<Rightarrow> legacy_version parsed | Some v \<Rightarrow> v);
          let sni_marker = (if \<exists>ext \<in> set (extensions parsed). ty ext = EXT_SNI then ''d'' else ''i'');
          let cs = filter (\<lambda>v. \<not> is_grease v) (ciphers parsed);
          let cipher_count = two_digit_count (length cs);
          let extension_count = two_digit_count (length (filter (\<lambda>ext. \<not> is_grease (ty ext)) (extensions parsed)));
          let alpn = (case Option.bind (find_ext EXT_ALPN (extensions parsed)) (\<lambda>ext. alpn_marker (ext_body ext)) of
            None \<Rightarrow> ''00'' | Some m \<Rightarrow> m);
          let cipher_hash = hash_list_or_zero sha256 (sorted_hex_list cs);
          Some (''t'' @ version @ sni_marker @ cipher_count @ extension_count @ alpn @ ''_'' @ cipher_hash
            @ ''_'' @ extension_hash sha256 (extensions parsed)) }"

subsection \<open>The reader fulfils the reader's contract\<close>

interpretation jr: byte_reader "\<lambda>r. r" rd_bytes "\<lambda>_. True"
  by unfold_locales (simp_all add: rd_bytes_def)

lemma rd_bytes_append [simp]: "length xs = n \<Longrightarrow> rd_bytes n (xs @ ys) = Some (xs, ys)"
  by (rule jr.take_bytes_append [of "xs @ ys" xs ys n]) simp_all

lemma rd_bytes_all [simp]: "length xs = n \<Longrightarrow> rd_bytes n xs = Some (xs, [])"
  by (simp add: rd_bytes_def)

lemma be16_not_Nil [simp]: "be16 w \<noteq> []"
  by (simp add: be16_def)

lemma rd_u16_append [simp]: "rd_u16 (be16 w @ ys) = Some (w, ys)"
  by (simp add: rd_u16_def)

lemma or_push_bit_nat:
  assumes "z < 2 ^ n"
  shows "push_bit n x OR z = x * 2 ^ n + (z :: nat)"
proof -
  have "\<not> bit z m" if "n \<le> m" for m
    using bit_take_bit_iff [of n z m] that assms by (simp add: take_bit_nat_eq_self)
  then have "push_bit n x + z = push_bit n x OR z"
    by (intro disjunctive_add) (auto simp: bit_push_bit_iff not_less)
  then show ?thesis by (simp add: push_bit_eq_mult)
qed

lemma be24_length:
  assumes "y < 256" and "z < 256"
  shows "push_bit 16 x OR push_bit 8 y OR z = x * 65536 + y * 256 + (z :: nat)"
proof -
  have "push_bit 16 x OR push_bit 8 y OR z = push_bit 8 (push_bit 8 x OR y) OR z"
    by (simp add: push_bit_or or.assoc)
  also have "\<dots> = (x * 2 ^ 8 + y) * 2 ^ 8 + z"
    using assms by (subst or_push_bit_nat) (simp_all add: or_push_bit_nat)
  finally show ?thesis by simp
qed

subsection \<open>The messages that clients send\<close>

text \<open>The serialisation of a ClientHello, RFC 8446 section 4.1.2.\<close>

definition u16s :: "u16 list \<Rightarrow> bytes" where
  "u16s vs = concat (map be16 vs)"

definition ext_bytes :: "extension \<Rightarrow> bytes" where
  "ext_bytes e = be16 (ty e) @ be16 (of_nat (length (ext_body e))) @ ext_body e"

definition exts_bytes :: "extension list \<Rightarrow> bytes" where
  "exts_bytes es = concat (map ext_bytes es)"

record client_hello =
  ch_version :: u16
  ch_random :: bytes
  ch_session :: bytes
  ch_ciphers :: "u16 list"
  ch_compression :: bytes
  ch_extensions :: "extension list"

definition hello_bytes :: "client_hello \<Rightarrow> bytes" where
  "hello_bytes h =
     be16 (ch_version h) @ ch_random h @ [of_nat (length (ch_session h))] @ ch_session h
       @ be16 (of_nat (2 * length (ch_ciphers h))) @ u16s (ch_ciphers h)
       @ [of_nat (length (ch_compression h))] @ ch_compression h
       @ be16 (of_nat (length (exts_bytes (ch_extensions h)))) @ exts_bytes (ch_extensions h)"

definition handshake_bytes :: "client_hello \<Rightarrow> bytes" where
  "handshake_bytes h =
     (let n = length (hello_bytes h)
      in [1, of_nat (n div 65536), of_nat (n div 256), of_nat n] @ hello_bytes h)"

definition hello_ok :: "client_hello \<Rightarrow> bool" where
  "hello_ok h \<longleftrightarrow> length (ch_random h) = 32 \<and> length (ch_session h) < 256 \<and> length (ch_ciphers h) < 32768
     \<and> length (ch_compression h) < 256 \<and> length (exts_bytes (ch_extensions h)) < 65536"

lemma unat_of_nat_less: "n < 2 ^ LENGTH('a) \<Longrightarrow> unat (of_nat n :: 'a :: len word) = n"
  by (simp add: unat_of_nat)

lemma unat_len8 [simp]: "n < 256 \<Longrightarrow> unat (of_nat n :: u8) = n"
  by (simp add: unat_of_nat_less)

lemma unat_len16 [simp]: "n < 65536 \<Longrightarrow> unat (of_nat n :: u16) = n"
  by (simp add: unat_of_nat_less)

lemma read_u16s [simp]: "read_u16_list (u16s vs) = vs"
  by (induction vs) (simp_all add: u16s_def be16_def of_be16_be16)

lemma length_u16s [simp]: "length (u16s vs) = 2 * length vs"
  by (induction vs) (simp_all add: u16s_def)

lemma parse_extensions_ext:
  assumes "length (ext_body e) < 65536"
  shows "parse_extensions (ext_bytes e @ rest) = map_option (\<lambda>out. e # out) (parse_extensions rest)"
proof -
  have i: "ext_bytes e @ rest = be16 (ty e) @ be16 (of_nat (length (ext_body e))) @ ext_body e @ rest"
    by (simp add: ext_bytes_def)
  have eta: "\<lparr>ty = ty e, ext_body = ext_body e\<rparr> = e" by (cases e) simp
  show ?thesis
    using assms
    by (subst parse_extensions.simps) (simp add: i be16_def of_be16_be16 Let_def eta)
qed

lemma parse_extensions_bytes:
  "length (exts_bytes es) < 65536 \<Longrightarrow> parse_extensions (exts_bytes es) = Some es"
proof (induction es)
  case Nil
  then show ?case by (simp add: exts_bytes_def parse_extensions.simps)
next
  case (Cons e es)
  then have "length (ext_body e) < 65536" and "length (exts_bytes es) < 65536"
    by (simp_all add: exts_bytes_def ext_bytes_def)
  with Cons.IH show ?case
    using parse_extensions_ext [of e "exts_bytes es"] by (simp add: exts_bytes_def)
qed

definition parsed_of :: "client_hello \<Rightarrow> parsed_client_hello" where
  "parsed_of h = \<lparr>legacy_version = ch_version h,
     supported_version =
       Option.bind (find_ext EXT_SUPPORTED_VERSIONS (ch_extensions h)) (\<lambda>e. supported_versions_max (ext_body e)),
     ciphers = ch_ciphers h, extensions = ch_extensions h\<rparr>"

lemma parse_hello:
  assumes "hello_ok h"
  shows "parse_client_hello (hello_bytes h) = Some (parsed_of h)"
  using assms
  by (simp add: hello_ok_def hello_bytes_def parse_client_hello_def parse_extensions_bytes parsed_of_def
      del: of_nat_mult)

lemma strip_handshake:
  assumes "hello_ok h"
  shows "strip_handshake_header (handshake_bytes h) = Some (hello_bytes h)"
proof -
  define n where "n = length (hello_bytes h)"
  have n: "n < 16777216" using assms by (simp add: n_def hello_ok_def hello_bytes_def)
  then have "n div 65536 < 256" by (simp add: less_mult_imp_div_less)
  then have "unat (of_nat (n div 65536) :: u8) = n div 65536" by simp
  moreover have "unat (of_nat k :: u8) = k mod 256" for k by (simp add: unat_of_nat)
  moreover have "n div 65536 * 65536 + (n div 256) mod 256 * 256 + n mod 256 = n"
  proof -
    have "n div 65536 * 65536 + (n div 256) mod 256 * 256 = (n div 256 div 256 * 256 + n div 256 mod 256) * 256"
      by (simp add: div_mult2_eq [symmetric] algebra_simps)
    then show ?thesis by simp
  qed
  ultimately show ?thesis
    by (simp add: strip_handshake_header_def handshake_bytes_def n_def [symmetric] be24_length)
qed

subsection \<open>What the fingerprint depends on\<close>

definition fingerprint_of :: "(string \<Rightarrow> bytes) \<Rightarrow> parsed_client_hello \<Rightarrow> string" where
  "fingerprint_of sha256 p =
     ''t'' @ ja4_version (case supported_version p of None \<Rightarrow> legacy_version p | Some v \<Rightarrow> v)
       @ (if \<exists>ext \<in> set (extensions p). ty ext = EXT_SNI then ''d'' else ''i'')
       @ two_digit_count (length (filter (\<lambda>v. \<not> is_grease v) (ciphers p)))
       @ two_digit_count (length (filter (\<lambda>ext. \<not> is_grease (ty ext)) (extensions p)))
       @ (case Option.bind (find_ext EXT_ALPN (extensions p)) (\<lambda>ext. alpn_marker (ext_body ext)) of
            None \<Rightarrow> ''00'' | Some m \<Rightarrow> m)
       @ ''_'' @ hash_list_or_zero sha256 (sorted_hex_list (filter (\<lambda>v. \<not> is_grease v) (ciphers p)))
       @ ''_'' @ extension_hash sha256 (extensions p)"

lemma fingerprint_handshake:
  "hello_ok h \<Longrightarrow> tls_client_fingerprint sha (handshake_bytes h) = Some (fingerprint_of sha (parsed_of h))"
  by (simp add: tls_client_fingerprint_def strip_handshake parse_hello fingerprint_of_def Let_def)

lemma grease_free_consts [simp]:
  "\<not> is_grease EXT_SNI" "\<not> is_grease EXT_ALPN" "\<not> is_grease EXT_SIGNATURE_ALGORITHMS"
  "\<not> is_grease EXT_SUPPORTED_VERSIONS"
  by (simp_all add: is_grease_def be16_def EXT_SNI_def EXT_ALPN_def EXT_SIGNATURE_ALGORITHMS_def
      EXT_SUPPORTED_VERSIONS_def)

definition genuine :: "extension list \<Rightarrow> extension list" where
  "genuine es = filter (\<lambda>e. \<not> is_grease (ty e)) es"

lemma find_ext_genuine: "\<not> is_grease t \<Longrightarrow> find_ext t (genuine es) = find_ext t es"
  by (induction es) (auto simp: find_ext_def genuine_def)

lemma find_ext_unique:
  assumes "distinct (map ty es)"
  shows "find_ext t es = Some e \<longleftrightarrow> e \<in> set es \<and> ty e = t"
  using assms by (induction es) (auto simp: find_ext_def)

lemma find_ext_mset:
  assumes "mset (genuine es) = mset (genuine es')" and "distinct (map ty (genuine es))" and "\<not> is_grease t"
  shows "find_ext t es = find_ext t es'"
proof -
  have d: "distinct (map ty (genuine es'))"
    using assms(1,2) by (metis mset_map mset_eq_imp_distinct_iff)
  have "find_ext t (genuine es) = Some e \<longleftrightarrow> find_ext t (genuine es') = Some e" for e
    unfolding find_ext_unique [OF assms(2)] find_ext_unique [OF d] using assms(1) by (metis set_mset_mset)
  then have "find_ext t (genuine es) = find_ext t (genuine es')" by (metis option.exhaust)
  then show ?thesis using find_ext_genuine [OF assms(3)] by simp
qed

lemma sorted_hex_list_mset: "mset vs = mset vs' \<Longrightarrow> sorted_hex_list vs = sorted_hex_list vs'"
  unfolding sorted_hex_list_def by (metis properties_for_sort mset_sort sorted_sort)

lemma sni_present: "(\<exists>e \<in> set es. ty e = EXT_SNI) \<longleftrightarrow> find_ext EXT_SNI es \<noteq> None"
  by (auto simp: find_ext_def find_None_iff)

lemma extension_values_mset:
  assumes "mset (genuine es) = mset (genuine es')"
  shows "mset (filter (\<lambda>v. \<not> is_grease v \<and> v \<noteq> EXT_SNI \<and> v \<noteq> EXT_ALPN) (map ty es)) =
    mset (filter (\<lambda>v. \<not> is_grease v \<and> v \<noteq> EXT_SNI \<and> v \<noteq> EXT_ALPN) (map ty es'))"
proof -
  have "filter (\<lambda>v. \<not> is_grease v \<and> v \<noteq> EXT_SNI \<and> v \<noteq> EXT_ALPN) (map ty es) =
    filter (\<lambda>v. v \<noteq> EXT_SNI \<and> v \<noteq> EXT_ALPN) (map ty (genuine es))" for es
    by (induction es) (auto simp: genuine_def)
  with assms show ?thesis by (simp del: mset_map add: mset_map)
qed

lemma extension_hash_mset:
  assumes "mset (genuine es) = mset (genuine es')" and "distinct (map ty (genuine es))"
  shows "extension_hash sha es = extension_hash sha es'"
  unfolding extension_hash_def Let_def sorted_hex_list_mset [OF extension_values_mset [OF assms(1)]]
    find_ext_mset [OF assms grease_free_consts(3)] by (rule refl)

subsection \<open>Properties\<close>

text \<open>Two messages of the same client, with ciphers and extensions in another order and with
  other GREASE values.\<close>

definition hello_a :: client_hello where
  "hello_a = \<lparr>ch_version = 0x0303, ch_random = replicate 32 0, ch_session = [5], ch_ciphers = [0x1301, 0x0a0a, 0xc02b],
     ch_compression = [0], ch_extensions = [\<lparr>ty = 0x1a1a, ext_body = []\<rparr>, \<lparr>ty = 0x002b, ext_body = [2, 3, 4]\<rparr>,
       \<lparr>ty = 0x0010, ext_body = [0, 3, 2, 104, 50]\<rparr>]\<rparr>"

definition hello_b :: client_hello where
  "hello_b = \<lparr>ch_version = 0x0303, ch_random = replicate 32 9, ch_session = [], ch_ciphers = [0xc02b, 0x1301],
     ch_compression = [0], ch_extensions = [\<lparr>ty = 0x0010, ext_body = [0, 3, 2, 104, 50]\<rparr>,
       \<lparr>ty = 0x002b, ext_body = [2, 3, 4]\<rparr>]\<rparr>"

lemma sample_hellos: "hello_ok hello_a" "hello_ok hello_b"
  by (simp_all add: hello_ok_def hello_a_def hello_b_def exts_bytes_def ext_bytes_def)



lemma hex_prefix_loop_length:
  assumes "length out \<le> chars" and "chars \<le> length out + 2 * length bs"
  shows "length (hex_prefix_loop bs chars out) = chars"
  using assms
proof (induction bs chars out rule: hex_prefix_loop.induct)
  case (2 byte bs chars out)
  then show ?case
    by (cases "length out = chars"; cases "Suc (length out) = chars") (simp_all add: Let_def)
qed simp

lemma alpn_marker_length: "alpn_marker body = Some m \<Longrightarrow> length m = 2"
  by (auto simp: alpn_marker_def Let_def bind_eq_Some_conv split: if_splits)

text \<open>A fingerprint has the fixed JA4 layout of 36 characters, whatever the client sent:
  the transport letter, ten characters of protocol facts and two hashes of twelve digits.\<close>

theorem fingerprint_layout:
  assumes "\<forall>s. length (sha256 s) = 32" and "tls_client_fingerprint sha256 msg = Some f"
  shows "length f = 36 \<and> f ! 0 = CHR ''t'' \<and> f ! 10 = CHR ''_'' \<and> f ! 23 = CHR ''_''"
proof -
  have t: "length (truncated_sha256 sha256 s) = 12" for s
    using assms(1) by (simp add: truncated_sha256_def hex_prefix_def hex_prefix_loop_length)
  obtain p where f: "f = fingerprint_of sha256 p"
    using assms(2)
    by (auto simp: tls_client_fingerprint_def fingerprint_of_def Let_def bind_eq_Some_conv)
  define a where "a = (case Option.bind (find_ext EXT_ALPN (extensions p)) (\<lambda>ext. alpn_marker (ext_body ext)) of
    None \<Rightarrow> ''00'' | Some m \<Rightarrow> m)"
  define m where "m = ja4_version (case supported_version p of None \<Rightarrow> legacy_version p | Some v \<Rightarrow> v)
    @ (if \<exists>ext \<in> set (extensions p). ty ext = EXT_SNI then ''d'' else ''i'')
    @ two_digit_count (length (filter (\<lambda>v. \<not> is_grease v) (ciphers p)))
    @ two_digit_count (length (filter (\<lambda>ext. \<not> is_grease (ty ext)) (extensions p))) @ a"
  define c where "c = hash_list_or_zero sha256 (sorted_hex_list (filter (\<lambda>v. \<not> is_grease v) (ciphers p)))"
  define x where "x = extension_hash sha256 (extensions p)"
  have f': "f = CHR ''t'' # m @ CHR ''_'' # c @ CHR ''_'' # x"
    by (simp add: f fingerprint_of_def m_def a_def c_def x_def)
  have "length a = 2" by (auto simp: a_def bind_eq_Some_conv alpn_marker_length split: option.split)
  then have m: "length m = 9" by (simp add: m_def ja4_version_def two_digit_count_def Let_def)
  have c: "length c = 12" "length x = 12"
    by (simp_all add: c_def x_def hash_list_or_zero_def extension_hash_def Let_def t)
  show ?thesis using c m by (simp add: f' nth_append nth_Cons')
qed

theorem fingerprint_layout_witness:
  "\<exists>f. tls_client_fingerprint (\<lambda>s. replicate 32 7) (handshake_bytes hello_b) = Some f \<and> length f = 36"
  using fingerprint_layout [OF _ fingerprint_handshake [OF sample_hellos(2), of "\<lambda>s. replicate 32 7"]]
    fingerprint_handshake [OF sample_hellos(2), of "\<lambda>s. replicate 32 7"] by auto

text \<open>The body of a server name extension, RFC 6066 section 3.\<close>

definition sni_body :: "(u8 \<times> bytes) list \<Rightarrow> bytes" where
  "sni_body ns =
     (let list = concat (map (\<lambda>(t, n). t # be16 (of_nat (length n)) @ n) ns) in be16 (of_nat (length list)) @ list)"

lemma parse_sni_entry:
  assumes "length n < 65536"
  shows "parse_sni_entries (t # be16 (of_nat (length n)) @ n @ rest) =
    (if t = 0 then map_option to_ascii_lowercase (from_utf8 (map (\<lambda>b. char_of (unat b)) n))
     else parse_sni_entries rest)"
  using assms by (subst parse_sni_entries.simps) simp

lemma parse_sni_skips:
  assumes "\<forall>(t, n) \<in> set others. t \<noteq> 0 \<and> length n < 65536" and "length name < 65536"
  shows "parse_sni_entries (concat (map (\<lambda>(t, n). t # be16 (of_nat (length n)) @ n) (others @ (0, name) # rest))) =
    map_option to_ascii_lowercase (from_utf8 (map (\<lambda>b. char_of (unat b)) name))"
  using assms(1) by (induction others) (auto simp: parse_sni_entry assms(2))

text \<open>The outer server name of a ClientHello is its first host name, in lower case; names of
  other types before it are skipped.\<close>

theorem sni_first_host:
  assumes "hello_ok h" and "find_ext EXT_SNI (ch_extensions h) = Some e"
    and "ext_body e = sni_body (others @ (0, name) # rest)" and "length (sni_body (others @ (0, name) # rest)) < 65536"
    and "\<forall>(t, n) \<in> set others. t \<noteq> 0" and "utf8_valid (map unat name)"
  shows "client_hello_sni (handshake_bytes h) = Some (to_ascii_lowercase (map (\<lambda>b. char_of (unat b)) name))"
proof -
  define list where "list = concat (map (\<lambda>(t, n). t # be16 (of_nat (length n)) @ n) (others @ (0, name) # rest))"
  have body: "sni_body (others @ (0, name) # rest) = be16 (of_nat (length list)) @ list"
    unfolding sni_body_def Let_def list_def ..
  have len: "length list < 65536" using assms(4) body by simp
  have short: "length n < 65536" if mem: "(t, n) \<in> set (others @ (0, name) # rest)" for t n
  proof -
    obtain xs ys where "others @ (0, name) # rest = xs @ (t, n) # ys" using mem by (meson split_list)
    with len show ?thesis by (simp add: list_def)
  qed
  have "parse_sni_entries list = map_option to_ascii_lowercase (from_utf8 (map (\<lambda>b. char_of (unat b)) name))"
    unfolding list_def using assms(5) short by (intro parse_sni_skips) auto
  moreover have "map (byte_val \<circ> (\<lambda>b. char_of (unat b))) name = map unat name"
    using unsigned_less [where ?'a = nat and 'b = 8] by (simp add: byte_val_char_of comp_def)
  ultimately show ?thesis
    using assms(1,2,3,6) len body
    by (simp add: client_hello_sni_def strip_handshake parse_hello parsed_of_def parse_sni_host_name_def from_utf8_def)
qed

theorem sni_first_host_witness:
  "client_hello_sni (handshake_bytes (hello_b\<lparr>ch_extensions := [\<lparr>ty = 0, ext_body = [0, 9, 5, 0, 0, 0, 0, 3, 65, 46, 98]\<rparr>]\<rparr>))
     = Some ''a.b''"
proof -
  let ?h = "hello_b\<lparr>ch_extensions := [\<lparr>ty = 0, ext_body = [0, 9, 5, 0, 0, 0, 0, 3, 65, 46, 98]\<rparr>]\<rparr>"
  have "client_hello_sni (handshake_bytes ?h) =
      Some (to_ascii_lowercase (map (\<lambda>b. char_of (unat b)) [65, 46, 98 :: u8]))"
    by (rule sni_first_host [where others = "[(5, [])]" and rest = "[]"
          and e = "\<lparr>ty = 0, ext_body = [0, 9, 5, 0, 0, 0, 0, 3, 65, 46, 98]\<rparr>"])
      (simp_all add: hello_ok_def hello_b_def exts_bytes_def ext_bytes_def find_ext_def EXT_SNI_def
        sni_body_def be16_def)
  moreover have "to_ascii_lowercase (map (\<lambda>b. char_of (unat b)) [65, 46, 98 :: u8]) = ''a.b''" by code_simp
  ultimately show ?thesis by simp
qed

end
