(* ===== verification/H1_Head.thy ===== *)
theory H1_Head
  imports Wire Rust_Text
begin

text \<open>
  Message heads of HTTP/1.1, the parsing half of \<open>src/src/http/h1.rs\<close>: request and response
  heads, the choice of the body framing, and the fast path that rewrites a fixed-length
  response without building a header map.

  The \<open>http\<close> crate is a library.  What the code uses of its validators is the parameter
  \<open>http_lib\<close>; its \<open>HeaderMap\<close> is a list of names with their values, in the order of first
  insertion, as the crate keeps it.
\<close>

datatype http_error =
    Io | InvalidRequest string | InvalidResponse string | InvalidHeader | InvalidChunked
  | HeadersTooLarge | LineTooLong | UnexpectedEof | MissingIo | Panicked

datatype version = HTTP_10 | HTTP_11

type_synonym header_map = "(string, string list) store"

record http_lib =
  name_from_bytes :: "string \<Rightarrow> string option"
  value_from_bytes :: "string \<Rightarrow> bool"
  value_from_str :: "string \<Rightarrow> bool"
  value_to_str :: "string \<Rightarrow> bool"
  method_from_bytes :: "string \<Rightarrow> bool"
  parse_uri :: "string \<Rightarrow> string option"
  status_from_u16 :: "nat \<Rightarrow> bool"

record request_head =
  rq_method :: string
  rq_uri :: string
  rq_version :: version
  rq_headers :: header_map
  rq_tls :: bool

record response_head =
  rs_status :: nat
  rs_status_text :: string
  rs_version :: version
  rs_headers :: header_map

datatype body_framing =
    BNone
  | BFixed nat
  | BChunked (ch_remaining: nat) (need_crlf: bool) (reading_trailers: bool) (ch_done: bool)
  | BEof (eof_done: bool)

subsection \<open>Header maps\<close>

definition hm_get_all :: "header_map \<Rightarrow> string \<Rightarrow> string list" where
  "hm_get_all m name = (case store_get m name of None \<Rightarrow> [] | Some vs \<Rightarrow> vs)"

definition hm_get :: "header_map \<Rightarrow> string \<Rightarrow> string option" where
  "hm_get m name = (case hm_get_all m name of [] \<Rightarrow> None | v # _ \<Rightarrow> Some v)"

definition hm_append :: "string \<Rightarrow> string \<Rightarrow> header_map \<Rightarrow> header_map" where
  "hm_append name v m = store_put name (hm_get_all m name @ [v]) m"

definition hm_insert :: "string \<Rightarrow> string \<Rightarrow> header_map \<Rightarrow> header_map" where
  "hm_insert name v m = store_put name [v] m"

definition hm_iter :: "header_map \<Rightarrow> (string \<times> string) list" where
  "hm_iter m = concat (map (\<lambda>(n, vs). map (Pair n) vs) m)"

subsection \<open>ASCII helpers\<close>

definition CRLF :: string where
  "CRLF = [CHR 0x0D, CHR 0x0A]"

definition is_ascii_whitespace :: "char \<Rightarrow> bool" where
  "is_ascii_whitespace c = (byte_val c \<in> {9, 10, 12, 13, 32})"

definition trim_ascii_start :: "string \<Rightarrow> string" where
  "trim_ascii_start value = dropWhile is_ascii_whitespace value"

definition trim_ascii :: "string \<Rightarrow> string" where
  "trim_ascii value = rev (dropWhile is_ascii_whitespace (rev (trim_ascii_start value)))"

definition header_name_eq :: "string \<Rightarrow> string \<Rightarrow> bool" where
  "header_name_eq name expected =
     (length name = length expected
       \<and> (\<forall>(a, b) \<in> set (zip name expected). to_ascii_lowercase1 a = to_ascii_lowercase1 b))"

definition header_value_has_token :: "string \<Rightarrow> string \<Rightarrow> bool" where
  "header_value_has_token value token =
     (\<exists>part \<in> set (map trim_ascii (split_on (CHR '','') value)). header_name_eq part token)"

definition parse_u64_ascii :: "string \<Rightarrow> nat option" where
  "parse_u64_ascii value = parse_digits 10 (2 ^ 64) 0 value"

definition hop_headers :: "string list" where
  "hop_headers = [''alt-svc'', ''connection'', ''proxy-connection'', ''proxy-authenticate'',
     ''proxy-authorization'', ''keep-alive'', ''te'', ''trailer'', ''transfer-encoding'', ''upgrade'']"

definition is_hop_header_name :: "string \<Rightarrow> bool" where
  "is_hop_header_name name = (\<exists>candidate \<in> set hop_headers. header_name_eq name candidate)"

definition raw_status_allows_body :: "nat \<Rightarrow> bool" where
  "raw_status_allows_body status = (\<not> (status < 200 \<or> status = 204 \<or> status = 304))"

definition is_informational :: "nat \<Rightarrow> bool" where
  "is_informational status = (100 \<le> status \<and> status < 200)"

definition is_interim_response_status :: "nat \<Rightarrow> bool" where
  "is_interim_response_status status = (is_informational status \<and> status \<noteq> 101)"

definition split_ascii_word :: "string \<Rightarrow> (string \<times> string) option" where
  "split_ascii_word value =
     (let v = trim_ascii_start value
      in if v = [] then None
         else Some (takeWhile (\<lambda>c. \<not> is_ascii_whitespace c) v, dropWhile (\<lambda>c. \<not> is_ascii_whitespace c) v))"

definition parse_version :: "string \<Rightarrow> version option" where
  "parse_version value =
     (if value = ''HTTP/1.1'' then Some HTTP_11 else if value = ''HTTP/1.0'' then Some HTTP_10 else None)"

definition parse_version_bytes :: "string \<Rightarrow> version option" where
  "parse_version_bytes value =
     (if value = ''HTTP/1.1'' then Some HTTP_11 else if value = ''HTTP/1.0'' then Some HTTP_10 else None)"

definition version_bytes :: "version \<Rightarrow> string" where
  "version_bytes v = (case v of HTTP_10 \<Rightarrow> ''HTTP/1.0'' | HTTP_11 \<Rightarrow> ''HTTP/1.1'')"

subsection \<open>Headers\<close>

text \<open>A line and what follows its line end; the last line needs no end.\<close>

definition next_line :: "string \<Rightarrow> string \<times> string" where
  "next_line raw =
     (case find_sub CRLF raw of None \<Rightarrow> (raw, []) | Some i \<Rightarrow> (take i raw, drop (i + 2) raw))"

lemma next_line_shorter: "raw \<noteq> [] \<Longrightarrow> next_line raw = (line, rest) \<Longrightarrow> length rest < length raw"
  by (auto simp: next_line_def CRLF_def split: option.splits dest!: find_sub_SomeD)

function parse_headers_loop :: "http_lib \<Rightarrow> string \<Rightarrow> header_map \<Rightarrow> http_error + header_map" where
  "parse_headers_loop lib raw headers =
     (if raw = [] then Inr headers
      else
        case next_line raw of (line, rest) \<Rightarrow>
          if line = [] then Inr headers
          else
            (case split_once (CHR '':'') line of
               None \<Rightarrow> Inl InvalidHeader
             | Some (n, v) \<Rightarrow>
                 if trim_ascii n = [] then Inl InvalidHeader
                 else
                   (case name_from_bytes lib (trim_ascii n) of
                      None \<Rightarrow> Inl InvalidHeader
                    | Some name \<Rightarrow>
                        if \<not> value_from_bytes lib (trim_ascii v) then Inl InvalidHeader
                        else parse_headers_loop lib rest (hm_append name (trim_ascii v) headers))))"
  by pat_completeness auto
termination
  by (relation "measure (\<lambda>(_, raw, _). length raw)") (auto dest: next_line_shorter sym)

declare parse_headers_loop.simps [simp del]

definition parse_headers_bytes :: "http_lib \<Rightarrow> string \<Rightarrow> http_error + header_map" where
  "parse_headers_bytes lib raw = parse_headers_loop lib raw []"

fun parse_headers :: "http_lib \<Rightarrow> string list \<Rightarrow> header_map \<Rightarrow> http_error + header_map" where
  "parse_headers lib [] headers = Inr headers"
| "parse_headers lib (line # lines) headers =
     (if line = [] then Inr headers
      else
        (case split_once (CHR '':'') line of
           None \<Rightarrow> Inl InvalidHeader
         | Some (n, v) \<Rightarrow>
             if str_trim n = [] then Inl InvalidHeader
             else
               (case name_from_bytes lib (str_trim n) of
                  None \<Rightarrow> Inl InvalidHeader
                | Some name \<Rightarrow>
                    if \<not> value_from_str lib (str_trim v) then Inl InvalidHeader
                    else parse_headers lib lines (hm_append name (str_trim v) headers))))"

definition normalize_cookie_headers :: "http_lib \<Rightarrow> header_map \<Rightarrow> http_error + header_map" where
  "normalize_cookie_headers lib headers =
     (case hm_get_all headers ''cookie'' of
        first # second # values \<Rightarrow>
          (let combined = first @ ''; '' @ second @ concat (map (\<lambda>v. ''; '' @ v) values)
           in if value_from_bytes lib combined then Inr (hm_insert ''cookie'' combined headers)
              else Inl Panicked)
      | _ \<Rightarrow> Inr headers)"

definition header_tokens :: "string \<Rightarrow> string list" where
  "header_tokens value = map str_trim (split_on (CHR '','') value)"

definition has_chunked :: "http_lib \<Rightarrow> header_map \<Rightarrow> bool" where
  "has_chunked lib headers =
     (case hm_get headers ''transfer-encoding'' of
        None \<Rightarrow> False
      | Some value \<Rightarrow> value_to_str lib value
          \<and> (\<exists>part \<in> set (header_tokens value). eq_ignore_ascii_case part ''chunked''))"

definition content_length :: "http_lib \<Rightarrow> header_map \<Rightarrow> nat option" where
  "content_length lib headers =
     (case hm_get headers ''content-length'' of
        None \<Rightarrow> None
      | Some value \<Rightarrow> if value_to_str lib value then parse_uint 10 (2 ^ 64) (str_trim value) else None)"

definition header_contains_token :: "http_lib \<Rightarrow> header_map \<Rightarrow> string \<Rightarrow> string \<Rightarrow> bool" where
  "header_contains_token lib headers name token =
     (\<exists>value \<in> set (hm_get_all headers name). value_to_str lib value
        \<and> (\<exists>part \<in> set (header_tokens value). eq_ignore_ascii_case part token))"

definition header_eq_ignore_case :: "http_lib \<Rightarrow> header_map \<Rightarrow> string \<Rightarrow> string \<Rightarrow> bool" where
  "header_eq_ignore_case lib headers name value =
     (case hm_get headers name of
        None \<Rightarrow> False
      | Some v \<Rightarrow> value_to_str lib v \<and> eq_ignore_ascii_case v value)"

subsection \<open>Heads\<close>

definition parse_request_head :: "http_lib \<Rightarrow> string \<Rightarrow> http_error + request_head" where
  "parse_request_head lib raw =
     (let line_end = (case find_sub CRLF raw of None \<Rightarrow> length raw | Some i \<Rightarrow> i);
          request_line = take line_end raw
      in case split_ascii_word request_line of
           None \<Rightarrow> Inl (InvalidRequest ''missing method'')
         | Some (method, rest) \<Rightarrow>
        (case split_ascii_word rest of
           None \<Rightarrow> Inl (InvalidRequest ''missing uri'')
         | Some (uri, rest) \<Rightarrow>
        (case split_ascii_word rest of
           None \<Rightarrow> Inl (InvalidRequest ''missing version'')
         | Some (vers, rest) \<Rightarrow>
           if trim_ascii rest \<noteq> [] then Inl (InvalidRequest ''extra request line fields'')
           else if \<not> method_from_bytes lib method then Inl (InvalidRequest ''invalid method'')
           else if from_utf8 uri = None then Inl (InvalidRequest ''non-utf8 uri'')
           else
             (case parse_uri lib uri of
                None \<Rightarrow> Inl (InvalidRequest ''invalid uri'')
              | Some u \<Rightarrow>
             (case parse_version_bytes vers of
                None \<Rightarrow> Inl (InvalidRequest ''invalid version'')
              | Some ver \<Rightarrow>
                  and_then (parse_headers_bytes lib (drop (line_end + 2) raw)) (\<lambda>headers.
                  and_then (normalize_cookie_headers lib headers) (\<lambda>headers.
                    Inr \<lparr>rq_method = method, rq_uri = u, rq_version = ver, rq_headers = headers,
                      rq_tls = False\<rparr>)))))))"

definition str_trim_start :: "string \<Rightarrow> string" where
  "str_trim_start s = strip_ws (length s) ws_prefix s"

definition parse_response_head :: "http_lib \<Rightarrow> string \<Rightarrow> http_error + response_head" where
  "parse_response_head lib raw =
     (if from_utf8 raw = None then Inl (InvalidResponse ''non-utf8'')
      else
        (let lines = split_str CRLF raw
         in case split_once (CHR '' '') (hd lines) of
              None \<Rightarrow> Inl (InvalidResponse ''missing status code'')
            | Some (vers, text) \<Rightarrow>
                (let status_text = str_trim_start text;
                     code = (case split_once (CHR '' '') status_text of None \<Rightarrow> status_text | Some (c, _) \<Rightarrow> c)
                 in case parse_version vers of
                      None \<Rightarrow> Inl (InvalidResponse ''invalid version'')
                    | Some ver \<Rightarrow>
                   (case parse_uint 10 65536 code of
                      None \<Rightarrow> Inl (InvalidResponse ''invalid status code'')
                    | Some status \<Rightarrow>
                        if \<not> status_from_u16 lib status then Inl (InvalidResponse ''invalid status code'')
                        else
                          and_then (parse_headers lib (tl lines) []) (\<lambda>headers.
                            Inr \<lparr>rs_status = status, rs_status_text = status_text, rs_version = ver,
                              rs_headers = headers\<rparr>)))))"

definition encode_request_head :: "request_head \<Rightarrow> string" where
  "encode_request_head head =
     rq_method head @ '' '' @ rq_uri head @ '' '' @ version_bytes (rq_version head) @ CRLF
       @ concat (map (\<lambda>(name, value). name @ '': '' @ value @ CRLF) (hm_iter (rq_headers head)))
       @ CRLF"

definition request_body_from_headers :: "http_lib \<Rightarrow> request_head \<Rightarrow> body_framing" where
  "request_body_from_headers lib head =
     (if has_chunked lib (rq_headers head) then BChunked 0 False False False
      else
        case content_length lib (rq_headers head) of
          Some len \<Rightarrow> if len = 0 then BNone else BFixed len
        | None \<Rightarrow> BNone)"

definition response_body_from_headers :: "http_lib \<Rightarrow> response_head \<Rightarrow> body_framing" where
  "response_body_from_headers lib head =
     (if is_informational (rs_status head) \<or> rs_status head = 204 \<or> rs_status head = 304 then BNone
      else if has_chunked lib (rs_headers head) then BChunked 0 False False False
      else
        case content_length lib (rs_headers head) of
          Some len \<Rightarrow> if len = 0 then BNone else BFixed len
        | None \<Rightarrow> BEof False)"

definition is_websocket_upgrade_request :: "http_lib \<Rightarrow> request_head \<Rightarrow> bool" where
  "is_websocket_upgrade_request lib head =
     (header_contains_token lib (rq_headers head) ''connection'' ''upgrade''
       \<and> header_eq_ignore_case lib (rq_headers head) ''upgrade'' ''websocket'')"

definition is_websocket_upgrade_response :: "response_head \<Rightarrow> bool" where
  "is_websocket_upgrade_response head = (rs_status head = 101)"

subsection \<open>The fast path for fixed-length responses\<close>

record raw_fixed =
  rf_status :: nat
  rf_can_reuse :: bool
  rf_head :: string
  rf_body :: body_framing

record raw_state =
  rw_length :: "nat option"
  rw_close :: bool
  rw_out :: string

definition raw_line :: "string \<Rightarrow> raw_state \<Rightarrow> http_error + raw_state" where
  "raw_line line st =
     (case split_once (CHR '':'') line of
        None \<Rightarrow> Inl InvalidHeader
      | Some (n, v) \<Rightarrow>
          (let name = trim_ascii n;
               value = trim_ascii v;
               st1 = (if header_name_eq name ''connection''
                      then st\<lparr>rw_close := header_value_has_token value ''close''\<rparr> else st)
           in and_then
                (if header_name_eq name ''content-length'' then
                   (case parse_u64_ascii value of
                      None \<Rightarrow> Inl InvalidHeader
                    | Some len \<Rightarrow> Inr (st1\<lparr>rw_length := Some len\<rparr>))
                 else Inr st1)
                (\<lambda>st2. if is_hop_header_name name then Inr st2
                   else Inr (st2\<lparr>rw_out := rw_out st2 @ line @ CRLF\<rparr>))))"

function raw_lines :: "string \<Rightarrow> raw_state \<Rightarrow> http_error + raw_state" where
  "raw_lines raw st =
     (if raw = [] then Inr st
      else
        case next_line raw of (line, rest) \<Rightarrow>
          if line = [] then raw_lines rest st
          else case raw_line line st of Inl e \<Rightarrow> Inl e | Inr st' \<Rightarrow> raw_lines rest st')"
  by pat_completeness auto
termination
  by (relation "measure (\<lambda>(raw, _). length raw)") (auto dest: next_line_shorter sym)

declare raw_lines.simps [simp del]

definition raw_fixed_response :: "string \<Rightarrow> http_error + raw_fixed option" where
  "raw_fixed_response raw =
     (let line_end = (case find_sub CRLF raw of None \<Rightarrow> length raw | Some i \<Rightarrow> i);
          status_line = take line_end raw;
          parts = split_on (CHR '' '') status_line
      in case find (\<lambda>part. part \<noteq> []) (tl parts) of
           None \<Rightarrow> Inl (InvalidResponse ''missing status'')
         | Some code \<Rightarrow>
             if length code \<noteq> 3 \<or> \<not> list_all (\<lambda>c. 48 \<le> byte_val c \<and> byte_val c \<le> 57) code
             then Inl (InvalidResponse ''invalid status'')
             else
               (let status = (byte_val (code ! 0) - 48) * 100 + (byte_val (code ! 1) - 48) * 10
                      + (byte_val (code ! 2) - 48)
                in if hd parts \<noteq> ''HTTP/1.1'' \<or> \<not> raw_status_allows_body status then Inr None
                   else
                     and_then
                       (raw_lines (drop (line_end + 2) raw)
                          \<lparr>rw_length = None, rw_close = False, rw_out = status_line @ CRLF\<rparr>)
                       (\<lambda>st. case rw_length st of
                          None \<Rightarrow> Inr None
                        | Some len \<Rightarrow>
                            if len = 0 then Inr None
                            else Inr (Some \<lparr>rf_status = status, rf_can_reuse = \<not> rw_close st,
                              rf_head = rw_out st @ CRLF, rf_body = BFixed len\<rparr>))))"

subsection \<open>Lines\<close>

lemma length_CRLF [simp]: "length CRLF = 2" "CRLF \<noteq> []"
  by (simp_all add: CRLF_def)

definition cr_free :: "string \<Rightarrow> bool" where
  "cr_free l \<longleftrightarrow> CHR 0x0D \<notin> set l"

lemma find_crlf_first: "cr_free l \<Longrightarrow> find_sub CRLF (l @ CRLF @ r) = Some (length l)"
  by (induction l) (auto simp: cr_free_def CRLF_def starts_with_def)

lemma find_crlf_none: "cr_free l \<Longrightarrow> find_sub CRLF l = None"
  by (induction l) (auto simp: cr_free_def CRLF_def starts_with_def)

lemma next_line_crlf: "cr_free l \<Longrightarrow> next_line (l @ CRLF @ r) = (l, r)"
  by (simp add: next_line_def find_crlf_first)

lemma next_line_last: "cr_free l \<Longrightarrow> next_line l = (l, [])"
  by (simp add: next_line_def find_crlf_none)

text \<open>The lines of a text: splitting it at line ends, which \<open>next_line\<close> does one by one.\<close>

definition crlf_lines :: "string \<Rightarrow> string list" where
  "crlf_lines raw = split_str CRLF raw"

lemma crlf_lines_next:
  "crlf_lines raw =
     (case find_sub CRLF raw of None \<Rightarrow> [raw] | Some i \<Rightarrow> fst (next_line raw) # crlf_lines (snd (next_line raw)))"
  unfolding crlf_lines_def
  by (subst split_str.simps) (auto simp: next_line_def split: option.split)

lemma crlf_lines_one: "cr_free l \<Longrightarrow> crlf_lines l = [l]"
  by (subst crlf_lines_next) (simp add: find_crlf_none)

lemma crlf_lines_more: "cr_free l \<Longrightarrow> crlf_lines (l @ CRLF @ r) = l # crlf_lines r"
  by (subst crlf_lines_next) (simp add: find_crlf_first next_line_crlf)

lemma crlf_lines_join:
  "ls \<noteq> [] \<Longrightarrow> \<forall>l \<in> set ls. cr_free l \<Longrightarrow> crlf_lines (join_with CRLF ls) = ls"
proof (induction ls)
  case (Cons l ls)
  then show ?case
    by (cases "ls = []") (simp_all add: crlf_lines_one join_with_Cons crlf_lines_more)
qed simp

subsection \<open>Header maps and their iteration\<close>

definition hm_wf :: "header_map \<Rightarrow> bool" where
  "hm_wf m \<longleftrightarrow> distinct (map fst m) \<and> (\<forall>(n, vs) \<in> set m. vs \<noteq> [])"

lemma hm_append_values:
  assumes "n \<notin> set (map fst m)"
  shows "fold (\<lambda>v. hm_append n v) vs (m @ [(n, us)]) = m @ [(n, us @ vs)]"
proof (induction vs arbitrary: us)
  case (Cons v vs)
  have "map_of m n = None" using assms by (simp add: map_of_eq_None_iff)
  then have "hm_append n v (m @ [(n, us)]) = m @ [(n, us @ [v])]"
    using assms by (simp add: hm_append_def hm_get_all_def store_get_def store_put_def map_add_def)
      (induction m, auto)
  with Cons show ?case by simp
qed simp

lemma hm_append_group:
  assumes "n \<notin> set (map fst m)" and "vs \<noteq> []"
  shows "fold (\<lambda>(n, v). hm_append n v) (map (Pair n) vs) m = m @ [(n, vs)]"
proof -
  obtain v us where vs: "vs = v # us" using assms(2) by (cases vs) auto
  have "map_of m n = None" using assms by (simp add: map_of_eq_None_iff)
  then have "hm_append n v m = m @ [(n, [v])]"
    using assms(1) by (simp add: hm_append_def hm_get_all_def store_get_def store_put_def)
      (induction m, auto)
  then show ?thesis using hm_append_values [OF assms(1), of us "[v]"] by (simp add: vs fold_map comp_def)
qed

lemma hm_rebuild_aux:
  assumes "hm_wf (m @ m')"
  shows "fold (\<lambda>(n, v). hm_append n v) (hm_iter m') m = m @ m'"
  using assms
proof (induction m' arbitrary: m)
  case Nil
  then show ?case by (simp add: hm_iter_def)
next
  case (Cons nv m')
  obtain n vs where nv: "nv = (n, vs)" by (cases nv)
  have "n \<notin> set (map fst m)" "vs \<noteq> []" using Cons.prems by (auto simp: hm_wf_def nv)
  note group = hm_append_group [OF this]
  have "hm_wf ((m @ [(n, vs)]) @ m')" using Cons.prems by (simp add: nv)
  from Cons.IH [OF this] group show ?case by (simp add: hm_iter_def nv)
qed

lemma hm_rebuild: "hm_wf m \<Longrightarrow> fold (\<lambda>(n, v). hm_append n v) (hm_iter m) [] = m"
  using hm_rebuild_aux [of "[]" m] by simp

subsection \<open>Parsing what was encoded\<close>

definition clean_word :: "string \<Rightarrow> bool" where
  "clean_word w \<longleftrightarrow> w \<noteq> [] \<and> (\<forall>c \<in> set w. \<not> is_ascii_whitespace c)"

definition field_ok :: "http_lib \<Rightarrow> string \<times> string \<Rightarrow> bool" where
  "field_ok lib = (\<lambda>(n, v). clean_word n \<and> CHR '':'' \<notin> set n \<and> name_from_bytes lib n = Some n
     \<and> trim_ascii v = v \<and> cr_free v \<and> value_from_bytes lib v)"

definition header_line :: "string \<times> string \<Rightarrow> string" where
  "header_line = (\<lambda>(n, v). n @ '': '' @ v)"

lemma ws_chars [simp]: "is_ascii_whitespace (CHR '' '')" "is_ascii_whitespace (CHR 0x0D)" "\<not> is_ascii_whitespace (CHR '':'')"
  by (simp_all add: is_ascii_whitespace_def byte_val_def)

lemma dropWhile_clean: "clean_word w \<Longrightarrow> dropWhile is_ascii_whitespace (w @ r) = w @ r"
  by (cases w) (auto simp: clean_word_def)

lemma trim_clean [simp]: "clean_word w \<Longrightarrow> trim_ascii w = w"
  using dropWhile_clean [of w "[]"] dropWhile_clean [of "rev w" "[]"]
  by (auto simp: trim_ascii_def trim_ascii_start_def clean_word_def)

lemma trim_space [simp]: "trim_ascii (CHR '' '' # v) = trim_ascii v"
  by (simp add: trim_ascii_def trim_ascii_start_def)

lemma clean_cr_free: "clean_word w \<Longrightarrow> cr_free w"
  by (auto simp: clean_word_def cr_free_def)

lemma header_line_cr_free: "field_ok lib f \<Longrightarrow> cr_free (header_line f) \<and> header_line f \<noteq> []"
  using clean_cr_free by (cases f) (auto simp: field_ok_def header_line_def cr_free_def)

lemma split_header_line: "field_ok lib (n, v) \<Longrightarrow> split_once (CHR '':'') (header_line (n, v)) = Some (n, CHR '' '' # v)"
  by (simp add: header_line_def field_ok_def split_once_append)

lemma parse_header_line:
  assumes f: "field_ok lib (n, v)" and nl: "next_line raw = (header_line (n, v), rest)" and ne: "raw \<noteq> []"
  shows "parse_headers_loop lib raw m = parse_headers_loop lib rest (hm_append n v m)"
proof -
  have w: "clean_word n" "trim_ascii v = v" using f by (auto simp: field_ok_def)
  then have "n \<noteq> []" by (simp add: clean_word_def)
  then show ?thesis
    using f w header_line_cr_free [OF f]
    by (subst parse_headers_loop.simps) (simp add: ne nl split_header_line [OF f] field_ok_def)
qed

lemma parse_header_lines:
  "\<forall>f \<in> set hs. field_ok lib f \<Longrightarrow>
     parse_headers_loop lib (join_with CRLF (map header_line hs)) m = Inr (fold (\<lambda>(n, v). hm_append n v) hs m)"
proof (induction hs arbitrary: m)
  case Nil
  then show ?case by (simp add: parse_headers_loop.simps)
next
  case (Cons f hs)
  obtain n v where f: "f = (n, v)" by (cases f)
  have ok: "field_ok lib (n, v)" and line: "cr_free (header_line (n, v))" "header_line (n, v) \<noteq> []"
    using Cons.prems header_line_cr_free [of lib f] by (simp_all add: f)
  show ?case
  proof (cases "hs = []")
    case True
    have "parse_headers_loop lib (header_line (n, v)) m = parse_headers_loop lib [] (hm_append n v m)"
      by (rule parse_header_line [OF ok next_line_last [OF line(1)] line(2)])
    then show ?thesis by (simp add: f True parse_headers_loop.simps [of lib "[]"])
  next
    case False
    have "parse_headers_loop lib (header_line (n, v) @ CRLF @ join_with CRLF (map header_line hs)) m =
        parse_headers_loop lib (join_with CRLF (map header_line hs)) (hm_append n v m)"
      by (rule parse_header_line [OF ok next_line_crlf [OF line(1)]]) simp
    then show ?thesis using Cons False by (simp add: f join_with_Cons)
  qed
qed

definition request_line :: "request_head \<Rightarrow> string" where
  "request_line h = rq_method h @ '' '' @ rq_uri h @ '' '' @ version_bytes (rq_version h)"

definition request_text :: "request_head \<Rightarrow> string" where
  "request_text h = join_with CRLF (request_line h # map header_line (hm_iter (rq_headers h)))"

definition head_ok :: "http_lib \<Rightarrow> request_head \<Rightarrow> bool" where
  "head_ok lib h \<longleftrightarrow> clean_word (rq_method h) \<and> method_from_bytes lib (rq_method h)
     \<and> clean_word (rq_uri h) \<and> from_utf8 (rq_uri h) \<noteq> None \<and> parse_uri lib (rq_uri h) = Some (rq_uri h)
     \<and> hm_wf (rq_headers h) \<and> (\<forall>f \<in> set (hm_iter (rq_headers h)). field_ok lib f)
     \<and> length (hm_get_all (rq_headers h) ''cookie'') \<le> 1 \<and> \<not> rq_tls h"

lemma join_lines_end: "ls \<noteq> [] \<Longrightarrow> concat (map (\<lambda>l. l @ CRLF) ls) = join_with CRLF ls @ CRLF"
proof (induction ls)
  case (Cons l ls)
  then show ?case by (cases "ls = []") (simp_all add: join_with_Cons)
qed simp

lemma encode_request_text: "encode_request_head h = request_text h @ CRLF @ CRLF"
proof -
  have "concat (map (\<lambda>(name, value). name @ '': '' @ value @ CRLF) hs) = concat (map (\<lambda>l. l @ CRLF) (map header_line hs))"
    for hs by (induction hs) (auto simp: header_line_def)
  then have "encode_request_head h =
      concat (map (\<lambda>l. l @ CRLF) (request_line h # map header_line (hm_iter (rq_headers h)))) @ CRLF"
    by (simp add: encode_request_head_def request_line_def)
  moreover have "concat (map (\<lambda>l. l @ CRLF) (request_line h # map header_line (hm_iter (rq_headers h)))) =
      request_text h @ CRLF"
    unfolding request_text_def by (rule join_lines_end) simp
  ultimately show ?thesis by (simp only: append_assoc)
qed

lemma version_clean: "clean_word (version_bytes v)" "parse_version_bytes (version_bytes v) = Some v"
  by (cases v; simp add: clean_word_def is_ascii_whitespace_def byte_val_def version_bytes_def parse_version_bytes_def)+

lemma split_word: "clean_word w \<Longrightarrow> r = [] \<or> is_ascii_whitespace (hd r) \<Longrightarrow> split_ascii_word (w @ r) = Some (w, r)"
  using dropWhile_clean [of w r]
  by (cases r) (auto simp: split_ascii_word_def trim_ascii_start_def clean_word_def Let_def
      takeWhile_append2 dropWhile_append2)

lemma split_word_space: "split_ascii_word (CHR '' '' # r) = split_ascii_word r"
  by (simp add: split_ascii_word_def trim_ascii_start_def)

lemma request_line_cr_free: "head_ok lib h \<Longrightarrow> cr_free (request_line h) \<and> request_line h \<noteq> []"
  using clean_cr_free version_clean(1) [of "rq_version h"]
  by (auto simp: head_ok_def request_line_def cr_free_def)

lemma request_text_parts:
  assumes "head_ok lib h"
  shows "(case find_sub CRLF (request_text h) of None \<Rightarrow> length (request_text h) | Some i \<Rightarrow> i) = length (request_line h)"
    and "take (length (request_line h)) (request_text h) = request_line h"
    and "drop (length (request_line h) + 2) (request_text h) =
      join_with CRLF (map header_line (hm_iter (rq_headers h)))"
  using request_line_cr_free [OF assms]
  by (cases "hm_iter (rq_headers h) = []";
      simp add: request_text_def join_with_Cons find_crlf_first find_crlf_none)+

lemma parse_request_text:
  assumes "head_ok lib h"
  shows "parse_request_head lib (request_text h) = Inr h"
proof -
  have words: "split_ascii_word (request_line h) = Some (rq_method h, CHR '' '' # rq_uri h @ CHR '' '' # version_bytes (rq_version h))"
    "split_ascii_word (CHR '' '' # rq_uri h @ CHR '' '' # version_bytes (rq_version h)) =
       Some (rq_uri h, CHR '' '' # version_bytes (rq_version h))"
    "split_ascii_word (CHR '' '' # version_bytes (rq_version h)) = Some (version_bytes (rq_version h), [])"
    using assms version_clean(1) [of "rq_version h"] split_word [of "version_bytes (rq_version h)" "[]"]
    by (simp_all add: request_line_def head_ok_def split_word_space split_word)
  have "parse_headers_bytes lib (join_with CRLF (map header_line (hm_iter (rq_headers h)))) = Inr (rq_headers h)"
    using assms by (simp add: parse_headers_bytes_def parse_header_lines head_ok_def hm_rebuild)
  moreover have "normalize_cookie_headers lib (rq_headers h) = Inr (rq_headers h)"
    using assms by (auto simp: normalize_cookie_headers_def head_ok_def split: list.split)
  moreover have "trim_ascii [] = []" by (simp add: trim_ascii_def trim_ascii_start_def)
  moreover have "\<lparr>rq_method = rq_method h, rq_uri = rq_uri h, rq_version = rq_version h,
      rq_headers = rq_headers h, rq_tls = False\<rparr> = h"
    using assms by (cases h) (simp add: head_ok_def)
  ultimately show ?thesis
    using assms
    by (simp add: parse_request_head_def Let_def request_text_parts [OF assms]
        request_text_parts(3) [OF assms, simplified] words version_clean(2) head_ok_def)
qed

subsection \<open>The two notions of trimming\<close>

lemma is_ascii_whitespace_cases:
  assumes "is_ascii_whitespace c"
  shows "c \<in> {CHR 0x09, CHR 0x0A, CHR 0x0C, CHR 0x0D, CHR '' ''}"
proof -
  have "byte_val c \<in> byte_val ` {CHR 0x09, CHR 0x0A, CHR 0x0C, CHR 0x0D, CHR '' ''}"
    using assms by (simp add: is_ascii_whitespace_def byte_val_def)
  then show ?thesis by (auto simp: byte_val_inject)
qed

lemma ws_shape:
  assumes "w \<in> set ws_prefix"
  shows "length w = 1 \<or> w \<noteq> [] \<and> 128 \<le> byte_val (hd w) \<and> 128 \<le> byte_val (last w)"
  using assms by (auto simp: ws_prefix_def ws_encodings_def byte_val_char_of)

lemma ws_singletons:
  assumes "is_ascii_whitespace c"
  shows "[c] \<in> set ws_prefix"
proof -
  have "list_all (\<lambda>c. [c] \<in> set ws_prefix) [CHR 0x09, CHR 0x0A, CHR 0x0C, CHR 0x0D, CHR '' '']" by code_simp
  then show ?thesis using is_ascii_whitespace_cases [OF assms] by (auto simp: list_all_iff)
qed

lemma find_space:
  assumes "is_ascii_whitespace c" and "ws \<in> {ws_prefix, map rev ws_prefix}"
  shows "find (starts_with (c # s)) ws = Some [c]"
proof -
  have "[c] \<in> set ws" using ws_singletons [OF assms(1)] assms(2) by (force simp: image_iff)
  then have "find (starts_with (c # s)) ws \<noteq> None" by (auto simp: find_None_iff starts_with_def)
  then obtain w where f: "find (starts_with (c # s)) ws = Some w" by blast
  then have w: "w \<in> set ws" "starts_with (c # s) w" by (auto simp: find_Some_iff)
  have "byte_val c < 128" using assms(1) by (auto simp: is_ascii_whitespace_def)
  moreover have "length w = 1 \<or> w \<noteq> [] \<and> 128 \<le> byte_val (hd w)"
  proof -
    obtain u where "u \<in> set ws_prefix" "w = u \<or> w = rev u" using w(1) assms(2) by auto
    with ws_shape [of u] show ?thesis by (auto simp: hd_rev)
  qed
  ultimately have "w = [c]"
    using w(2) by (cases w) (auto simp: starts_with_def)
  with f show ?thesis by simp
qed

lemma strip_ws_spaces:
  assumes "ws \<in> {ws_prefix, map rev ws_prefix}"
  shows "\<forall>c \<in> set a. is_ascii_whitespace c \<Longrightarrow> length a \<le> n \<Longrightarrow>
    strip_ws n ws (a @ t) = strip_ws (n - length a) ws t"
proof (induction a arbitrary: n)
  case (Cons c a)
  then obtain k where "n = Suc k" by (cases n) auto
  with Cons assms show ?case using find_space [of c ws "a @ t"] by simp
qed simp

lemma strip_ws_graphic:
  assumes "ws \<in> {ws_prefix, map rev ws_prefix}" and "t \<noteq> []" and "graphic (hd t)"
  shows "strip_ws n ws t = t"
proof (rule strip_ws_none, rule ballI)
  fix w assume "w \<in> set ws"
  then obtain u where "u \<in> set ws_prefix" "w = u \<or> w = rev u" using assms(1) by auto
  then have "w \<noteq> [] \<and> \<not> graphic (hd w)" using ws_not_graphic [of u] by (auto simp: hd_rev)
  then show "\<not> starts_with t w" using assms(2,3) by (cases w; cases t) (auto simp: starts_with_def)
qed

lemma str_trim_start_pad:
  assumes "\<forall>c \<in> set a. is_ascii_whitespace c" and "t \<noteq> []" and "graphic (hd t)"
  shows "str_trim_start (a @ t) = t"
  using assms strip_ws_graphic [of ws_prefix t]
  by (simp add: str_trim_start_def strip_ws_spaces [of ws_prefix a])

lemma str_trim_pad:
  assumes "\<forall>c \<in> set a. is_ascii_whitespace c" and "\<forall>c \<in> set b. is_ascii_whitespace c"
    and "t \<noteq> []" and "graphic (hd t)" and "graphic (last t)"
  shows "str_trim (a @ t @ b) = t"
proof -
  have "strip_ws (length (a @ t @ b)) ws_prefix (a @ t @ b) = t @ b"
    using assms strip_ws_graphic [of ws_prefix "t @ b"] strip_ws_spaces [of ws_prefix a "length (a @ t @ b)" "t @ b"]
    by simp
  moreover have "strip_ws (length (t @ b)) (map rev ws_prefix) (rev (t @ b)) = rev t"
    using assms strip_ws_graphic [of "map rev ws_prefix" "rev t"]
      strip_ws_spaces [of "map rev ws_prefix" "rev b" "length (t @ b)" "rev t"]
    by (simp add: hd_rev)
  ultimately show ?thesis by (simp add: str_trim_def Let_def)
qed

lemma trim_ascii_decomp:
  obtains a b where "s = a @ trim_ascii s @ b" and "\<forall>c \<in> set a. is_ascii_whitespace c" and "\<forall>c \<in> set b. is_ascii_whitespace c"
proof
  let ?d = "dropWhile is_ascii_whitespace s" and ?w = "takeWhile is_ascii_whitespace"
  have "?d = trim_ascii s @ rev (?w (rev ?d))"
    unfolding trim_ascii_def trim_ascii_start_def rev_append [symmetric] takeWhile_dropWhile_id by simp
  then show "s = ?w s @ trim_ascii s @ rev (?w (rev ?d))"
    using takeWhile_dropWhile_id [of is_ascii_whitespace s] by metis
qed (auto dest: set_takeWhileD)

lemma trim_agree:
  assumes "trim_ascii s \<noteq> []" and "graphic (hd (trim_ascii s))" and "graphic (last (trim_ascii s))"
  shows "str_trim s = trim_ascii s"
proof -
  obtain a b where s: "s = a @ trim_ascii s @ b"
    and "\<forall>c \<in> set a. is_ascii_whitespace c" "\<forall>c \<in> set b. is_ascii_whitespace c"
    by (rule trim_ascii_decomp)
  then have "str_trim (a @ trim_ascii s @ b) = trim_ascii s" using assms by (intro str_trim_pad)
  with s show ?thesis by simp
qed

subsection \<open>The fast path line by line\<close>

fun raw_fold :: "string list \<Rightarrow> raw_state \<Rightarrow> http_error + raw_state" where
  "raw_fold [] st = Inr st"
| "raw_fold (l # ls) st = (if l = [] then raw_fold ls st else and_then (raw_line l st) (raw_fold ls))"

lemma raw_lines_fold: "raw_lines raw st = raw_fold (crlf_lines raw) st"
proof (induction raw st rule: raw_lines.induct)
  case (1 raw st)
  show ?case
  proof (cases "raw = []")
    case True
    then show ?thesis by (simp add: raw_lines.simps crlf_lines_next)
  next
    case False
    obtain line rest where nl: "next_line raw = (line, rest)" by (cases "next_line raw")
    have "raw_fold (crlf_lines raw) st = raw_fold (line # crlf_lines rest) st"
      using nl by (subst crlf_lines_next)
        (auto simp: next_line_def crlf_lines_next [of "[]"] and_then_def split: option.splits sum.splits)
    then show ?thesis
      using 1 False nl by (subst raw_lines.simps) (auto simp: and_then_def split: sum.splits)
  qed
qed

definition forwarded :: "string \<Rightarrow> bool" where
  "forwarded l \<longleftrightarrow> l \<noteq> []
     \<and> (case split_once (CHR '':'') l of None \<Rightarrow> False | Some (n, _) \<Rightarrow> \<not> is_hop_header_name (trim_ascii n))"

lemma raw_line_out:
  "raw_line l st = Inr st' \<Longrightarrow> l \<noteq> [] \<Longrightarrow> rw_out st' = rw_out st @ (if forwarded l then l @ CRLF else [])"
  by (auto simp: raw_line_def forwarded_def Let_def and_then_Inr split: option.splits if_splits)

lemma raw_fold_out:
  "raw_fold ls st = Inr st' \<Longrightarrow> rw_out st' = rw_out st @ concat (map (\<lambda>l. l @ CRLF) (filter forwarded ls))"
proof (induction ls arbitrary: st)
  case (Cons l ls)
  have "\<not> forwarded []" by (simp add: forwarded_def)
  with Cons show ?case
    by (cases "l = []") (auto simp: and_then_Inr dest!: raw_line_out)
qed simp

lemma head_line:
  assumes "le = (case find_sub CRLF raw of None \<Rightarrow> length raw | Some i \<Rightarrow> i)"
  shows "take le raw = hd (crlf_lines raw)"
    and "raw_lines (drop (le + 2) raw) st = raw_fold (tl (crlf_lines raw)) st"
  using assms crlf_lines_next [of raw]
  by (auto simp: raw_lines_fold next_line_def crlf_lines_next [of "[]"] split: option.splits)

lemma raw_fixed_responseD:
  assumes "raw_fixed_response raw = Inr (Some r)"
  obtains code st where
    "find (\<lambda>p. p \<noteq> []) (tl (split_on (CHR '' '') (hd (crlf_lines raw)))) = Some code"
    "length code = 3" "list_all (\<lambda>c. 48 \<le> byte_val c \<and> byte_val c \<le> 57) code"
    "rf_status r = (byte_val (code ! 0) - 48) * 100 + (byte_val (code ! 1) - 48) * 10 + (byte_val (code ! 2) - 48)"
    "hd (split_on (CHR '' '') (hd (crlf_lines raw))) = ''HTTP/1.1''" "raw_status_allows_body (rf_status r)"
    "raw_fold (tl (crlf_lines raw)) \<lparr>rw_length = None, rw_close = False, rw_out = hd (crlf_lines raw) @ CRLF\<rparr> = Inr st"
    "rf_head r = rw_out st @ CRLF" "\<exists>len. rw_length st = Some len \<and> len \<noteq> 0 \<and> rf_body r = BFixed len"
    "rf_can_reuse r = (\<not> rw_close st)"
proof -
  define le where "le = (case find_sub CRLF raw of None \<Rightarrow> length raw | Some i \<Rightarrow> i)"
  show ?thesis
    using assms that
    unfolding raw_fixed_response_def Let_def le_def [symmetric] head_line [OF le_def]
    by (auto simp: and_then_Inr split: option.splits if_splits)
qed

subsection \<open>The fast path agrees with the parser\<close>

text \<open>
  What the code relies on of the \<open>http\<close> crate: an accepted header name is the input in lower
  case, and a value of graphic characters has a string form.
\<close>

definition lib_ok :: "http_lib \<Rightarrow> bool" where
  "lib_ok lib \<longleftrightarrow> (\<forall>n name. name_from_bytes lib n = Some name \<longrightarrow> name = to_ascii_lowercase n)
     \<and> (\<forall>v. (\<forall>c \<in> set v. graphic c) \<longrightarrow> value_to_str lib v)"

lemma header_name_eq_lower: "header_name_eq n e \<longleftrightarrow> to_ascii_lowercase n = to_ascii_lowercase e"
proof -
  have "header_name_eq n e \<longleftrightarrow> list_all2 (\<lambda>a b. to_ascii_lowercase1 a = to_ascii_lowercase1 b) n e"
    by (simp add: header_name_eq_def list_all2_iff)
  then show ?thesis by (auto simp: list_all2_conv_all_nth to_ascii_lowercase_def list_eq_iff_nth_eq)
qed

lemma lowercase_graphic: "graphic (to_ascii_lowercase1 c) \<Longrightarrow> graphic c"
  by (auto simp: graphic_def to_ascii_lowercase1_def byte_val_char_of split: if_splits)

lemma lowercase_ends:
  assumes "to_ascii_lowercase t = e" and "\<forall>c \<in> set e. graphic c" and "e \<noteq> []"
  shows "t \<noteq> [] \<and> graphic (hd t) \<and> graphic (last t)"
proof -
  have t: "t \<noteq> []" using assms(1,3) by (auto simp: to_ascii_lowercase_def)
  have "to_ascii_lowercase1 (hd t) \<in> set e" "to_ascii_lowercase1 (last t) \<in> set e"
    using t assms(1) by (auto simp: to_ascii_lowercase_def)
  with assms(2) t show ?thesis by (blast intro: lowercase_graphic)
qed

lemma known_names:
  "to_ascii_lowercase ''content-length'' = ''content-length''" "\<forall>c \<in> set ''content-length''. graphic c"
  by (simp_all add: to_ascii_lowercase_def to_ascii_lowercase1_def graphic_def byte_val_def)

lemma parse_digits_graphic:
  "parse_digits base bound acc s = Some k \<Longrightarrow> \<forall>c \<in> set s. graphic c \<and> c \<noteq> CHR ''+''"
proof (induction s arbitrary: acc)
  case (Cons c s)
  then have "digit_val base c \<noteq> None" by (auto split: option.splits)
  then have "graphic c \<and> c \<noteq> CHR ''+''"
    by (auto simp: digit_val_def graphic_def byte_val_def Let_def split: if_splits)
  with Cons show ?case by (auto split: option.splits if_splits)
qed simp

lemma length_value:
  assumes "parse_u64_ascii (trim_ascii v) = Some len" and "len \<noteq> 0"
  shows "str_trim v = trim_ascii v" and "trim_ascii v \<noteq> []"
proof -
  show ne: "trim_ascii v \<noteq> []" using assms by (auto simp: parse_u64_ascii_def)
  have "\<forall>c \<in> set (trim_ascii v). graphic c"
    using parse_digits_graphic assms(1) unfolding parse_u64_ascii_def by blast
  with ne show "str_trim v = trim_ascii v" by (intro trim_agree) auto
qed

definition tracks :: "raw_state \<Rightarrow> header_map \<Rightarrow> bool" where
  "tracks st m \<longleftrightarrow> (\<forall>len. rw_length st = Some len \<longrightarrow> len \<noteq> 0 \<longrightarrow>
     (\<exists>f \<in> set (hm_get_all m ''content-length''). parse_u64_ascii f = Some len))"

lemma hm_get_all_append: "hm_get_all (hm_append n v m) k = (if k = n then hm_get_all m n @ [v] else hm_get_all m k)"
  by (simp add: hm_get_all_def hm_append_def st.get_put)

lemma tracks_step:
  assumes lib: "lib_ok lib" and raw: "raw_line l st = Inr st'" and tr: "tracks st m"
    and slow: "split_once (CHR '':'') l = Some (n, v)" "name_from_bytes lib (str_trim n) = Some name"
  shows "tracks st' (hm_append name (str_trim v) m)"
proof (cases "header_name_eq (trim_ascii n) ''content-length''")
  case True
  then have "to_ascii_lowercase (trim_ascii n) = ''content-length''"
    using known_names(1) by (simp add: header_name_eq_lower)
  moreover from this have "str_trim n = trim_ascii n"
    using lowercase_ends [OF _ known_names(2)] by (intro trim_agree) simp_all
  ultimately have "name = ''content-length''" using lib slow(2) by (simp add: lib_ok_def)
  moreover have "rw_length st' = parse_u64_ascii (trim_ascii v) \<and> rw_length st' \<noteq> None"
    using raw slow(1) True
    by (auto simp: raw_line_def Let_def and_then_Inr split: option.splits if_splits)
  ultimately show ?thesis
    using length_value [of v] by (auto simp: tracks_def hm_get_all_append)
next
  case False
  then have "rw_length st' = rw_length st"
    using raw slow(1) by (auto simp: raw_line_def Let_def split: if_splits)
  then show ?thesis using tr by (auto simp: tracks_def hm_get_all_append)
qed

lemma tracks_lines:
  assumes "lib_ok lib" and "raw_fold ls st = Inr st'" and "parse_headers lib ls m = Inr m'" and "tracks st m"
    and "[] \<notin> set ls"
  shows "tracks st' m'"
  using assms(2-5)
proof (induction ls arbitrary: st m)
  case (Cons l ls)
  obtain s1 where s1: "raw_line l st = Inr s1" "raw_fold ls s1 = Inr st'"
    using Cons.prems by (auto simp: and_then_Inr)
  obtain n v name where h: "split_once (CHR '':'') l = Some (n, v)" "name_from_bytes lib (str_trim n) = Some name"
    "parse_headers lib ls (hm_append name (str_trim v) m) = Inr m'"
    using Cons.prems by (auto split: option.splits if_splits)
  have "tracks s1 (hm_append name (str_trim v) m)"
    by (rule tracks_step [OF assms(1) s1(1) Cons.prems(3) h(1,2)])
  with Cons.IH [OF s1(2) h(3)] Cons.prems show ?case by simp
qed (use assms in simp)

lemma status_text:
  assumes "hd (split_on (CHR '' '') line) = w" and "find (\<lambda>p. p \<noteq> []) (tl (split_on (CHR '' '') line)) = Some code"
  obtains k rest where "split_once (CHR '' '') line = Some (w, replicate k (CHR '' '') @ code @ rest)"
    and "rest = [] \<or> hd rest = CHR '' ''" and "CHR '' '' \<notin> set code" and "code \<noteq> []"
proof -
  obtain i where i: "i < length (tl (split_on (CHR '' '') line))" "code = tl (split_on (CHR '' '') line) ! i" "code \<noteq> []"
    "\<forall>j < i. tl (split_on (CHR '' '') line) ! j = []"
    using assms(2) by (auto simp: find_Some_iff)
  define ps where "ps = tl (split_on (CHR '' '') line)"
  have ps: "ps = replicate i [] @ code # drop (Suc i) ps"
    using i by (metis (no_types, lifting) Cons_nth_drop_Suc id_take_nth_drop length_replicate nth_equalityI
        nth_replicate nth_take ps_def length_take min.absorb4 append_take_drop_id)
  have parts: "split_on (CHR '' '') line = w # ps"
    using assms(1) split_on_not_Nil [of "CHR '' ''" line] by (metis list.collapse ps_def)
  have free: "CHR '' '' \<notin> set w" "CHR '' '' \<notin> set code"
    using split_on_parts [of _ "CHR '' ''" line] parts ps by (auto, metis append.assoc in_set_conv_decomp list.set_intros(2))
  define rest where "rest = (if drop (Suc i) ps = [] then [] else CHR '' '' # join_with '' '' (drop (Suc i) ps))"
  have "line = join_with '' '' (w # ps)" using join_split [of "CHR '' ''" line] parts by simp
  also have "\<dots> = w @ CHR '' '' # join_with '' '' ps"
    using i(1) unfolding ps_def [symmetric] by (cases ps) (simp_all add: join_with_Cons)
  also have "join_with '' '' ps = replicate i (CHR '' '') @ code @ rest"
  proof -
    have "join_with '' '' (replicate i [] @ code # ds) =
        replicate i (CHR '' '') @ code @ (if ds = [] then [] else CHR '' '' # join_with '' '' ds)" for ds
      by (induction i) (simp_all add: join_with_Cons)
    from this [of "drop (Suc i) ps"] show ?thesis unfolding ps [symmetric] rest_def .
  qed
  finally have "split_once (CHR '' '') line = Some (w, replicate i (CHR '' '') @ code @ rest)"
    using free(1) by (simp add: split_once_append)
  then show ?thesis using that [of i rest] free i(3) by (simp add: rest_def)
qed

lemma three_digits:
  assumes "length code = 3" and "list_all (\<lambda>c. 48 \<le> byte_val c \<and> byte_val c \<le> 57) code"
  shows "parse_uint 10 65536 code =
    Some ((byte_val (code ! 0) - 48) * 100 + (byte_val (code ! 1) - 48) * 10 + (byte_val (code ! 2) - 48))"
proof -
  obtain a b c where code: "code = [a, b, c]"
    using assms(1) by (auto simp: numeral_3_eq_3 length_Suc_conv)
  have d: "48 \<le> byte_val a" "byte_val a \<le> 57" "48 \<le> byte_val b" "byte_val b \<le> 57" "48 \<le> byte_val c" "byte_val c \<le> 57"
    using assms(2) by (simp_all add: code)
  then have "a \<noteq> CHR ''+''" by (auto simp: byte_val_def)
  moreover have "digit_val 10 x = Some (byte_val x - 48)" if "48 \<le> byte_val x" "byte_val x \<le> 57" for x
    using that by (simp add: digit_val_def Let_def)
  ultimately show ?thesis
    using d by (simp add: code parse_uint_def Let_def starts_with_def algebra_simps) linarith
qed

lemma agreed_status:
  assumes "raw_fixed_response raw = Inr (Some r)" and "parse_response_head lib raw = Inr head"
  shows "rs_status head = rf_status r"
proof -
  obtain code where c: "find (\<lambda>p. p \<noteq> []) (tl (split_on (CHR '' '') (hd (crlf_lines raw)))) = Some code"
    "length code = 3" "list_all (\<lambda>c. 48 \<le> byte_val c \<and> byte_val c \<le> 57) code"
    "rf_status r = (byte_val (code ! 0) - 48) * 100 + (byte_val (code ! 1) - 48) * 10 + (byte_val (code ! 2) - 48)"
    "hd (split_on (CHR '' '') (hd (crlf_lines raw))) = ''HTTP/1.1''"
    using assms(1) by (rule raw_fixed_responseD)
  obtain k rest where t: "split_once (CHR '' '') (hd (crlf_lines raw)) =
      Some (''HTTP/1.1'', replicate k (CHR '' '') @ code @ rest)"
    "rest = [] \<or> hd rest = CHR '' ''" "CHR '' '' \<notin> set code" "code \<noteq> []"
    by (rule status_text [OF c(5,1)])
  have "48 \<le> byte_val (hd code) \<and> byte_val (hd code) \<le> 57" using c(3) t(4) by (simp add: list_all_iff)
  then have "graphic (hd (code @ rest))" using t(4) by (simp add: graphic_def)
  then have "str_trim_start (replicate k (CHR '' '') @ code @ rest) = code @ rest"
    using t(4) by (intro str_trim_start_pad) auto
  moreover have "(case split_once (CHR '' '') (code @ rest) of None \<Rightarrow> code @ rest | Some (c, _) \<Rightarrow> c) = code"
    using t(2,3) by (cases rest) (auto simp: split_once_append, auto simp: split_once_def)
  ultimately show ?thesis
    using assms(2) three_digits [OF c(2,3)] c(4) t(1)
    by (auto simp: parse_response_head_def Let_def crlf_lines_def [symmetric] and_then_Inr
        split: if_splits option.splits)
qed

lemma agreed_headers:
  assumes "parse_response_head lib raw = Inr head"
  shows "parse_headers lib (tl (crlf_lines raw)) [] = Inr (rs_headers head)"
  using assms
  by (auto simp: parse_response_head_def Let_def crlf_lines_def and_then_Inr split: if_splits option.splits)

subsection \<open>Properties\<close>

text \<open>The validators of the crate on ASCII messages, for the witnesses.\<close>

definition ascii_lib :: http_lib where
  "ascii_lib = \<lparr>name_from_bytes = (\<lambda>n. if n \<noteq> [] \<and> list_all graphic n then Some (to_ascii_lowercase n) else None),
     value_from_bytes = list_all (\<lambda>c. graphic c \<or> c = CHR '' ''),
     value_from_str = list_all (\<lambda>c. graphic c \<or> c = CHR '' ''),
     value_to_str = list_all (\<lambda>c. graphic c \<or> c = CHR '' ''),
     method_from_bytes = (\<lambda>m. m \<noteq> [] \<and> list_all graphic m),
     parse_uri = (\<lambda>u. if u \<noteq> [] \<and> list_all graphic u then Some u else None),
     status_from_u16 = (\<lambda>n. 100 \<le> n \<and> n \<le> 999)\<rparr>"

lemma ascii_lib_ok: "lib_ok ascii_lib"
  by (auto simp: lib_ok_def ascii_lib_def list_all_iff)

text \<open>The head of a forwarded request parses to the head it was written from: method, target,
  version and every header with its values in order.\<close>

theorem request_head_roundtrip:
  assumes "head_ok lib h"
  shows "\<exists>raw. encode_request_head h = raw @ CRLF @ CRLF \<and> parse_request_head lib raw = Inr h"
  using encode_request_text parse_request_text [OF assms] by blast

definition sample_request :: request_head where
  "sample_request = \<lparr>rq_method = ''GET'', rq_uri = ''/a?b'', rq_version = HTTP_11,
     rq_headers = [(''host'', [''x.y'']), (''accept'', [''a, b'', ''c''])], rq_tls = False\<rparr>"

lemma sample_request_ok: "head_ok ascii_lib sample_request"
  by (simp add: head_ok_def sample_request_def ascii_lib_def clean_word_def field_ok_def hm_wf_def hm_iter_def
      is_ascii_whitespace_def graphic_def byte_val_def from_utf8_def utf8_valid_ascii hm_get_all_def
      store_get_def trim_ascii_def trim_ascii_start_def cr_free_def to_ascii_lowercase_def to_ascii_lowercase1_def)

theorem request_head_roundtrip_witness:
  "\<exists>raw. encode_request_head sample_request = raw @ CRLF @ CRLF \<and> parse_request_head ascii_lib raw = Inr sample_request"
  by (rule request_head_roundtrip [OF sample_request_ok])


definition sample_response :: string where
  "sample_response = ''HTTP/1.1 200 OK'' @ CRLF @ ''Content-Length: 3'' @ CRLF @ ''Connection: close'' @ CRLF @ ''X: y''"

lemma sample_response_lines: "crlf_lines sample_response = [''HTTP/1.1 200 OK'', ''Content-Length: 3'', ''Connection: close'', ''X: y'']"
  using crlf_lines_join [of "[''HTTP/1.1 200 OK'', ''Content-Length: 3'', ''Connection: close'', ''X: y'']"]
  by (simp add: sample_response_def cr_free_def)

lemmas raw_eval = raw_line_def split_once_def trim_ascii_def trim_ascii_start_def is_ascii_whitespace_def
  header_name_eq_lower to_ascii_lowercase_def to_ascii_lowercase1_def header_value_has_token_def
  parse_u64_ascii_def digit_val_def is_hop_header_name_def hop_headers_def byte_val_def raw_status_allows_body_def
  char_of_def bit_Suc_0_iff

lemma sample_response_raw:
  "raw_fixed_response sample_response = Inr (Some \<lparr>rf_status = 200, rf_can_reuse = False,
     rf_head = ''HTTP/1.1 200 OK'' @ CRLF @ ''Content-Length: 3'' @ CRLF @ ''X: y'' @ CRLF @ CRLF, rf_body = BFixed 3\<rparr>)"
  by (simp add: raw_fixed_response_def Let_def head_line [OF refl, simplified] head_line [OF refl] sample_response_lines raw_eval)



lemma str_trim_space: "t \<noteq> [] \<Longrightarrow> graphic (hd t) \<Longrightarrow> graphic (last t) \<Longrightarrow> str_trim (CHR '' '' # t) = t"
  using str_trim_pad [of "'' ''" "[]" t] by simp

lemma str_trim_start_solid: "t \<noteq> [] \<Longrightarrow> graphic (hd t) \<Longrightarrow> str_trim_start t = t"
  using str_trim_start_pad [of "[]" t] by simp

lemmas slow_eval = parse_response_head_def crlf_lines_def [symmetric] split_once_def parse_version_def
  parse_uint_def digit_val_def starts_with_def ascii_lib_def from_utf8_def utf8_valid_ascii graphic_def
  to_ascii_lowercase_def to_ascii_lowercase1_def hm_append_def hm_get_all_def store_get_def store_put_def
  byte_val_def char_of_def bit_Suc_0_iff str_trim_start_solid str_trim_space

lemma sample_response_parsed:
  "parse_response_head ascii_lib sample_response = Inr \<lparr>rs_status = 200, rs_status_text = ''200 OK'', rs_version = HTTP_11,
     rs_headers = [(''content-length'', [''3'']), (''connection'', [''close'']), (''x'', [''y''])]\<rparr>"
proof -
  have "utf8_valid (map byte_val sample_response)"
    by (simp add: sample_response_def utf8_valid_ascii CRLF_def byte_val_def)
  then show ?thesis by (simp add: slow_eval sample_response_lines Let_def)
qed


text \<open>A response with both a transfer coding and a content length.\<close>

definition smuggled_response :: string where
  "smuggled_response = ''HTTP/1.1 200 OK'' @ CRLF @ ''Transfer-Encoding: chunked'' @ CRLF @ ''Content-Length: 5''"

lemma smuggled_lines: "crlf_lines smuggled_response = [''HTTP/1.1 200 OK'', ''Transfer-Encoding: chunked'', ''Content-Length: 5'']"
  using crlf_lines_join [of "[''HTTP/1.1 200 OK'', ''Transfer-Encoding: chunked'', ''Content-Length: 5'']"]
  by (simp add: smuggled_response_def cr_free_def)


end
