(* ===== verification/H1_Conn.thy ===== *)
theory H1_Conn
  imports H1_Head
begin

text \<open>
  HTTP/1.1 connections, the stateful half of \<open>src/src/http/h1.rs\<close>: the parse buffer, the reads
  that fill it, the body state machine, and the loop of \<open>src/src/server.rs\<close> that forwards a
  backend's body to a client.

  The peer is a list of events, one per piece of data that arrives; a read returns the next
  piece, cut to the size asked for, and nothing at the end of the list.  The buffer kept for
  reuse between reads (\<open>scratch\<close>) has no effect on results and is left out.  A writer is the
  text written so far; it does not fail.
\<close>

definition READ_BUF_SIZE :: nat where "READ_BUF_SIZE = 8 * 1024"

definition MAX_HEADER_SIZE :: nat where "MAX_HEADER_SIZE = 64 * 1024"

definition MAX_LINE_SIZE :: nat where "MAX_LINE_SIZE = 8 * 1024"

definition MAX_INTERIM_RESPONSES :: nat where "MAX_INTERIM_RESPONSES = 16"

subsection \<open>The peer\<close>

datatype io_event = Data string | Fail

fun io_read :: "nat \<Rightarrow> io_event list \<Rightarrow> (http_error + string) \<times> io_event list" where
  "io_read n [] = (Inr [], [])"
| "io_read n (Data s # es) =
     (if length s \<le> n then (Inr s, es) else (Inr (take n s), Data (drop n s) # es))"
| "io_read n (Fail # es) = (Inl Io, es)"

fun io_bytes :: "io_event list \<Rightarrow> string" where
  "io_bytes [] = []"
| "io_bytes (Data s # es) = s @ io_bytes es"
| "io_bytes (Fail # es) = io_bytes es"

fun io_size :: "io_event list \<Rightarrow> nat" where
  "io_size [] = 0"
| "io_size (Data s # es) = Suc (length s + io_size es)"
| "io_size (Fail # es) = Suc (io_size es)"

lemma io_read_bytes: "io_read n es = (Inr s, es') \<Longrightarrow> io_bytes es = s @ io_bytes es' \<and> length s \<le> n"
  by (cases "(n, es)" rule: io_read.cases) (auto split: if_splits)

lemma io_read_size:
  "io_read n es = (r, es') \<Longrightarrow> io_size es' \<le> io_size es \<and> (\<forall>s. r = Inr s \<longrightarrow> s \<noteq> [] \<longrightarrow> io_size es' < io_size es)"
  by (cases "(n, es)" rule: io_read.cases) (auto split: if_splits)

subsection \<open>The buffer\<close>

record h1_conn =
  io :: "io_event list option"
  cbuf :: string
  cpos :: nat

definition conn_new :: "io_event list \<Rightarrow> h1_conn" where
  "conn_new es = \<lparr>io = Some es, cbuf = [], cpos = 0\<rparr>"

definition conn_with_buffer :: "io_event list \<Rightarrow> string \<Rightarrow> h1_conn" where
  "conn_with_buffer es b = \<lparr>io = Some es, cbuf = b, cpos = 0\<rparr>"

definition unread :: "h1_conn \<Rightarrow> string" where
  "unread c = drop (cpos c) (cbuf c)"

definition take_io :: "h1_conn \<Rightarrow> (io_event list \<times> string) option \<times> h1_conn" where
  "take_io c =
     (case io c of
        None \<Rightarrow> (None, c)
      | Some es \<Rightarrow>
          (let b = (if cpos c > 0 then drop (cpos c) (cbuf c) else cbuf c)
           in (Some (es, b), c\<lparr>io := None, cbuf := [], cpos := 0\<rparr>)))"

definition consume :: "nat \<Rightarrow> h1_conn \<Rightarrow> h1_conn" where
  "consume n c =
     (let p = cpos c + n
      in if p = length (cbuf c) then c\<lparr>cbuf := [], cpos := 0\<rparr>
         else if p > 4096 \<and> p > length (cbuf c) div 2 then c\<lparr>cbuf := drop p (cbuf c), cpos := 0\<rparr>
         else c\<lparr>cpos := p\<rparr>)"

definition find_crlf :: "h1_conn \<Rightarrow> nat option" where
  "find_crlf c = find_sub CRLF (unread c)"

definition find_double_crlf :: "h1_conn \<Rightarrow> nat option" where
  "find_double_crlf c = find_sub (CRLF @ CRLF) (unread c)"

definition buffered_len :: "h1_conn \<Rightarrow> nat" where
  "buffered_len c = length (cbuf c) - cpos c"

definition chunk_frame :: "bool \<Rightarrow> string \<Rightarrow> string" where
  "chunk_frame rechunk x = (if rechunk then show_base 16 (length x) @ CRLF @ x @ CRLF else x)"

definition drain_buffered_into :: "h1_conn \<Rightarrow> string \<Rightarrow> nat \<Rightarrow> bool \<Rightarrow> string \<times> h1_conn" where
  "drain_buffered_into c out len rechunk =
     (let out1 = (if rechunk then out @ show_base 16 len @ CRLF else out);
          out2 = out1 @ take len (unread c);
          out3 = (if rechunk then out2 @ CRLF else out2)
      in (out3, consume len c))"

definition try_consume_crlf :: "h1_conn \<Rightarrow> (http_error + bool) \<times> h1_conn" where
  "try_consume_crlf c =
     (if buffered_len c < 2 then (Inr False, c)
      else if take 2 (unread c) \<noteq> CRLF then (Inl InvalidChunked, c)
      else (Inr True, consume 2 c))"

definition try_find_line :: "h1_conn \<Rightarrow> http_error + nat option" where
  "try_find_line c =
     (case find_crlf c of
        None \<Rightarrow> if buffered_len c > MAX_LINE_SIZE then Inl LineTooLong else Inr None
      | Some idx \<Rightarrow> if idx > MAX_LINE_SIZE then Inl LineTooLong else Inr (Some idx))"

definition try_skip_line :: "h1_conn \<Rightarrow> (http_error + bool option) \<times> h1_conn" where
  "try_skip_line c =
     (case try_find_line c of
        Inl e \<Rightarrow> (Inl e, c)
      | Inr None \<Rightarrow> (Inr None, c)
      | Inr (Some idx) \<Rightarrow> (Inr (Some (idx = 0)), consume (idx + 2) c))"

definition parse_chunk_size_line :: "string \<Rightarrow> http_error + nat" where
  "parse_chunk_size_line line =
     (if from_utf8 line = None then Inl InvalidChunked
      else
        let size_part = str_trim (hd (split_on (CHR '';'') line))
        in if size_part = [] then Inl InvalidChunked
           else (case parse_uint 16 (2 ^ 64) size_part of None \<Rightarrow> Inl InvalidChunked | Some n \<Rightarrow> Inr n))"

definition try_read_chunk_size :: "h1_conn \<Rightarrow> (http_error + nat option) \<times> h1_conn" where
  "try_read_chunk_size c =
     (case try_find_line c of
        Inl e \<Rightarrow> (Inl e, c)
      | Inr None \<Rightarrow> (Inr None, c)
      | Inr (Some idx) \<Rightarrow>
          (case parse_chunk_size_line (take idx (unread c)) of
             Inl e \<Rightarrow> (Inl e, c)
           | Inr sz \<Rightarrow> (Inr (Some sz), consume (idx + 2) c)))"

definition try_next_response ::
  "http_lib \<Rightarrow> h1_conn \<Rightarrow> (http_error + (response_head \<times> body_framing) option) \<times> h1_conn" where
  "try_next_response lib c =
     (case find_double_crlf c of
        None \<Rightarrow> (if buffered_len c > MAX_HEADER_SIZE then Inl HeadersTooLarge else Inr None, c)
      | Some idx \<Rightarrow>
          (and_then (parse_response_head lib (take idx (unread c)))
             (\<lambda>head. Inr (Some (head, response_body_from_headers lib head))),
           consume (idx + 4) c))"

subsection \<open>Reads\<close>

text \<open>\<open>fill_buf\<close> reads once into the buffer, which is emptied first when all of it is used;
  \<open>read_more\<close> is the same with the default size.\<close>

definition fill_buf :: "nat \<Rightarrow> h1_conn \<Rightarrow> (http_error + nat) \<times> h1_conn" where
  "fill_buf max_read_size c =
     (case io c of
        None \<Rightarrow> (Inl MissingIo, c)
      | Some es \<Rightarrow>
          (let c0 = (if cpos c = length (cbuf c) then c\<lparr>cbuf := [], cpos := 0\<rparr> else c)
           in case io_read (max max_read_size 1) es of
                (Inr s, es') \<Rightarrow> (Inr (length s), c0\<lparr>io := Some es', cbuf := cbuf c0 @ s\<rparr>)
              | (Inl e, es') \<Rightarrow> (Inl e, c0\<lparr>io := Some es'\<rparr>)))"

definition read_more :: "h1_conn \<Rightarrow> (http_error + nat) \<times> h1_conn" where
  "read_more c = fill_buf READ_BUF_SIZE c"

definition read_ahead :: "h1_conn \<Rightarrow> (http_error + nat) \<times> h1_conn" where
  "read_ahead c = read_more c"

definition wait_size :: "h1_conn \<Rightarrow> nat" where
  "wait_size c = (case io c of None \<Rightarrow> 0 | Some es \<Rightarrow> io_size es)"

lemma fill_buf_wait:
  "fill_buf m c = (r, c') \<Longrightarrow> wait_size c' \<le> wait_size c \<and> (\<forall>n. r = Inr n \<longrightarrow> n \<noteq> 0 \<longrightarrow> wait_size c' < wait_size c)"
  by (auto simp: fill_buf_def wait_size_def Let_def split: option.splits prod.splits sum.splits if_splits
      dest!: io_read_size)

lemma read_more_wait: "read_more c = (Inr n, c') \<Longrightarrow> n \<noteq> 0 \<Longrightarrow> wait_size c' < wait_size c"
  unfolding read_more_def using fill_buf_wait by blast

function read_headers :: "h1_conn \<Rightarrow> (http_error + string option) \<times> h1_conn" where
  "read_headers c =
     (case find_double_crlf c of
        Some idx \<Rightarrow> (Inr (Some (take idx (unread c))), consume (idx + 4) c)
      | None \<Rightarrow>
          if buffered_len c > MAX_HEADER_SIZE then (Inl HeadersTooLarge, c)
          else
            case read_more c of
              (Inl e, c') \<Rightarrow> (Inl e, c')
            | (Inr n, c') \<Rightarrow>
                if n = 0 then (if length (cbuf c') = cpos c' then (Inr None, c') else (Inl UnexpectedEof, c'))
                else read_headers c')"
  by pat_completeness auto
termination
  by (relation "measure wait_size") (auto dest!: read_more_wait [OF sym])

function read_line :: "h1_conn \<Rightarrow> (http_error + string option) \<times> h1_conn" where
  "read_line c =
     (case find_crlf c of
        Some idx \<Rightarrow>
          if idx > MAX_LINE_SIZE then (Inl LineTooLong, c)
          else (Inr (Some (take idx (unread c))), consume (idx + 2) c)
      | None \<Rightarrow>
          if buffered_len c > MAX_LINE_SIZE then (Inl LineTooLong, c)
          else
            case read_more c of
              (Inl e, c') \<Rightarrow> (Inl e, c')
            | (Inr n, c') \<Rightarrow>
                if n = 0 then (if length (cbuf c') = cpos c' then (Inr None, c') else (Inl UnexpectedEof, c'))
                else read_line c')"
  by pat_completeness auto
termination
  by (relation "measure wait_size") (auto dest!: read_more_wait [OF sym])

declare read_headers.simps [simp del] read_line.simps [simp del]

text \<open>\<open>read_exact\<close> takes what is buffered and then reads past the buffer.\<close>

function read_exact_loop :: "nat \<Rightarrow> string \<Rightarrow> h1_conn \<Rightarrow> (http_error + string) \<times> h1_conn" where
  "read_exact_loop len out c =
     (if length out \<ge> len then (Inr out, c)
      else if cpos c < length (cbuf c) then
        let to_copy = min (length (cbuf c) - cpos c) (len - length out)
        in read_exact_loop len (out @ take to_copy (unread c)) (consume to_copy c)
      else
        case io c of
          None \<Rightarrow> (Inl MissingIo, c)
        | Some es \<Rightarrow>
            (case io_read (min READ_BUF_SIZE (len - length out)) es of
               (Inl e, es') \<Rightarrow> (Inl e, c\<lparr>io := Some es'\<rparr>)
             | (Inr s, es') \<Rightarrow>
                 if s = [] then (Inl UnexpectedEof, c\<lparr>io := Some es'\<rparr>)
                 else read_exact_loop len (out @ s) (c\<lparr>io := Some es'\<rparr>)))"
  by pat_completeness auto
termination
proof (relation "measure (\<lambda>(len, out, _). len - length out)", goal_cases)
  case (2 len out c x)
  then show ?case by (auto simp: unread_def)
next
  case 3
  then show ?case by (auto simp flip: length_greater_0_conv)
qed simp

declare read_exact_loop.simps [simp del]

definition read_exact :: "nat \<Rightarrow> h1_conn \<Rightarrow> (http_error + string) \<times> h1_conn" where
  "read_exact len c = read_exact_loop len [] c"

definition read_some :: "h1_conn \<Rightarrow> (http_error + string option) \<times> h1_conn" where
  "read_some c =
     (if cpos c < length (cbuf c) then
        let to_copy = min (length (cbuf c) - cpos c) READ_BUF_SIZE
        in (Inr (Some (take to_copy (unread c))), consume to_copy c)
      else
        case io c of
          None \<Rightarrow> (Inl MissingIo, c)
        | Some es \<Rightarrow>
            (case io_read READ_BUF_SIZE es of
               (Inl e, es') \<Rightarrow> (Inl e, c\<lparr>io := Some es'\<rparr>)
             | (Inr s, es') \<Rightarrow> (Inr (if s = [] then None else Some s), c\<lparr>io := Some es'\<rparr>)))"

definition read_chunk_size :: "h1_conn \<Rightarrow> (http_error + nat option) \<times> h1_conn" where
  "read_chunk_size c =
     (case read_line c of
        (Inl e, c') \<Rightarrow> (Inl e, c')
      | (Inr None, c') \<Rightarrow> (Inr None, c')
      | (Inr (Some line), c') \<Rightarrow> (and_then (parse_chunk_size_line line) (\<lambda>n. Inr (Some n)), c'))"

definition read_chunk_crlf :: "h1_conn \<Rightarrow> (http_error + unit) \<times> h1_conn" where
  "read_chunk_crlf c =
     (case read_exact 2 c of
        (Inl e, c') \<Rightarrow> (Inl e, c')
      | (Inr bs, c') \<Rightarrow> (if bs \<noteq> CRLF then Inl InvalidChunked else Inr (), c'))"

text \<open>Every line read uses up input, so the loop over the trailers ends.\<close>

definition work :: "h1_conn \<Rightarrow> nat" where
  "work c = buffered_len c + wait_size c"

lemma length_unread [simp]: "length (unread c) = buffered_len c"
  by (simp add: unread_def buffered_len_def)

lemma buffered_consume: "n \<le> buffered_len c \<Longrightarrow> buffered_len (consume n c) = buffered_len c - n"
  by (auto simp: consume_def buffered_len_def Let_def)

lemma io_consume [simp]: "io (consume n c) = io c"
  by (simp add: consume_def Let_def)

lemma wait_consume [simp]: "wait_size (consume n c) = wait_size c"
  by (simp add: wait_size_def)

lemma find_crlf_bound: "find_crlf c = Some i \<Longrightarrow> i + 2 \<le> buffered_len c"
  unfolding find_crlf_def by (drule find_sub_SomeD) simp

lemma io_read_total: "io_read n es = (Inr s, es') \<Longrightarrow> io_size es' + length s \<le> io_size es"
  by (cases "(n, es)" rule: io_read.cases) (auto split: if_splits)

lemma fill_buf_work: "fill_buf m c = (r, c') \<Longrightarrow> work c' \<le> work c"
  using io_read_size
  by (fastforce simp: fill_buf_def work_def wait_size_def buffered_len_def Let_def
      split: option.splits prod.splits sum.splits if_splits dest!: io_read_total)

lemma read_line_work: "read_line c = (Inr (Some l), c') \<Longrightarrow> work c' < work c"
proof (induction c rule: read_line.induct)
  case (1 c)
  show ?case
  proof (cases "find_crlf c")
    case (Some i)
    then show ?thesis
      using "1.prems" find_crlf_bound [OF Some] buffered_consume [of "i + 2" c]
      by (auto simp: read_line.simps [of c] work_def split: if_splits)
  next
    case None
    obtain n c1 where m: "read_more c = (Inr n, c1)" "n \<noteq> 0" "buffered_len c \<le> MAX_LINE_SIZE"
      and r: "read_line c1 = (Inr (Some l), c')"
      using "1.prems" None by (auto simp: read_line.simps [of c] split: if_splits prod.splits sum.splits)
    have "work c' < work c1" using "1.IH" None m r by auto
    moreover have "work c1 \<le> work c" using m(1) fill_buf_work unfolding read_more_def by blast
    ultimately show ?thesis by simp
  qed
qed

function read_chunk_trailers :: "h1_conn \<Rightarrow> (http_error + unit) \<times> h1_conn" where
  "read_chunk_trailers c =
     (case read_line c of
        (Inl e, c') \<Rightarrow> (Inl e, c')
      | (Inr None, c') \<Rightarrow> (Inl UnexpectedEof, c')
      | (Inr (Some line), c') \<Rightarrow> if line = [] then (Inr (), c') else read_chunk_trailers c')"
  by pat_completeness auto
termination
  by (relation "measure work") (auto dest!: read_line_work [OF sym])

declare read_chunk_trailers.simps [simp del]

subsection \<open>Messages\<close>

definition next_request :: "http_lib \<Rightarrow> h1_conn \<Rightarrow> (http_error + (request_head \<times> body_framing) option) \<times> h1_conn" where
  "next_request lib c =
     (case read_headers c of
        (Inl e, c') \<Rightarrow> (Inl e, c')
      | (Inr None, c') \<Rightarrow> (Inr None, c')
      | (Inr (Some raw), c') \<Rightarrow>
          (and_then (parse_request_head lib raw) (\<lambda>head. Inr (Some (head, request_body_from_headers lib head))), c'))"

definition next_response :: "http_lib \<Rightarrow> h1_conn \<Rightarrow> (http_error + (response_head \<times> body_framing) option) \<times> h1_conn" where
  "next_response lib c =
     (case read_headers c of
        (Inl e, c') \<Rightarrow> (Inl e, c')
      | (Inr None, c') \<Rightarrow> (Inr None, c')
      | (Inr (Some raw), c') \<Rightarrow>
          (and_then (parse_response_head lib raw) (\<lambda>head. Inr (Some (head, response_body_from_headers lib head))), c'))"

datatype response_read = RawFixed raw_fixed | Parsed response_head body_framing

definition next_response_fast :: "http_lib \<Rightarrow> h1_conn \<Rightarrow> (http_error + response_read option) \<times> h1_conn" where
  "next_response_fast lib c =
     (case read_headers c of
        (Inl e, c') \<Rightarrow> (Inl e, c')
      | (Inr None, c') \<Rightarrow> (Inr None, c')
      | (Inr (Some raw), c') \<Rightarrow>
          (case raw_fixed_response raw of
             Inl e \<Rightarrow> Inl e
           | Inr (Some r) \<Rightarrow> Inr (Some (RawFixed r))
           | Inr None \<Rightarrow>
               and_then (parse_response_head lib raw)
                 (\<lambda>head. Inr (Some (Parsed head (response_body_from_headers lib head)))), c'))"

fun final_response_loop ::
  "http_lib \<Rightarrow> nat \<Rightarrow> h1_conn \<Rightarrow> (http_error + (response_head \<times> body_framing) option) \<times> h1_conn" where
  "final_response_loop lib 0 c = (Inl (InvalidResponse ''too many interim responses''), c)"
| "final_response_loop lib (Suc n) c =
     (case next_response lib c of
        (Inl e, c') \<Rightarrow> (Inl e, c')
      | (Inr None, c') \<Rightarrow> (Inr None, c')
      | (Inr (Some (head, b)), c') \<Rightarrow>
          if is_interim_response_status (rs_status head) then final_response_loop lib n c'
          else (Inr (Some (head, b)), c'))"

definition next_final_response :: "http_lib \<Rightarrow> h1_conn \<Rightarrow> (http_error + (response_head \<times> body_framing) option) \<times> h1_conn" where
  "next_final_response lib c = final_response_loop lib MAX_INTERIM_RESPONSES c"

fun final_response_fast_loop ::
  "http_lib \<Rightarrow> nat \<Rightarrow> h1_conn \<Rightarrow> (http_error + response_read option) \<times> h1_conn" where
  "final_response_fast_loop lib 0 c = (Inl (InvalidResponse ''too many interim responses''), c)"
| "final_response_fast_loop lib (Suc n) c =
     (case next_response_fast lib c of
        (Inl e, c') \<Rightarrow> (Inl e, c')
      | (Inr None, c') \<Rightarrow> (Inr None, c')
      | (Inr (Some (RawFixed r)), c') \<Rightarrow> (Inr (Some (RawFixed r)), c')
      | (Inr (Some (Parsed head b)), c') \<Rightarrow>
          if is_interim_response_status (rs_status head) then final_response_fast_loop lib n c'
          else (Inr (Some (Parsed head b)), c'))"

definition next_final_response_fast :: "http_lib \<Rightarrow> h1_conn \<Rightarrow> (http_error + response_read option) \<times> h1_conn" where
  "next_final_response_fast lib c = final_response_fast_loop lib MAX_INTERIM_RESPONSES c"

subsection \<open>Bodies\<close>

datatype stream_hint = HintNone | HintFixed | HintStream

definition hint :: "body_framing \<Rightarrow> stream_hint" where
  "hint b = (case b of BNone \<Rightarrow> HintNone | BFixed _ \<Rightarrow> HintFixed | BChunked _ _ _ _ \<Rightarrow> HintStream | BEof _ \<Rightarrow> HintStream)"

definition is_chunked :: "body_framing \<Rightarrow> bool" where
  "is_chunked b = (case b of BChunked _ _ _ _ \<Rightarrow> True | _ \<Rightarrow> False)"

definition is_eof :: "body_framing \<Rightarrow> bool" where
  "is_eof b = (case b of BEof _ \<Rightarrow> True | _ \<Rightarrow> False)"

datatype try_body_data = Copied | NeedRead | Done

type_synonym drained = "(http_error + try_body_data) \<times> body_framing \<times> h1_conn \<times> string"

text \<open>Copying the data of a chunk, the end of \<open>try_drain_into\<close> for a chunked body.\<close>

definition drain_chunk_data :: "nat \<Rightarrow> bool \<Rightarrow> h1_conn \<Rightarrow> string \<Rightarrow> nat \<Rightarrow> bool \<Rightarrow> drained" where
  "drain_chunk_data remaining nc c out max_take rechunk =
     (if buffered_len c = 0 then (Inr NeedRead, BChunked remaining nc False False, c, out)
      else
        let to_copy = min (min (buffered_len c) max_take) remaining;
            (out', c') = drain_buffered_into c out to_copy rechunk
        in (Inr Copied, BChunked (remaining - to_copy) (remaining - to_copy = 0 \<or> nc) False False, c', out'))"

lemma try_skip_line_work: "try_skip_line c = (Inr (Some e), c') \<Longrightarrow> buffered_len c' < buffered_len c"
  using buffered_consume find_crlf_bound
  by (fastforce simp: try_skip_line_def try_find_line_def split: option.splits if_splits sum.splits)

lemma try_consume_crlf_work: "try_consume_crlf c = (r, c') \<Longrightarrow> buffered_len c' \<le> buffered_len c"
  using buffered_consume by (fastforce simp: try_consume_crlf_def split: if_splits)

lemma try_read_chunk_size_work: "try_read_chunk_size c = (Inr (Some n), c') \<Longrightarrow> buffered_len c' < buffered_len c"
  using buffered_consume find_crlf_bound
  by (fastforce simp: try_read_chunk_size_def try_find_line_def split: option.splits if_splits sum.splits)

function try_drain_chunked ::
  "nat \<Rightarrow> bool \<Rightarrow> bool \<Rightarrow> bool \<Rightarrow> h1_conn \<Rightarrow> string \<Rightarrow> nat \<Rightarrow> bool \<Rightarrow> drained" where
  "try_drain_chunked remaining nc trailers dn c out max_take rechunk =
     (if dn then (Inr Done, BChunked remaining nc trailers dn, c, out)
      else if trailers then
        (case try_skip_line c of
           (Inl e, c') \<Rightarrow> (Inl e, BChunked remaining nc trailers dn, c', out)
         | (Inr None, c') \<Rightarrow> (Inr NeedRead, BChunked remaining nc trailers dn, c', out)
         | (Inr (Some is_empty), c') \<Rightarrow>
             if is_empty then (Inr Done, BChunked remaining nc trailers True, c', out)
             else try_drain_chunked remaining nc trailers dn c' out max_take rechunk)
      else if remaining = 0 then
        (case (if nc then try_consume_crlf c else (Inr True, c)) of
           (Inl e, c1) \<Rightarrow> (Inl e, BChunked remaining nc trailers dn, c1, out)
         | (Inr ok, c1) \<Rightarrow>
             if \<not> ok then (Inr NeedRead, BChunked remaining nc trailers dn, c1, out)
             else
               (case try_read_chunk_size c1 of
                  (Inl e, c2) \<Rightarrow> (Inl e, BChunked remaining False trailers dn, c2, out)
                | (Inr None, c2) \<Rightarrow> (Inr NeedRead, BChunked remaining False trailers dn, c2, out)
                | (Inr (Some sz), c2) \<Rightarrow>
                    if sz = 0 then try_drain_chunked remaining False True dn c2 out max_take rechunk
                    else drain_chunk_data sz False c2 out max_take rechunk))
      else drain_chunk_data remaining nc c out max_take rechunk)"
  by pat_completeness auto
termination
proof (relation "measure (\<lambda>(_, _, _, _, c, _). buffered_len c)", goal_cases)
  case (2 remaining nc trailers dn c out max_take rechunk)
  then show ?case using try_skip_line_work by (simp, metis)
next
  case (3 remaining nc trailers dn c out max_take rechunk)
  then show ?case
    using try_consume_crlf_work try_read_chunk_size_work
    by (simp split: if_splits) (metis order.strict_trans2 prod.inject)+
qed simp

declare try_drain_chunked.simps [simp del]

definition try_drain_into :: "body_framing \<Rightarrow> h1_conn \<Rightarrow> string \<Rightarrow> nat \<Rightarrow> bool \<Rightarrow> drained" where
  "try_drain_into b c out max_take0 rechunk =
     (let max_take = max max_take0 1
      in case b of
           BNone \<Rightarrow> (Inr Done, b, c, out)
         | BFixed remaining \<Rightarrow>
             if remaining = 0 then (Inr Done, b, c, out)
             else if buffered_len c = 0 then (Inr NeedRead, b, c, out)
             else
               (let to_copy = min (min (buffered_len c) max_take) remaining;
                    (out', c') = drain_buffered_into c out to_copy rechunk
                in (Inr Copied, BFixed (remaining - to_copy), c', out'))
         | BChunked remaining nc trailers dn \<Rightarrow>
             try_drain_chunked remaining nc trailers dn c out max_take rechunk
         | BEof dn \<Rightarrow>
             if dn then (Inr Done, b, c, out)
             else if buffered_len c = 0 then (Inr NeedRead, b, c, out)
             else
               (let (out', c') = drain_buffered_into c out (min (buffered_len c) max_take) rechunk
                in (Inr Copied, b, c', out')))"

definition fill :: "body_framing \<Rightarrow> h1_conn \<Rightarrow> nat \<Rightarrow> (http_error + unit) \<times> body_framing \<times> h1_conn" where
  "fill b c max_read_size =
     (case fill_buf max_read_size c of
        (Inl e, c') \<Rightarrow> (Inl e, b, c')
      | (Inr n, c') \<Rightarrow>
          if n = 0 then
            (case b of
               BNone \<Rightarrow> (Inr (), b, c')
             | BEof _ \<Rightarrow> (Inr (), BEof True, c')
             | BFixed remaining \<Rightarrow> (if remaining > 0 then Inl UnexpectedEof else Inr (), b, c')
             | BChunked _ _ _ dn \<Rightarrow> (if \<not> dn then Inl UnexpectedEof else Inr (), b, c'))
          else (Inr (), b, c'))"

text \<open>\<open>next_data\<close>: None at the end of the body, otherwise an error or the next piece.\<close>

definition next_chunk_data ::
  "nat \<Rightarrow> bool \<Rightarrow> h1_conn \<Rightarrow> (http_error + string) option \<times> body_framing \<times> h1_conn" where
  "next_chunk_data remaining nc c =
     (case read_exact (min remaining READ_BUF_SIZE) c of
        (Inl e, c') \<Rightarrow> (Some (Inl e), BChunked remaining nc False False, c')
      | (Inr bs, c') \<Rightarrow>
          (Some (Inr bs), BChunked (remaining - length bs) (remaining - length bs = 0 \<or> nc) False False, c'))"

definition next_trailers ::
  "nat \<Rightarrow> bool \<Rightarrow> h1_conn \<Rightarrow> (http_error + string) option \<times> body_framing \<times> h1_conn" where
  "next_trailers remaining nc c =
     (case read_chunk_trailers c of
        (Inl e, c') \<Rightarrow> (Some (Inl e), BChunked remaining nc True False, c')
      | (Inr _, c') \<Rightarrow> (None, BChunked remaining nc True True, c'))"

definition next_data :: "body_framing \<Rightarrow> h1_conn \<Rightarrow> (http_error + string) option \<times> body_framing \<times> h1_conn" where
  "next_data b c =
     (case b of
        BNone \<Rightarrow> (None, b, c)
      | BFixed remaining \<Rightarrow>
          if remaining = 0 then (None, b, c)
          else
            (case read_exact (min remaining READ_BUF_SIZE) c of
               (Inl e, c') \<Rightarrow> (Some (Inl e), b, c')
             | (Inr bs, c') \<Rightarrow> (Some (Inr bs), BFixed (remaining - length bs), c'))
      | BChunked remaining nc trailers dn \<Rightarrow>
          if dn then (None, b, c)
          else if trailers then next_trailers remaining nc c
          else if remaining = 0 then
            (case (if nc then read_chunk_crlf c else (Inr (), c)) of
               (Inl e, c1) \<Rightarrow> (Some (Inl e), b, c1)
             | (Inr _, c1) \<Rightarrow>
                 (case read_chunk_size c1 of
                    (Inl e, c2) \<Rightarrow> (Some (Inl e), BChunked remaining False trailers dn, c2)
                  | (Inr None, c2) \<Rightarrow> (Some (Inl UnexpectedEof), BChunked remaining False trailers dn, c2)
                  | (Inr (Some sz), c2) \<Rightarrow>
                      if sz = 0 then next_trailers remaining False c2 else next_chunk_data sz False c2))
          else next_chunk_data remaining nc c
      | BEof dn \<Rightarrow>
          if dn then (None, b, c)
          else
            (case read_some c of
               (Inl e, c') \<Rightarrow> (Some (Inl e), b, c')
             | (Inr None, c') \<Rightarrow> (None, BEof True, c')
             | (Inr (Some bs), c') \<Rightarrow> (Some (Inr bs), b, c')))"

definition write_chunk :: "string \<Rightarrow> string" where
  "write_chunk data = (if data = [] then [] else show_base 16 (length data) @ CRLF @ data @ CRLF)"

definition write_chunk_end :: string where
  "write_chunk_end = ''0'' @ CRLF @ CRLF"

subsection \<open>Forwarding a body\<close>

text \<open>The loop of \<open>forward_proxy_body\<close> in \<open>src/src/server.rs\<close>.  What a drain does to the
  connection shows that the loop ends: it uses up buffered data, or waits with data left to
  arrive, or reaches the end of the input.\<close>

definition awaiting :: "body_framing \<Rightarrow> bool" where
  "awaiting b = (case b of BNone \<Rightarrow> False | BFixed n \<Rightarrow> 0 < n | BChunked _ _ _ dn \<Rightarrow> \<not> dn | BEof dn \<Rightarrow> \<not> dn)"

definition eof_open :: "body_framing \<Rightarrow> nat" where
  "eof_open b = (case b of BEof dn \<Rightarrow> if dn then 0 else 1 | _ \<Rightarrow> 0)"

definition drain_effect :: "body_framing \<Rightarrow> h1_conn \<Rightarrow> string \<Rightarrow> drained \<Rightarrow> bool" where
  "drain_effect b c out = (\<lambda>(r, b', c', out').
     io c' = io c \<and> eof_open b' = eof_open b \<and> buffered_len c' \<le> buffered_len c
       \<and> (r = Inr Copied \<longrightarrow> buffered_len c' < buffered_len c)
       \<and> (r = Inr NeedRead \<longrightarrow> awaiting b' \<and> out' = out))"

lemma drain_effect_trans:
  "drain_effect b1 c1 out d \<Longrightarrow> io c1 = io c \<Longrightarrow> eof_open b1 = eof_open b \<Longrightarrow>
     buffered_len c1 \<le> buffered_len c \<Longrightarrow> drain_effect b c out d"
  by (auto simp: drain_effect_def split: prod.splits)

lemma drain_buffered: "drain_buffered_into c out n r = (out', c') \<Longrightarrow> c' = consume n c"
  by (simp add: drain_buffered_into_def Let_def)

lemma drain_chunk_data_effect:
  "0 < remaining \<Longrightarrow> 0 < m \<Longrightarrow> drain_effect (BChunked r0 n0 t0 d0) c out (drain_chunk_data remaining nc c out m rechunk)"
  by (auto simp: drain_chunk_data_def drain_effect_def awaiting_def eof_open_def Let_def buffered_consume
      split: prod.splits dest!: drain_buffered)

lemma try_ios:
  "try_skip_line c = (r, c') \<Longrightarrow> io c' = io c" "try_consume_crlf c = (r2, c') \<Longrightarrow> io c' = io c"
  "try_read_chunk_size c = (r3, c') \<Longrightarrow> io c' = io c"
  by (auto simp: try_skip_line_def try_consume_crlf_def try_read_chunk_size_def split: sum.splits option.splits if_splits)

lemma try_lens:
  "try_skip_line c = (r, c') \<Longrightarrow> buffered_len c' \<le> buffered_len c"
  "try_read_chunk_size c = (r3, c') \<Longrightarrow> buffered_len c' \<le> buffered_len c"
  using buffered_consume find_crlf_bound
  by (fastforce simp: try_skip_line_def try_read_chunk_size_def try_find_line_def
      split: sum.splits option.splits if_splits)+

lemma try_drain_chunked_effect:
  "0 < m \<Longrightarrow> drain_effect (BChunked remaining nc t d) c out (try_drain_chunked remaining nc t d c out m rechunk)"
proof (induction remaining nc t d c out m rechunk rule: try_drain_chunked.induct)
  case (1 remaining nc t d c out m rechunk)
  note IH_trailer = "1.IH"(1) and IH_last = "1.IH"(2)
  consider "d" | "\<not> d" "t" | "\<not> d" "\<not> t" "remaining \<noteq> 0" | "\<not> d" "\<not> t" "remaining = 0" by blast
  then show ?case
  proof cases
    case 1
    then show ?thesis by (simp add: try_drain_chunked.simps drain_effect_def)
  next
    case 2
    obtain r c' where s: "try_skip_line c = (r, c')" by (cases "try_skip_line c")
    have c': "io c' = io c" "buffered_len c' \<le> buffered_len c" using try_ios(1) [OF s] try_lens(1) [OF s] by auto
    show ?thesis
    proof (cases "r = Inr (Some False)")
      case True
      then have "drain_effect (BChunked remaining nc t d) c' out (try_drain_chunked remaining nc t d c' out m rechunk)"
        using IH_trailer [OF 2 s [symmetric], of "Some False" False] "1.prems" by simp
      then show ?thesis
        using 2 True c' by (subst try_drain_chunked.simps) (simp add: s drain_effect_trans)
    next
      case False
      then show ?thesis
        using 2 c' by (subst try_drain_chunked.simps)
          (auto simp: s drain_effect_def awaiting_def eof_open_def split: sum.splits option.splits)
    qed
  next
    case 3
    then show ?thesis
      using "1.prems" by (subst try_drain_chunked.simps) (simp add: drain_chunk_data_effect)
  next
    case 4
    obtain r c1 where s: "(if nc then try_consume_crlf c else (Inr True, c)) = (r, c1)" by fastforce
    have c1: "io c1 = io c" "buffered_len c1 \<le> buffered_len c"
      using s try_ios(2) [of c r c1] try_consume_crlf_work [of c r c1] by (auto split: if_splits)
    obtain r2 c2 where s2: "try_read_chunk_size c1 = (r2, c2)" by (cases "try_read_chunk_size c1")
    have c2: "io c2 = io c" "buffered_len c2 \<le> buffered_len c"
      using c1 try_ios(3) [OF s2] try_lens(2) [OF s2] by auto
    show ?thesis
    proof (cases "r = Inr True \<and> (\<exists>n. r2 = Inr (Some n))")
      case True
      then obtain n where r: "r = Inr True" "r2 = Inr (Some n)" by blast
      have "drain_effect (BChunked remaining nc t d) c2 out
          (if n = 0 then try_drain_chunked remaining False True d c2 out m rechunk
           else drain_chunk_data n False c2 out m rechunk)"
        using IH_last [OF 4 s [symmetric]] r s2 "1.prems" drain_chunk_data_effect [of n m remaining nc t d c2 out]
        by (auto simp: drain_effect_def eof_open_def)
      then show ?thesis
        using 4 r c2 by (subst try_drain_chunked.simps) (auto simp: s s2 intro: drain_effect_trans)
    next
      case False
      then show ?thesis
        using 4 c1 c2 by (subst try_drain_chunked.simps)
          (auto simp: s s2 drain_effect_def awaiting_def eof_open_def split: sum.splits option.splits)
    qed
  qed
qed

lemma try_drain_effect: "drain_effect b c out (try_drain_into b c out m rechunk)"
proof (cases b)
  case (BChunked r n t d)
  then show ?thesis using try_drain_chunked_effect [of "max m 1"] by (simp add: try_drain_into_def)
qed (auto simp: try_drain_into_def drain_effect_def awaiting_def eof_open_def Let_def buffered_consume
      split: prod.splits dest!: drain_buffered)

definition PROXY_WRITE_BATCH_SIZE :: nat where "PROXY_WRITE_BATCH_SIZE = 64 * 1024"

definition write_proxy_body_batch :: "string \<Rightarrow> string \<Rightarrow> string \<times> string" where
  "write_proxy_body_batch w batch = (if batch = [] then (w, batch) else (w @ batch, []))"

lemma fill_measure:
  assumes "fill b c m = (Inr (), b', c')" and "awaiting b"
  shows "wait_size c' < wait_size c \<or> wait_size c' \<le> wait_size c \<and> eof_open b' < eof_open b"
proof -
  obtain r c1 where f: "fill_buf m c = (r, c1)" by (cases "fill_buf m c")
  show ?thesis
    using assms f fill_buf_wait [OF f]
    by (auto simp: fill_def awaiting_def eof_open_def split: sum.splits if_splits body_framing.splits)
qed

lemma forward_measure:
  assumes "(Inr u, b'', c'') = fill b' c' k" and "(Inr NeedRead, b', c', batch') = try_drain_into b c batch m rechunk"
  shows "wait_size c'' < wait_size c \<or> wait_size c'' \<le> wait_size c \<and> eof_open b'' < eof_open b"
proof -
  have "drain_effect b c batch (Inr NeedRead, b', c', batch')" unfolding assms(2) by (rule try_drain_effect)
  then have "awaiting b'" "eof_open b' = eof_open b" "wait_size c' = wait_size c"
    by (auto simp: drain_effect_def wait_size_def)
  moreover have "fill b' c' k = (Inr (), b'', c'')" using assms(1) by simp
  ultimately show ?thesis using fill_measure [of b' c' k b'' c''] by simp
qed

function forward_loop ::
  "bool \<Rightarrow> body_framing \<Rightarrow> h1_conn \<Rightarrow> string \<Rightarrow> string \<Rightarrow> (http_error + string) \<times> body_framing \<times> h1_conn \<times> string" where
  "forward_loop rechunk b c batch w =
     (case try_drain_into b c batch (PROXY_WRITE_BATCH_SIZE - length batch) rechunk of
        (Inl e, b', c', batch') \<Rightarrow> (Inl e, b', c', w)
      | (Inr Copied, b', c', batch') \<Rightarrow>
          (if length batch' \<ge> PROXY_WRITE_BATCH_SIZE then
             (let (w', batch'') = write_proxy_body_batch w batch' in forward_loop rechunk b' c' batch'' w')
           else forward_loop rechunk b' c' batch' w)
      | (Inr NeedRead, b', c', batch') \<Rightarrow>
          if batch' \<noteq> [] then
            (let (w', batch'') = write_proxy_body_batch w batch' in forward_loop rechunk b' c' batch'' w')
          else
            (case fill b' c' PROXY_WRITE_BATCH_SIZE of
               (Inl e, b'', c'') \<Rightarrow> (Inl e, b'', c'', w)
             | (Inr _, b'', c'') \<Rightarrow> forward_loop rechunk b'' c'' batch' w)
      | (Inr Done, b', c', batch') \<Rightarrow> (Inr batch', b', c', w))"
  by pat_completeness auto
termination
proof (relation "measures [\<lambda>(_, b, c, _). wait_size c, \<lambda>(_, b, c, _). eof_open b, \<lambda>(_, b, c, _). buffered_len c,
    \<lambda>(_, b, c, batch, _). length batch]", goal_cases)
  case (2 rechunk b c batch w)
  then show ?case
    using try_drain_effect [of b c batch "PROXY_WRITE_BATCH_SIZE - length batch" rechunk]
    by (auto simp: drain_effect_def wait_size_def)
next
  case (3 rechunk b c batch w)
  then show ?case
    using try_drain_effect [of b c batch "PROXY_WRITE_BATCH_SIZE - length batch" rechunk]
    by (auto simp: drain_effect_def wait_size_def)
next
  case (4 rechunk b c batch w)
  then show ?case
    using try_drain_effect [of b c batch "PROXY_WRITE_BATCH_SIZE - length batch" rechunk]
    by (auto simp: drain_effect_def wait_size_def write_proxy_body_batch_def split: if_splits)
next
  case 5
  then show ?case by (auto dest!: forward_measure)
qed simp

definition forward_proxy_body ::
  "body_framing \<Rightarrow> h1_conn \<Rightarrow> string \<Rightarrow> (http_error + unit) \<times> body_framing \<times> h1_conn \<times> string" where
  "forward_proxy_body b c w =
     (if hint b = HintNone then (Inr (), b, c, w)
      else
        let rechunk = (hint b = HintStream)
        in case forward_loop rechunk b c [] w of
             (Inl e, b', c', w') \<Rightarrow> (Inl e, b', c', w')
           | (Inr batch, b', c', w') \<Rightarrow>
               (Inr (), b', c',
                fst (write_proxy_body_batch w' (if rechunk then batch @ ''0'' @ CRLF @ CRLF else batch))))"

subsection \<open>No byte is lost\<close>

text \<open>The bytes yet to be read: those buffered and those still to arrive.\<close>

definition future :: "h1_conn \<Rightarrow> string" where
  "future c = (case io c of None \<Rightarrow> [] | Some es \<Rightarrow> io_bytes es)"

definition wire :: "h1_conn \<Rightarrow> string" where
  "wire c = unread c @ future c"

definition conn_ok :: "h1_conn \<Rightarrow> bool" where
  "conn_ok c \<longleftrightarrow> cpos c \<le> length (cbuf c)"

lemma conn_ok_new [simp]: "conn_ok (conn_new es)" "conn_ok (conn_with_buffer es b)"
  by (simp_all add: conn_new_def conn_with_buffer_def conn_ok_def)

lemma unread_consume: "n \<le> buffered_len c \<Longrightarrow> unread (consume n c) = drop n (unread c)"
  by (auto simp: unread_def consume_def buffered_len_def Let_def add.commute)

lemma ok_consume: "conn_ok c \<Longrightarrow> n \<le> buffered_len c \<Longrightarrow> conn_ok (consume n c)"
  by (auto simp: conn_ok_def consume_def buffered_len_def Let_def)

lemma future_consume [simp]: "future (consume n c) = future c"
  by (simp add: future_def)

lemma wire_consume: "n \<le> buffered_len c \<Longrightarrow> wire c = take n (unread c) @ wire (consume n c)"
  by (simp add: wire_def unread_consume)

lemma fill_buf_wire:
  assumes "conn_ok c" and "fill_buf m c = (r, c')"
  shows "conn_ok c'" and "r = Inr n \<Longrightarrow> wire c' = wire c" and "r = Inr n \<Longrightarrow> length (unread c') = length (unread c) + n"
    and "r = Inr n \<Longrightarrow> io c = Some es \<Longrightarrow> \<exists>s es'. io_read (max m 1) es = (Inr s, es') \<and> io c' = Some es' \<and>
      unread c' = unread c @ s \<and> n = length s"
  using assms io_read_bytes
  by (fastforce simp: fill_buf_def conn_ok_def wire_def future_def unread_def buffered_len_def Let_def
      split: option.splits prod.splits sum.splits if_splits)+

text \<open>A search that succeeds in the buffer succeeds at the same place on the whole wire.\<close>

lemma find_on_wire: "find_sub pat (unread c) = Some i \<Longrightarrow> find_sub pat (wire c) = Some i"
  by (simp add: wire_def find_sub_append)

lemma find_take: "find_sub pat s = Some i \<Longrightarrow> s = take i s @ pat @ drop (i + length pat) s"
  using find_sub_SomeD by blast

lemma consume_found:
  assumes "conn_ok c" and "find_sub pat (unread c) = Some i"
  shows "conn_ok (consume (i + length pat) c)"
    and "wire c = take i (unread c) @ pat @ wire (consume (i + length pat) c)"
proof -
  have i: "i + length pat \<le> buffered_len c" using find_sub_SomeD [OF assms(2)] by simp
  then show "conn_ok (consume (i + length pat) c)" by (rule ok_consume [OF assms(1)])
  show "wire c = take i (unread c) @ pat @ wire (consume (i + length pat) c)"
    using find_take [OF assms(2)] unread_consume [OF i] by (simp add: wire_def)
qed

lemma read_line_wire:
  assumes "conn_ok c"
  shows "read_line c = (Inr (Some l), c') \<Longrightarrow> conn_ok c' \<and> wire c = l @ CRLF @ wire c' \<and> length l \<le> MAX_LINE_SIZE
    \<and> find_sub CRLF (wire c) = Some (length l)"
  using assms
proof (induction c rule: read_line.induct)
  case (1 c)
  show ?case
  proof (cases "find_crlf c")
    case (Some i)
    have f: "find_sub CRLF (unread c) = Some i" using Some by (simp add: find_crlf_def)
    have "i \<le> buffered_len c" using find_crlf_bound [OF Some] by simp
    then show ?thesis
      using "1.prems" consume_found [OF "1.prems"(2) f] find_on_wire [OF f] Some
      by (auto simp: read_line.simps [of c] split: if_splits)
  next
    case None
    obtain n c1 where m: "read_more c = (Inr n, c1)" "n \<noteq> 0" "buffered_len c \<le> MAX_LINE_SIZE"
      and r: "read_line c1 = (Inr (Some l), c')"
      using "1.prems" None by (auto simp: read_line.simps [of c] split: if_splits prod.splits sum.splits)
    have "conn_ok c1" "wire c1 = wire c"
      using fill_buf_wire [OF "1.prems"(2) m(1) [unfolded read_more_def]] by blast+
    then show ?thesis using "1.IH" None m r by auto
  qed
qed

lemma read_headers_wire:
  assumes "conn_ok c"
  shows "read_headers c = (Inr (Some raw), c') \<Longrightarrow> conn_ok c' \<and> wire c = raw @ CRLF @ CRLF @ wire c'
    \<and> find_sub (CRLF @ CRLF) (wire c) = Some (length raw)"
  using assms
proof (induction c rule: read_headers.induct)
  case (1 c)
  show ?case
  proof (cases "find_double_crlf c")
    case (Some i)
    have f: "find_sub (CRLF @ CRLF) (unread c) = Some i" using Some by (simp add: find_double_crlf_def)
    have "i \<le> buffered_len c" using find_sub_SomeD [OF f] by simp
    then show ?thesis
      using "1.prems" consume_found [OF "1.prems"(2) f] find_on_wire [OF f] Some
      by (auto simp: read_headers.simps [of c])
  next
    case None
    obtain n c1 where m: "read_more c = (Inr n, c1)" "n \<noteq> 0" "buffered_len c \<le> MAX_HEADER_SIZE"
      and r: "read_headers c1 = (Inr (Some raw), c')"
      using "1.prems" None by (auto simp: read_headers.simps [of c] split: if_splits prod.splits sum.splits)
    have "conn_ok c1" "wire c1 = wire c"
      using fill_buf_wire [OF "1.prems"(2) m(1) [unfolded read_more_def]] by blast+
    then show ?thesis using "1.IH" None m r by auto
  qed
qed

lemma read_exact_loop_wire:
  assumes "conn_ok c" and "length out \<le> len"
  shows "read_exact_loop len out c = (Inr bs, c') \<Longrightarrow> conn_ok c' \<and> length bs = len \<and> out @ wire c = bs @ wire c'"
  using assms
proof (induction len out c rule: read_exact_loop.induct)
  case (1 len out c)
  consider "len \<le> length out" | "length out < len" "cpos c < length (cbuf c)"
    | "length out < len" "\<not> cpos c < length (cbuf c)" by linarith
  then show ?case
  proof cases
    case 1
    then show ?thesis using "1.prems" by (subst (asm) read_exact_loop.simps) auto
  next
    case 2
    define k where "k = min (length (cbuf c) - cpos c) (len - length out)"
    have k: "k \<le> buffered_len c" by (simp add: k_def buffered_len_def)
    have "read_exact_loop len (out @ take k (unread c)) (consume k c) = (Inr bs, c')"
      using "1.prems"(1) 2 by (subst (asm) read_exact_loop.simps) (simp add: k_def Let_def)
    moreover have "length (out @ take k (unread c)) \<le> len" using k 2 by (simp add: k_def)
    ultimately have "conn_ok c' \<and> length bs = len \<and> (out @ take k (unread c)) @ wire (consume k c) = bs @ wire c'"
      using "1.IH"(1) [of k] 2 ok_consume [OF "1.prems"(2) k] by (simp add: k_def)
    then show ?thesis using wire_consume [OF k] by simp
  next
    case 3
    then have u: "unread c = []" using "1.prems"(2) by (simp add: unread_def)
    obtain es where es: "io c = Some es" using "1.prems"(1) 3
      by (cases "io c") (auto simp: read_exact_loop.simps [of len])
    obtain s es' where s: "io_read (min READ_BUF_SIZE (len - length out)) es = (Inr s, es')" "s \<noteq> []"
      and r: "read_exact_loop len (out @ s) (c\<lparr>io := Some es'\<rparr>) = (Inr bs, c')"
      using "1.prems"(1) 3 es by (subst (asm) read_exact_loop.simps) (auto split: prod.splits sum.splits if_splits)
    have b: "io_bytes es = s @ io_bytes es'" "length s \<le> len - length out" using io_read_bytes [OF s(1)] by auto
    have "conn_ok (c\<lparr>io := Some es'\<rparr>)" "wire c = s @ wire (c\<lparr>io := Some es'\<rparr>)"
      using "1.prems"(2) u b(1) es by (simp_all add: conn_ok_def wire_def future_def unread_def)
    then show ?thesis
      using "1.IH"(2) [OF _ _ es s(1) [symmetric]] 3 s(2) r b(2) by auto
  qed
qed

end
