(* ===== verification/H1_Stream.thy ===== *)
theory H1_Stream
  imports H1_Conn
begin

text \<open>
  What the connections of \<open>H1_Conn\<close> promise: a body is delivered as the peer sent it, whatever
  the pieces in which it arrives, and the next message begins where the body ends.
\<close>

subsection \<open>Bodies\<close>

text \<open>
  The grammar of a chunked or fixed-length body, by the state in which the machine meets it:
  \<open>body_stream b input data rest\<close> says that from state \<open>b\<close> the input begins with the encoding
  of \<open>data\<close> and goes on with \<open>rest\<close>.  A line is shorter than \<open>MAX_LINE_SIZE\<close>.
\<close>

definition line_ok :: "string \<Rightarrow> bool" where
  "line_ok l \<longleftrightarrow> find_sub CRLF (l @ CRLF) = Some (length l) \<and> length l < MAX_LINE_SIZE"

inductive body_stream :: "body_framing \<Rightarrow> string \<Rightarrow> string \<Rightarrow> string \<Rightarrow> bool" where
  finished: "body_stream (BChunked r nc t True) rest [] rest"
| trailer_end: "body_stream (BChunked r nc True False) (CRLF @ rest) [] rest"
| trailer: "line_ok l \<Longrightarrow> l \<noteq> [] \<Longrightarrow> body_stream (BChunked r nc True False) inp d rest \<Longrightarrow>
    body_stream (BChunked r nc True False) (l @ CRLF @ inp) d rest"
| chunk_end: "body_stream (BChunked 0 False False False) inp d rest \<Longrightarrow>
    body_stream (BChunked 0 True False False) (CRLF @ inp) d rest"
| last_chunk: "line_ok l \<Longrightarrow> parse_chunk_size_line l = Inr 0 \<Longrightarrow> body_stream (BChunked 0 False True False) inp d rest \<Longrightarrow>
    body_stream (BChunked 0 False False False) (l @ CRLF @ inp) d rest"
| chunk_size: "line_ok l \<Longrightarrow> parse_chunk_size_line l = Inr n \<Longrightarrow> n \<noteq> 0 \<Longrightarrow> body_stream (BChunked n False False False) inp d rest \<Longrightarrow>
    body_stream (BChunked 0 False False False) (l @ CRLF @ inp) d rest"
| chunk_data: "n \<noteq> 0 \<Longrightarrow> length x = n \<Longrightarrow> body_stream (BChunked 0 True False False) inp d rest \<Longrightarrow>
    body_stream (BChunked n False False False) (x @ inp) (x @ d) rest"
| fixed: "body_stream (BFixed (length d)) (d @ rest) d rest"

inductive_cases finishedE: "body_stream (BChunked r nc t True) inp d rest"
inductive_cases trailersE: "body_stream (BChunked r nc True False) inp d rest"
inductive_cases chunk_endE: "body_stream (BChunked 0 True False False) inp d rest"
inductive_cases chunk_startE: "body_stream (BChunked 0 False False False) inp d rest"
inductive_cases fixedE: "body_stream (BFixed n) inp d rest"
inductive_cases chunk_dataE: "body_stream (BChunked (Suc n) nc False False) inp d rest"

text \<open>What the buffer shows of a line: all of it, or less than all.\<close>

lemma prefix_split:
  assumes "u @ f = x @ y"
  obtains (whole) z where "u = x @ z" "z @ f = y" | (part) z where "z \<noteq> []" "x = u @ z" "f = z @ y"
proof (cases "length x \<le> length u")
  case True
  then have "u = x @ drop (length x) u" using assms by (metis append_eq_append_conv_if append_take_drop_id)
  then show ?thesis using assms whole by (metis append.assoc same_append_eq)
next
  case False
  then have "x = u @ drop (length u) x" using assms by (metis append_eq_append_conv_if append_take_drop_id nle_le)
  moreover have "drop (length u) x \<noteq> []" using False by simp
  ultimately show ?thesis using assms part by (metis append.assoc same_append_eq)
qed

lemma no_crlf_in_part:
  assumes "find_sub CRLF (l @ CRLF) = Some (length l)" and "l @ CRLF = u @ z" and "z \<noteq> []"
  shows "find_sub CRLF u = None"
proof (rule ccontr)
  assume "find_sub CRLF u \<noteq> None"
  then obtain i where i: "find_sub CRLF u = Some i" by auto
  then have "find_sub CRLF (u @ z) = Some i" by (rule find_sub_append)
  then have "i = length l" using assms(1,2) by simp
  moreover have "i + 2 \<le> length u" using find_sub_SomeD [OF i] by simp
  moreover have "length u < length l + 2" using assms(2,3) by (metis add_less_cancel_left length_CRLF(1) length_append
        length_greater_0_conv less_add_same_cancel1)
  ultimately show False by simp
qed

lemma try_find_line_cases:
  assumes "line_ok l" and "unread c @ fut = l @ CRLF @ inp"
  obtains (line) z where "unread c = l @ CRLF @ z" "z @ fut = inp" "try_find_line c = Inr (Some (length l))"
  | (wait) "try_find_line c = Inr None" "fut \<noteq> []"
proof -
  have "unread c @ fut = (l @ CRLF) @ inp" using assms(2) by simp
  then show ?thesis
  proof (cases rule: prefix_split)
    case (whole z)
    then have "find_crlf c = Some (length l)"
      using assms(1) find_sub_append [of CRLF "l @ CRLF" "length l" z] by (simp add: find_crlf_def line_ok_def)
    then show ?thesis using whole assms(1) line by (simp add: try_find_line_def line_ok_def)
  next
    case (part z)
    then have "find_crlf c = None"
      using no_crlf_in_part assms(1) unfolding find_crlf_def line_ok_def by blast
    moreover have "buffered_len c < length l + 2"
      using part by (metis add_less_cancel_left length_CRLF(1) length_append length_greater_0_conv length_unread
          less_add_same_cancel1)
    ultimately show ?thesis using assms(1) part wait by (simp add: try_find_line_def line_ok_def)
  qed
qed

lemma chunk_split:
  assumes "body_stream (BChunked n False False False) (x @ inp) d rest" and "0 < length x" and "length x \<le> n"
  obtains d' where "d = x @ d'" and "body_stream (BChunked (n - length x) (n - length x = 0) False False) inp d' rest"
proof -
  obtain k where n: "n = Suc k" using assms(2,3) by (cases n) auto
  from assms(1) obtain y inp' d1 where y: "x @ inp = y @ inp'" "d = y @ d1" "length y = n"
    and rest: "body_stream (BChunked 0 True False False) inp' d1 rest"
    unfolding n by (auto elim: chunk_dataE)
  have "length x \<le> length y" using assms(3) y(3) by simp
  then obtain z where z: "y = x @ z" "inp = z @ inp'"
    using y(1) by (metis append_eq_append_conv_if append_take_drop_id append_eq_append_conv2 le_antisym length_append
        le_add1 append_Nil2 same_append_eq)
  show ?thesis
  proof (cases "z = []")
    case True
    then show ?thesis using that [of d1] y rest z by simp
  next
    case False
    then have "body_stream (BChunked (length z) False False False) (z @ inp') (z @ d1) rest"
      using rest by (intro chunk_data) auto
    then show ?thesis using that [of "z @ d1"] y z False by auto
  qed
qed

definition drain_ok :: "nat \<Rightarrow> string \<Rightarrow> string \<Rightarrow> string \<Rightarrow> string \<Rightarrow> bool \<Rightarrow> drained \<Rightarrow> bool" where
  "drain_ok m d rest out fut rechunk = (\<lambda>(r, b', c', out'). conn_ok c' \<and>
     (case r of
        Inl _ \<Rightarrow> False
      | Inr Done \<Rightarrow> d = [] \<and> unread c' @ fut = rest \<and> out' = out
      | Inr NeedRead \<Rightarrow> fut \<noteq> [] \<and> out' = out \<and> body_stream b' (unread c' @ fut) d rest
      | Inr Copied \<Rightarrow> (\<exists>x d'. x \<noteq> [] \<and> length x \<le> m \<and> d = x @ d' \<and> out' = out @ chunk_frame rechunk x
          \<and> body_stream b' (unread c' @ fut) d' rest)))"

lemma drain_ok_copied:
  "conn_ok c' \<Longrightarrow> x \<noteq> [] \<Longrightarrow> length x \<le> m \<Longrightarrow> d = x @ d' \<Longrightarrow> body_stream b' (unread c' @ fut) d' rest \<Longrightarrow>
     drain_ok m d rest out fut rechunk (Inr Copied, b', c', out @ chunk_frame rechunk x)"
  by (auto simp: drain_ok_def)

lemma drain_frame:
  assumes "n \<le> buffered_len c"
  shows "drain_buffered_into c out n rechunk = (out @ chunk_frame rechunk (take n (unread c)), consume n c)"
  using assms by (simp add: drain_buffered_into_def chunk_frame_def Let_def)

lemma drain_chunk_data_ok:
  assumes "conn_ok c" and "body_stream (BChunked n False False False) (unread c @ fut) d rest" and "0 < n" and "0 < m"
  shows "drain_ok m d rest out fut rechunk (drain_chunk_data n False c out m rechunk)"
proof (cases "buffered_len c = 0")
  case True
  then have "unread c = []" using length_unread [of c] by (simp del: length_unread)
  moreover have "fut \<noteq> []" using assms(2,3) calculation by (cases n) (auto elim: chunk_dataE)
  ultimately show ?thesis using assms(1,2) True by (simp add: drain_chunk_data_def drain_ok_def)
next
  case False
  define k where "k = min (min (buffered_len c) m) n"
  have k: "0 < k" "k \<le> buffered_len c" "k \<le> n" using False assms(3,4) by (simp_all add: k_def)
  have "body_stream (BChunked n False False False) (take k (unread c) @ (unread (consume k c) @ fut)) d rest"
    using assms(2) by (simp only: unread_consume [OF k(2)] append_assoc [symmetric] append_take_drop_id)
  then obtain d' where d': "d = take k (unread c) @ d'"
    "body_stream (BChunked (n - k) (n - k = 0) False False) (unread (consume k c) @ fut) d' rest"
    using k by (elim chunk_split) auto
  have "take k (unread c) \<noteq> []" using k False by (simp flip: length_greater_0_conv)
  moreover have "length (take k (unread c)) \<le> m" by (simp add: k_def)
  ultimately have "drain_ok m d rest out fut rechunk (Inr Copied, BChunked (n - k) (n - k = 0) False False, consume k c,
      out @ chunk_frame rechunk (take k (unread c)))"
    using d' ok_consume [OF assms(1) k(2)] by (intro drain_ok_copied)
  then show ?thesis
    using False drain_frame [OF k(2), of out rechunk] by (simp add: drain_chunk_data_def k_def [symmetric] Let_def)
qed

lemma try_skip_trailer:
  assumes "conn_ok c" and "body_stream (BChunked r nc True False) (unread c @ fut) d rest"
  obtains (end_line) c' where "try_skip_line c = (Inr (Some True), c')" "conn_ok c'" "unread c' @ fut = rest" "d = []"
  | (wait) "try_skip_line c = (Inr None, c)" "fut \<noteq> []"
  | (more) c' where "try_skip_line c = (Inr (Some False), c')" "conn_ok c'"
      "body_stream (BChunked r nc True False) (unread c' @ fut) d rest"
proof -
  obtain l inp where l: "line_ok l" "unread c @ fut = l @ CRLF @ inp"
    and c: "l = [] \<and> inp = rest \<and> d = [] \<or> l \<noteq> [] \<and> body_stream (BChunked r nc True False) inp d rest"
  proof -
    have ok0: "line_ok []" by (simp add: line_ok_def CRLF_def starts_with_def MAX_LINE_SIZE_def)
    show ?thesis
    proof (rule trailersE [OF assms(2)])
      assume "unread c @ fut = CRLF @ rest" "d = []"
      then show ?thesis by (intro that [of "[]" rest] ok0) simp_all
    next
      fix l inp
      assume "unread c @ fut = l @ CRLF @ inp" "line_ok l" "l \<noteq> []" "body_stream (BChunked r nc True False) inp d rest"
      then show ?thesis by (intro that [of l inp]) simp_all
    qed
  qed
  from l show ?thesis
  proof (cases rule: try_find_line_cases)
    case (line z)
    have n: "length l + 2 \<le> buffered_len c" using line(1) length_unread [of c] by (simp del: length_unread)
    have "unread (consume (length l + 2) c) = z" using unread_consume [OF n] line(1) by simp
    then show ?thesis
      using c line end_line more ok_consume [OF assms(1) n] by (auto simp: try_skip_line_def)
  next
    case wait
    then show ?thesis using that(2) by (simp add: try_skip_line_def)
  qed
qed

lemma try_chunk_start:
  assumes "conn_ok c" and "body_stream (BChunked 0 False False False) (unread c @ fut) d rest"
  obtains (last) c' where "try_read_chunk_size c = (Inr (Some 0), c')" "conn_ok c'"
      "body_stream (BChunked 0 False True False) (unread c' @ fut) d rest"
  | (wait) "try_read_chunk_size c = (Inr None, c)" "fut \<noteq> []"
  | (more) n c' where "try_read_chunk_size c = (Inr (Some n), c')" "n \<noteq> 0" "conn_ok c'"
      "body_stream (BChunked n False False False) (unread c' @ fut) d rest"
proof -
  obtain l inp n where l: "line_ok l" "unread c @ fut = l @ CRLF @ inp" and p: "parse_chunk_size_line l = Inr n"
    and c: "n = 0 \<and> body_stream (BChunked 0 False True False) inp d rest
      \<or> n \<noteq> 0 \<and> body_stream (BChunked n False False False) inp d rest"
    using assms(2) by (elim chunk_startE) blast+
  from l show ?thesis
  proof (cases rule: try_find_line_cases)
    case (line z)
    have n: "length l + 2 \<le> buffered_len c" using line(1) length_unread [of c] by (simp del: length_unread)
    have "unread (consume (length l + 2) c) = z" using unread_consume [OF n] line(1) by simp
    then show ?thesis
      using c p line last more ok_consume [OF assms(1) n] by (auto simp: try_read_chunk_size_def)
  next
    case wait
    then show ?thesis using that(2) by (simp add: try_read_chunk_size_def)
  qed
qed

lemma try_chunk_end:
  assumes "conn_ok c" and "body_stream (BChunked 0 True False False) (unread c @ fut) d rest"
  obtains (crlf) c' where "try_consume_crlf c = (Inr True, c')" "conn_ok c'"
      "body_stream (BChunked 0 False False False) (unread c' @ fut) d rest"
  | (wait) "try_consume_crlf c = (Inr False, c)" "fut \<noteq> []"
proof -
  obtain inp where inp: "unread c @ fut = CRLF @ inp" "body_stream (BChunked 0 False False False) inp d rest"
    using assms(2) by (rule chunk_endE)
  from inp(1) show ?thesis
  proof (cases rule: prefix_split)
    case (whole z)
    then have n: "2 \<le> buffered_len c" using length_unread [of c] by (simp del: length_unread)
    then show ?thesis
      using whole inp(2) crlf ok_consume [OF assms(1) n] unread_consume [OF n] by (simp add: try_consume_crlf_def)
  next
    case (part z)
    then have "length (unread c @ z) = 2" by (metis length_CRLF(1))
    then have "buffered_len c < 2" using part(1) by (cases z) simp_all
    then show ?thesis using part wait by (simp add: try_consume_crlf_def)
  qed
qed

lemma drain_ok_needread:
  "conn_ok c' \<Longrightarrow> fut \<noteq> [] \<Longrightarrow> body_stream b' (unread c' @ fut) d rest \<Longrightarrow>
     drain_ok m d rest out fut rechunk (Inr NeedRead, b', c', out)"
  by (simp add: drain_ok_def)

lemma try_drain_start_ok:
  assumes "conn_ok c" and "body_stream (BChunked 0 False False False) (unread c @ fut) d rest" and "0 < m"
    and IH: "\<And>c'. try_read_chunk_size c = (Inr (Some 0), c') \<Longrightarrow> conn_ok c' \<Longrightarrow>
      body_stream (BChunked 0 False True False) (unread c' @ fut) d rest \<Longrightarrow>
      drain_ok m d rest out fut rechunk (try_drain_chunked 0 False True False c' out m rechunk)"
  shows "drain_ok m d rest out fut rechunk
    (case try_read_chunk_size c of
       (Inl e, c2) \<Rightarrow> (Inl e, BChunked 0 False False False, c2, out)
     | (Inr None, c2) \<Rightarrow> (Inr NeedRead, BChunked 0 False False False, c2, out)
     | (Inr (Some sz), c2) \<Rightarrow>
         if sz = 0 then try_drain_chunked 0 False True False c2 out m rechunk
         else drain_chunk_data sz False c2 out m rechunk)"
  using assms(1,2)
proof (cases rule: try_chunk_start)
  case (last c')
  then show ?thesis using IH by simp
next
  case wait
  then show ?thesis using assms(1,2) by (simp add: drain_ok_needread)
next
  case (more n c')
  then show ?thesis using drain_chunk_data_ok [of c' n fut d rest m out rechunk] assms(3) by simp
qed

lemma try_drain_chunked_ok:
  "conn_ok c \<Longrightarrow> body_stream (BChunked r nc t dn) (unread c @ fut) d rest \<Longrightarrow> 0 < m \<Longrightarrow>
     drain_ok m d rest out fut rechunk (try_drain_chunked r nc t dn c out m rechunk)"
proof (induction r nc t dn c out m rechunk rule: try_drain_chunked.induct)
  case (1 r nc t dn c out m rechunk)
  note IH_trailer = "1.IH"(1) and IH_last = "1.IH"(2) and ok = "1.prems"(1) and str = "1.prems"(2) and m = "1.prems"(3)
  consider "dn" | "\<not> dn" "t" | "\<not> dn" "\<not> t" "r \<noteq> 0" | "\<not> dn" "\<not> t" "r = 0" by blast
  then show ?case
  proof cases
    case 1
    then show ?thesis using ok str by (subst try_drain_chunked.simps) (auto simp: drain_ok_def elim: finishedE)
  next
    case 2
    with str have "body_stream (BChunked r nc True False) (unread c @ fut) d rest" by simp
    from ok this show ?thesis
    proof (cases rule: try_skip_trailer)
      case (end_line c')
      then show ?thesis using 2 by (subst try_drain_chunked.simps) (simp add: drain_ok_def)
    next
      case wait
      then show ?thesis using 2 ok str by (subst try_drain_chunked.simps) (simp add: drain_ok_needread)
    next
      case (more c')
      then have "drain_ok m d rest out fut rechunk (try_drain_chunked r nc t dn c' out m rechunk)"
        using 2 IH_trailer [OF 2 more(1) [symmetric], of "Some False" False] m by simp
      then show ?thesis using 2 more by (subst try_drain_chunked.simps) simp
    qed
  next
    case 3
    then have nc: "\<not> nc" using str by (cases r) (auto elim: chunk_dataE)
    show ?thesis
      using 3 nc ok str m drain_chunk_data_ok [of c r fut d rest m out rechunk]
      by (subst try_drain_chunked.simps) simp
  next
    case 4
    then have eq: "r = 0" "t = False" "dn = False" by simp_all
    show ?thesis
    proof (cases nc)
      case True
      then have "body_stream (BChunked 0 True False False) (unread c @ fut) d rest" using str 4 by simp
      from ok this show ?thesis
      proof (cases rule: try_chunk_end)
        case (crlf c1)
        have "drain_ok m d rest out fut rechunk (try_drain_chunked 0 False True False c' out m rechunk)"
          if "try_read_chunk_size c1 = (Inr (Some 0), c')" "conn_ok c'"
            "body_stream (BChunked 0 False True False) (unread c' @ fut) d rest" for c'
          using IH_last [OF 4, of "Inr True" c1 True "Inr (Some 0)" c' "Some 0" 0] that True crlf(1) m 4 by simp
        from try_drain_start_ok [OF crlf(2,3) m this] show ?thesis
          unfolding eq by (subst try_drain_chunked.simps) (simp add: True crlf(1))
      next
        case wait
        then show ?thesis using 4 True ok str by (subst try_drain_chunked.simps) (simp add: drain_ok_needread)
      qed
    next
      case False
      have "drain_ok m d rest out fut rechunk (try_drain_chunked 0 False True False c' out m rechunk)"
        if "try_read_chunk_size c = (Inr (Some 0), c')" "conn_ok c'"
          "body_stream (BChunked 0 False True False) (unread c' @ fut) d rest" for c'
        using IH_last [OF 4, of "Inr True" c True "Inr (Some 0)" c' "Some 0" 0] that False m 4 by simp
      from try_drain_start_ok [OF ok _ m this] show ?thesis
        using str False unfolding eq by (subst try_drain_chunked.simps) simp
    qed
  qed
qed

subsection \<open>Forwarding\<close>

text \<open>A peer that neither fails nor closes: every event brings data.\<close>

definition io_good :: "io_event list \<Rightarrow> bool" where
  "io_good es \<longleftrightarrow> (\<forall>e \<in> set es. \<exists>s. e = Data s \<and> s \<noteq> [])"

definition conn_good :: "h1_conn \<Rightarrow> bool" where
  "conn_good c \<longleftrightarrow> conn_ok c \<and> (\<exists>es. io c = Some es \<and> io_good es)"

lemma io_read_good:
  assumes "io_good es" and "es \<noteq> []" and "0 < n"
  obtains s es' where "io_read n es = (Inr s, es')" "s \<noteq> []" "io_good es'"
proof -
  obtain s rest where "es = Data s # rest" "s \<noteq> []" "io_good rest"
    using assms(1,2) by (cases es) (auto simp: io_good_def)
  then show ?thesis
    using assms(3) that by (cases "length s \<le> n") (auto simp: io_good_def)
qed

lemma fill_buf_good:
  assumes "conn_good c" and "future c \<noteq> []"
  obtains n c' where "fill_buf m c = (Inr n, c')" "n \<noteq> 0" "conn_good c'" "wire c' = wire c"
proof -
  obtain es where es: "io c = Some es" "io_good es" and ok: "conn_ok c" using assms(1) by (auto simp: conn_good_def)
  have "es \<noteq> []" using assms(2) es(1) by (auto simp: future_def)
  then obtain s es' where s: "io_read (max m 1) es = (Inr s, es')" "s \<noteq> []" "io_good es'"
    by (rule io_read_good [OF es(2), of "max m 1"]) simp_all
  then obtain c' where f: "fill_buf m c = (Inr (length s), c')" "io c' = Some es'"
    using es(1) by (auto simp: fill_buf_def Let_def)
  show ?thesis
    using f s(2,3) fill_buf_wire(1,2) [OF ok f(1)] that by (auto simp: conn_good_def)
qed

lemma try_drain_fixed_ok:
  assumes "conn_ok c" and "body_stream (BFixed n) (wire c) d rest"
  shows "drain_ok (max m 1) d rest out (future c) rechunk (try_drain_into (BFixed n) c out m rechunk)"
proof -
  have d: "length d = n" "wire c = d @ rest" using assms(2) by (auto elim: fixedE)
  consider "n = 0" | "n \<noteq> 0" "buffered_len c = 0" | "n \<noteq> 0" "buffered_len c \<noteq> 0" by blast
  then show ?thesis
  proof cases
    case 1
    then show ?thesis using assms(1) d by (simp add: try_drain_into_def drain_ok_def wire_def)
  next
    case 2
    then have "unread c = []" using length_unread [of c] by (simp del: length_unread)
    then have "future c \<noteq> []" using d 2 by (auto simp: wire_def)
    then show ?thesis using 2 assms by (simp add: try_drain_into_def drain_ok_needread wire_def)
  next
    case 3
    define k where "k = min (min (buffered_len c) (max m 1)) n"
    have k: "0 < k" "k \<le> buffered_len c" "k \<le> n" "k \<le> max m 1" using 3 by (simp_all add: k_def)
    have w: "unread c @ future c = d @ rest" using d(2) by (simp add: wire_def)
    have x: "take k (unread c) = take k d" using w k d(1) by (metis append_eq_append_conv_if length_unread take_append
          diff_is_0_eq' take_0 append_Nil2)
    have u: "unread (consume k c) @ future c = drop k d @ rest"
      using w k d(1) unread_consume [OF k(2)] by (metis append_eq_conv_conj drop_append diff_is_0_eq' drop_0 length_unread)
    have "body_stream (BFixed (length (drop k d))) (drop k d @ rest) (drop k d) rest" by (rule fixed)
    then have str: "body_stream (BFixed (n - k)) (unread (consume k c) @ future c) (drop k d) rest" using u d(1) by simp
    have "drain_ok (max m 1) d rest out (future c) rechunk
        (Inr Copied, BFixed (n - k), consume k c, out @ chunk_frame rechunk (take k (unread c)))"
      by (rule drain_ok_copied [OF ok_consume [OF assms(1) k(2)] _ _ _ str])
        (use x k d(1) in \<open>simp_all flip: length_greater_0_conv\<close>)
    then show ?thesis
      using 3 drain_frame [OF k(2), of out rechunk] by (simp add: try_drain_into_def k_def [symmetric, simplified] Let_def)
  qed
qed

lemma body_stream_framing: "body_stream b inp d rest \<Longrightarrow> (\<exists>r nc t dn. b = BChunked r nc t dn) \<or> (\<exists>n. b = BFixed n)"
  by (induction rule: body_stream.induct) auto

lemma try_drain_ok:
  assumes "conn_ok c" and "body_stream b (wire c) d rest"
  shows "drain_ok (max m 1) d rest out (future c) rechunk (try_drain_into b c out m rechunk)"
  using body_stream_framing [OF assms(2)]
proof (elim disjE exE)
  fix r nc t dn assume b: "b = BChunked r nc t dn"
  then show ?thesis
    using assms try_drain_chunked_ok [of c r nc t dn "future c" d rest "max m 1" out rechunk]
    by (simp add: try_drain_into_def wire_def)
next
  fix n assume "b = BFixed n"
  then show ?thesis using assms try_drain_fixed_ok by simp
qed

lemma drained_future: "try_drain_into b c out m rechunk = (r, b', c', out') \<Longrightarrow> future c' = future c \<and> io c' = io c"
  using try_drain_effect [of b c out m rechunk] by (auto simp: drain_effect_def future_def)

definition framed :: "bool \<Rightarrow> string \<Rightarrow> string \<Rightarrow> bool" where
  "framed rechunk d out \<longleftrightarrow>
     (\<exists>xs. out = concat (map (chunk_frame rechunk) xs) \<and> concat xs = d \<and> (\<forall>x \<in> set xs. x \<noteq> [] \<and> length x \<le> PROXY_WRITE_BATCH_SIZE))"

lemma framed_Nil [simp]: "framed rechunk [] []"
  unfolding framed_def by (rule exI [of _ "[]"]) simp

lemma framed_Cons:
  "x \<noteq> [] \<Longrightarrow> length x \<le> PROXY_WRITE_BATCH_SIZE \<Longrightarrow> framed rechunk d out \<Longrightarrow> framed rechunk (x @ d) (chunk_frame rechunk x @ out)"
  unfolding framed_def by (elim exE) (rule_tac x = "x # xs" in exI, auto)

definition delivered :: "bool \<Rightarrow> string \<Rightarrow> string \<Rightarrow> string \<Rightarrow>
    (http_error + string) \<times> body_framing \<times> h1_conn \<times> string \<Rightarrow> bool" where
  "delivered rechunk d rest start = (\<lambda>(r, b', c', w'). \<exists>out batch'. r = Inr batch' \<and> w' @ batch' = start @ out
     \<and> framed rechunk d out \<and> wire c' = rest \<and> conn_good c')"

lemma delivered_extend:
  assumes "delivered rechunk d rest (start @ chunk_frame rechunk x) res" and "x \<noteq> []" and "length x \<le> PROXY_WRITE_BATCH_SIZE"
  shows "delivered rechunk (x @ d) rest start res"
  using assms framed_Cons [of x rechunk d] by (fastforce simp: delivered_def split: prod.splits)

lemma forward_loop_ok:
  "conn_good c \<Longrightarrow> body_stream b (wire c) d rest \<Longrightarrow> delivered rechunk d rest (w @ batch) (forward_loop rechunk b c batch w)"
proof (induction rechunk b c batch w arbitrary: d rule: forward_loop.induct)
  case (1 rechunk b c batch w)
  have ok: "conn_ok c" using "1.prems"(1) by (simp add: conn_good_def)
  obtain r b1 c1 batch1 where t: "try_drain_into b c batch (PROXY_WRITE_BATCH_SIZE - length batch) rechunk = (r, b1, c1, batch1)"
    by (metis prod_cases4)
  note dr = try_drain_ok [OF ok "1.prems"(2), of "PROXY_WRITE_BATCH_SIZE - length batch" batch rechunk, unfolded t drain_ok_def, simplified]
  have fut: "future c1 = future c" "io c1 = io c" using drained_future [OF t] by auto
  have good: "conn_good c1" using "1.prems"(1) dr fut(2) by (auto simp: conn_good_def)
  consider (finished) "r = Inr Done" | (copied) "r = Inr Copied" | (wait) "r = Inr NeedRead"
    using dr by (auto split: sum.splits try_body_data.splits)
  then show ?case
  proof cases
    case finished
    then have "delivered rechunk d rest (w @ batch) (Inr batch1, b1, c1, w)"
      using dr good fut by (simp add: delivered_def wire_def)
    then show ?thesis using finished by (subst forward_loop.simps) (simp add: t)
  next
    case copied
    then obtain x d' where x: "x \<noteq> []" "length x \<le> max (PROXY_WRITE_BATCH_SIZE - length batch) 1" "d = x @ d'"
      "batch1 = batch @ chunk_frame rechunk x" "body_stream b1 (wire c1) d' rest"
      using dr fut by (auto simp: wire_def)
    have lx: "length x \<le> PROXY_WRITE_BATCH_SIZE" using x(2) by (simp add: PROXY_WRITE_BATCH_SIZE_def)
    obtain w2 batch2 where b2: "w2 @ batch2 = w @ batch1"
      "forward_loop rechunk b c batch w = forward_loop rechunk b1 c1 batch2 w2"
      "delivered rechunk d' rest (w2 @ batch2) (forward_loop rechunk b1 c1 batch2 w2)"
    proof (cases "PROXY_WRITE_BATCH_SIZE \<le> length batch1")
      case True
      obtain w2 batch2 where wb: "write_proxy_body_batch w batch1 = (w2, batch2)" by fastforce
      show ?thesis
        using "1.IH"(1) [OF t [symmetric] copied refl refl refl True refl wb [symmetric] good x(5)] copied t True wb
        by (intro that) (auto simp: write_proxy_body_batch_def forward_loop.simps [of _ b] split: if_splits)
    next
      case False
      show ?thesis
        using "1.IH"(2) [OF t [symmetric] copied refl refl refl False good x(5)] copied t False
        by (intro that [of w batch1]) (auto simp: forward_loop.simps [of _ b])
    qed
    then have "delivered rechunk d' rest ((w @ batch) @ chunk_frame rechunk x) (forward_loop rechunk b1 c1 batch2 w2)"
      by (simp add: x(4))
    then show ?thesis using delivered_extend [OF _ x(1) lx] b2(2) x(3) by simp
  next
    case wait
    then have w: "future c1 \<noteq> []" "batch1 = batch" "body_stream b1 (wire c1) d rest" using dr fut by (auto simp: wire_def)
    show ?thesis
    proof (cases "batch1 = []")
      case False
      obtain w2 batch2 where wb: "write_proxy_body_batch w batch1 = (w2, batch2)" by fastforce
      have "w2 @ batch2 = w @ batch" using wb w(2) by (auto simp: write_proxy_body_batch_def split: if_splits)
      then have "delivered rechunk d rest (w @ batch) (forward_loop rechunk b1 c1 batch2 w2)"
        using "1.IH"(3) [OF t [symmetric] wait refl refl refl False refl wb [symmetric] good w(3)] by simp
      then show ?thesis using wait False wb by (subst forward_loop.simps) (simp add: t)
    next
      case True
      obtain n c2 where f: "fill_buf PROXY_WRITE_BATCH_SIZE c1 = (Inr n, c2)" "n \<noteq> 0" "conn_good c2" "wire c2 = wire c1"
        by (rule fill_buf_good [OF good w(1)])
      then have fill: "fill b1 c1 PROXY_WRITE_BATCH_SIZE = (Inr (), b1, c2)" by (simp add: fill_def)
      have "delivered rechunk d rest (w @ batch) (forward_loop rechunk b1 c2 batch1 w)"
        using "1.IH"(4) [OF t [symmetric] wait refl refl refl _ fill [symmetric] refl refl f(3)] True w(2,3) f(4) by simp
      then show ?thesis using wait True by (subst forward_loop.simps) (simp add: t fill)
    qed
  qed
qed

subsection \<open>Chunks as they are written\<close>

lemma length_show_base: "n < 16 ^ Suc k \<Longrightarrow> length (show_base 16 n) \<le> Suc k"
proof (induction k arbitrary: n)
  case 0
  then show ?case by (subst show_base.simps) simp
next
  case (Suc k)
  then have "n div 16 < 16 ^ Suc k" by (simp add: less_mult_imp_div_less mult.commute)
  then show ?case using Suc.IH [of "n div 16"] by (subst show_base.simps) simp
qed

lemma hex_digits:
  assumes "x \<in> set (show_base 16 n)"
  shows "graphic x" and "x \<noteq> CHR '';'' \<and> x \<noteq> CHR 0x0D"
proof -
  obtain d where d: "d < 16" "x = digit_char d" using assms show_base_chars [of 16 n] by auto
  then show "graphic x" using digit_chars(2) by simp
  have "digit_val 16 x = Some d" using d digit_chars(1) by simp
  then show "x \<noteq> CHR '';'' \<and> x \<noteq> CHR 0x0D" by (auto simp: digit_val_def byte_val_def Let_def split: if_splits)
qed

lemma size_line:
  assumes "n < 2 ^ 64"
  shows "line_ok (show_base 16 n)" and "parse_chunk_size_line (show_base 16 n) = Inr n"
proof -
  let ?l = "show_base 16 n"
  have ne: "?l \<noteq> []" using show_base_chars [of 16 n] by simp
  have "length ?l \<le> Suc 15" using assms by (intro length_show_base) simp
  moreover have "cr_free ?l" using hex_digits(2) by (auto simp: cr_free_def)
  ultimately show "line_ok ?l"
    using find_crlf_first [of ?l "[]"] by (simp add: line_ok_def MAX_LINE_SIZE_def)
  have "from_utf8 ?l \<noteq> None"
    using hex_digits(1) by (auto simp: from_utf8_def graphic_def intro!: utf8_valid_ascii) fastforce
  moreover have "split_on (CHR '';'') ?l = [?l]" using hex_digits(2) by (intro split_on_none) blast
  moreover have "str_trim ?l = ?l" using ne hex_digits(1) [OF hd_in_set [OF ne]] hex_digits(1) [OF last_in_set [OF ne]] by (intro str_trim_graphic)
  moreover have "parse_uint 16 (2 ^ 64) ?l = Some n"
    using assms by (intro parse_uint_show) simp_all
  ultimately show "parse_chunk_size_line ?l = Inr n" using ne by (simp add: parse_chunk_size_line_def Let_def)
qed

lemma body_stream_frame:
  assumes "x \<noteq> []" and "length x < 2 ^ 64" and "body_stream (BChunked 0 False False False) inp d rest"
  shows "body_stream (BChunked 0 False False False) (chunk_frame True x @ inp) (x @ d) rest"
proof -
  have "body_stream (BChunked (length x) False False False) (x @ CRLF @ inp) (x @ d) rest"
    using assms(1,3) by (intro chunk_data chunk_end) auto
  then have "body_stream (BChunked 0 False False False) (show_base 16 (length x) @ CRLF @ x @ CRLF @ inp) (x @ d) rest"
    using assms(1) by (intro chunk_size [OF size_line [OF assms(2)]]) auto
  then show ?thesis by (simp add: chunk_frame_def)
qed

lemma body_stream_end: "body_stream (BChunked 0 False False False) (''0'' @ CRLF @ CRLF @ rest) [] rest"
proof (rule last_chunk)
  have "show_base 16 0 = ''0''" by (simp add: show_base.simps digit_char_def)
  then show "line_ok ''0''" "parse_chunk_size_line ''0'' = Inr 0"
    using size_line [of 0] by simp_all
qed (rule trailer_end)

lemma body_stream_framed:
  assumes "framed True d out"
  shows "body_stream (BChunked 0 False False False) (out @ ''0'' @ CRLF @ CRLF @ rest) d rest"
proof -
  obtain xs where xs: "out = concat (map (chunk_frame True) xs)" "concat xs = d"
    "\<forall>x \<in> set xs. x \<noteq> [] \<and> length x \<le> PROXY_WRITE_BATCH_SIZE"
    using assms by (auto simp: framed_def)
  show ?thesis
    unfolding xs(1) xs(2) [symmetric] using xs(3)
  proof (induction xs)
    case (Cons x xs)
    then show ?case using body_stream_frame [of x] by (simp add: PROXY_WRITE_BATCH_SIZE_def)
  qed (simp add: body_stream_end [simplified])
qed

subsection \<open>Heads\<close>

lemma find_double_skip:
  "cr_free l \<Longrightarrow> find_sub (CRLF @ CRLF) (l @ s) = map_option ((+) (length l)) (find_sub (CRLF @ CRLF) s)"
  by (induction l; cases "find_sub (CRLF @ CRLF) s") (auto simp: cr_free_def CRLF_def starts_with_def)

lemma find_double_single:
  "x \<noteq> CHR 0x0D \<Longrightarrow> find_sub (CRLF @ CRLF) (CRLF @ x # s) = map_option ((+) 2) (find_sub (CRLF @ CRLF) (x # s))"
  by (cases "find_sub (CRLF @ CRLF) (x # s)") (auto simp: CRLF_def starts_with_def)

lemma find_double_here: "find_sub (CRLF @ CRLF) (CRLF @ CRLF @ s) = Some 0"
  by (simp add: CRLF_def starts_with_def)

lemma find_double_lines:
  assumes "ls \<noteq> []" and "\<forall>l \<in> set ls. cr_free l \<and> l \<noteq> []"
  shows "find_sub (CRLF @ CRLF) (join_with CRLF ls @ CRLF @ CRLF @ s) = Some (length (join_with CRLF ls))"
  using assms
proof (induction ls)
  case (Cons l ls)
  show ?case
  proof (cases "ls = []")
    case True
    then show ?thesis using Cons.prems by (simp add: find_double_skip find_double_here)
  next
    case False
    then obtain m ms where ls: "ls = m # ms" by (cases ls) auto
    obtain x xs where m: "m = x # xs" "x \<noteq> CHR 0x0D"
      using Cons.prems by (cases m) (auto simp: ls cr_free_def)
    then obtain t where t: "join_with CRLF ls = x # t" by (cases ms) (auto simp: ls)
    have "find_sub (CRLF @ CRLF) (CRLF @ join_with CRLF ls @ CRLF @ CRLF @ s) = Some (2 + length (join_with CRLF ls))"
      using find_double_single [OF m(2), of "t @ CRLF @ CRLF @ s"] Cons.IH Cons.prems False t by simp
    then show ?thesis using Cons.prems False by (simp add: join_with_Cons find_double_skip)
  qed
qed simp

lemma request_text_double:
  assumes "head_ok lib h"
  shows "find_sub (CRLF @ CRLF) (encode_request_head h @ s) = Some (length (request_text h))"
proof -
  have "\<forall>l \<in> set (request_line h # map header_line (hm_iter (rq_headers h))). cr_free l \<and> l \<noteq> []"
    using request_line_cr_free [OF assms] header_line_cr_free assms by (auto simp: head_ok_def)
  then show ?thesis
    using find_double_lines [of "request_line h # map header_line (hm_iter (rq_headers h))" s]
    by (simp add: encode_request_text request_text_def)
qed

lemma find_sub_prefix:
  assumes "find_sub pat (u @ f) = Some i" and "i + length pat \<le> length u" and "pat \<noteq> []"
  shows "find_sub pat u = Some i"
  using assms
proof (induction u arbitrary: i)
  case (Cons x u)
  show ?case
  proof (cases i)
    case 0
    then have "starts_with (x # u @ f) pat" using Cons.prems by (auto split: if_splits)
    then show ?thesis using 0 Cons.prems(2) starts_with_longer [of pat "x # u" f] by simp
  next
    case (Suc j)
    then have j: "find_sub pat (u @ f) = Some j" "\<not> starts_with (x # u @ f) pat" using Cons.prems by (auto split: if_splits)
    moreover have "\<not> starts_with (x # u) pat"
      using j(2) Cons.prems(2) Suc starts_with_longer [of pat "x # u" f] by simp
    ultimately show ?thesis using Cons.IH [of j] Cons.prems(2,3) Suc by simp
  qed
qed simp

lemma read_headers_good:
  "conn_good c \<Longrightarrow> find_sub (CRLF @ CRLF) (wire c) = Some i \<Longrightarrow> i + 3 \<le> MAX_HEADER_SIZE \<Longrightarrow>
    \<exists>c'. read_headers c = (Inr (Some (take i (wire c))), c') \<and> conn_good c' \<and> wire c = take i (wire c) @ CRLF @ CRLF @ wire c'"
proof (induction c rule: read_headers.induct)
  case (1 c)
  have ok: "conn_ok c" using "1.prems"(1) by (simp add: conn_good_def)
  show ?case
  proof (cases "i + 4 \<le> buffered_len c")
    case True
    then have f: "find_sub (CRLF @ CRLF) (unread c) = Some i"
      using "1.prems"(2) find_sub_prefix [of "CRLF @ CRLF" "unread c" "future c" i] by (simp add: wire_def)
    have "take i (unread c) = take i (wire c)" using True by (simp add: wire_def)
    then show ?thesis
      using f "1.prems"(1) consume_found [OF ok f] by (auto simp: read_headers.simps [of c] find_double_crlf_def conn_good_def)
  next
    case False
    have none: "find_double_crlf c = None"
    proof (rule ccontr)
      assume "find_double_crlf c \<noteq> None"
      then obtain j where j: "find_sub (CRLF @ CRLF) (unread c) = Some j" by (auto simp: find_double_crlf_def)
      then have "j = i" using find_on_wire [OF j] "1.prems"(2) by simp
      with find_sub_SomeD [OF j] False show False by simp
    qed
    have "length (wire c) \<ge> i + 4" using find_sub_SomeD [OF "1.prems"(2)] by simp
    then have "future c \<noteq> []" using False by (auto simp: wire_def)
    then obtain n c1 where f: "read_more c = (Inr n, c1)" "n \<noteq> 0" "conn_good c1" "wire c1 = wire c"
      unfolding read_more_def by (rule fill_buf_good [OF "1.prems"(1)])
    have small: "\<not> MAX_HEADER_SIZE < buffered_len c" using False "1.prems"(3) by simp
    have "read_headers c = read_headers c1" using none f small by (subst read_headers.simps) simp
    then show ?thesis using "1.IH" [OF none small f(1) [symmetric] refl] f "1.prems" by simp
  qed
qed

subsection \<open>Properties\<close>

text \<open>C4. A body with a known end is forwarded intact: however the backend's bytes are cut into
  pieces, the loop ends without error, what it writes decodes to the same data, and the
  connection is left at the first byte after the body.  A chunked body is written as a
  chunked body.\<close>

theorem forward_chunked_body:
  assumes "conn_good c" and "body_stream (BChunked 0 False False False) (wire c) d rest"
  shows "\<exists>out b' c'. forward_proxy_body (BChunked 0 False False False) c w = (Inr (), b', c', w @ out) \<and> wire c' = rest
    \<and> (\<forall>tail. body_stream (BChunked 0 False False False) (out @ tail) d tail)"
proof -
  obtain r b' c' w' where f: "forward_loop True (BChunked 0 False False False) c [] w = (r, b', c', w')" by (metis prod_cases4)
  then obtain out batch where o: "r = Inr batch" "w' @ batch = w @ out" "framed True d out" "wire c' = rest"
    using forward_loop_ok [OF assms, of True w "[]"] by (auto simp: delivered_def)
  have "forward_proxy_body (BChunked 0 False False False) c w = (Inr (), b', c', w @ out @ ''0'' @ CRLF @ CRLF)"
    using f o(1,2) by (simp add: forward_proxy_body_def hint_def write_proxy_body_batch_def)
  then show ?thesis using o(4) body_stream_framed [OF o(3)] by (intro exI [of _ "out @ ''0'' @ CRLF @ CRLF"]) auto
qed

definition sample_conn :: h1_conn where
  "sample_conn = conn_new [Data ''2'', Data [CHR 0x0D], Data (CHR 0x0A # ''a''), Data (''b'' @ CRLF), Data (''0'' @ CRLF @ CRLF @ ''next'')]"

lemma sample_conn_stream: "conn_good sample_conn" "body_stream (BChunked 0 False False False) (wire sample_conn) ''ab'' ''next''"
proof -
  show "conn_good sample_conn" by (simp add: sample_conn_def conn_good_def conn_new_def conn_ok_def io_good_def)
  have "chunk_frame True ''ab'' = ''2'' @ CRLF @ ''ab'' @ CRLF"
    by (simp add: chunk_frame_def show_base.simps digit_char_def)
  moreover have "wire sample_conn = ''2'' @ CRLF @ ''ab'' @ CRLF @ ''0'' @ CRLF @ CRLF @ ''next''"
    by (simp add: sample_conn_def wire_def unread_def future_def conn_new_def CRLF_def)
  moreover have "framed True ''ab'' (chunk_frame True ''ab'')"
    using framed_Cons [of "''ab''" True "[]" "[]"] by (simp add: PROXY_WRITE_BATCH_SIZE_def)
  ultimately show "body_stream (BChunked 0 False False False) (wire sample_conn) ''ab'' ''next''"
    using body_stream_framed [of "''ab''" "chunk_frame True ''ab''" "''next''"] by simp
qed

theorem forward_chunked_body_witness:
  "\<exists>out b' c'. forward_proxy_body (BChunked 0 False False False) sample_conn [] = (Inr (), b', c', out) \<and> wire c' = ''next''"
  using forward_chunked_body [OF sample_conn_stream, of "[]"] by auto

text \<open>A body of \<open>n\<close> bytes is forwarded as exactly these bytes, and the connection is left at
  the next message.\<close>

theorem forward_fixed_body:
  assumes "conn_good c" and "wire c = d @ rest"
  shows "\<exists>b' c'. forward_proxy_body (BFixed (length d)) c w = (Inr (), b', c', w @ d) \<and> wire c' = rest"
proof -
  have s: "body_stream (BFixed (length d)) (wire c) d rest" unfolding assms(2) by (rule fixed)
  obtain r b' c' w' where f: "forward_loop False (BFixed (length d)) c [] w = (r, b', c', w')" by (metis prod_cases4)
  then obtain out batch where o: "r = Inr batch" "w' @ batch = w @ out" "framed False d out" "wire c' = rest"
    using forward_loop_ok [OF assms(1) s, of False w "[]"] by (auto simp: delivered_def)
  have "map (chunk_frame False) xs = xs" for xs by (induction xs) (simp_all add: chunk_frame_def)
  then have "out = d" using o(3) by (auto simp: framed_def)
  with f o show ?thesis by (auto simp: forward_proxy_body_def hint_def write_proxy_body_batch_def)
qed

theorem forward_fixed_body_witness:
  "\<exists>b' c'. forward_proxy_body (BFixed 3) (conn_new [Data ''a'', Data ''bcd'']) [] = (Inr (), b', c', ''abc'') \<and> wire c' = ''d''"
  using forward_fixed_body [of "conn_new [Data ''a'', Data ''bcd'']" "''abc''" "''d''" "[]"]
  by (simp add: conn_good_def conn_new_def conn_ok_def io_good_def wire_def unread_def future_def numeral_3_eq_3)

text \<open>C9. A request is recognised however its bytes are cut into pieces: reading from a connection
  on which an encoded head arrives gives that head with its body framing, and leaves the
  connection at the first byte of the body.\<close>

theorem request_any_pieces:
  assumes "conn_good c" and "head_ok lib h" and "wire c = encode_request_head h @ rest"
    and "length (encode_request_head h) \<le> MAX_HEADER_SIZE"
  shows "\<exists>c'. next_request lib c = (Inr (Some (h, request_body_from_headers lib h)), c') \<and> wire c' = rest"
proof -
  have enc: "encode_request_head h = request_text h @ CRLF @ CRLF" by (rule encode_request_text)
  have "find_sub (CRLF @ CRLF) (wire c) = Some (length (request_text h))"
    using request_text_double [OF assms(2)] assms(3) by simp
  moreover have "length (request_text h) + 3 \<le> MAX_HEADER_SIZE" using assms(4) enc by simp
  moreover have "take (length (request_text h)) (wire c) = request_text h" using assms(3) enc by simp
  ultimately obtain c' where "read_headers c = (Inr (Some (request_text h)), c')" "wire c = request_text h @ CRLF @ CRLF @ wire c'"
    using read_headers_good [OF assms(1)] by metis
  then show ?thesis using parse_request_text [OF assms(2)] assms(3) enc by (simp add: next_request_def)
qed

theorem request_any_pieces_witness:
  "\<exists>c'. next_request ascii_lib (conn_new [Data ''GET'', Data '' /a?b HTTP/1.1'', Data (CRLF @ ''host: x.y'' @ CRLF @ ''accept: a, b'' @ CRLF
      @ ''accept: c'' @ [CHR 0x0D]), Data (CHR 0x0A # CRLF @ ''body'')]) =
     (Inr (Some (sample_request, request_body_from_headers ascii_lib sample_request)), c') \<and> wire c' = ''body''"
  by (rule request_any_pieces [OF _ sample_request_ok])
    (simp_all add: conn_good_def conn_new_def conn_ok_def io_good_def wire_def unread_def future_def CRLF_def
      encode_request_head_def sample_request_def version_bytes_def hm_iter_def MAX_HEADER_SIZE_def)

text \<open>A head costs bounded memory: whatever the peer sends and however the call ends, at most
  \<open>MAX_HEADER_SIZE + READ_BUF_SIZE\<close> bytes are buffered.\<close>

theorem header_memory_bound:
  "conn_ok c \<Longrightarrow> buffered_len c \<le> MAX_HEADER_SIZE + READ_BUF_SIZE \<Longrightarrow>
     buffered_len (snd (read_headers c)) \<le> MAX_HEADER_SIZE + READ_BUF_SIZE"
proof (induction c rule: read_headers.induct)
  case (1 c)
  obtain r c1 where m: "read_more c = (r, c1)" by fastforce
  note w = fill_buf_wire [OF "1.prems"(1) m [unfolded read_more_def]]
  have io: "buffered_len c1 \<le> buffered_len c + READ_BUF_SIZE"
    using m io_read_bytes
    by (fastforce simp: read_more_def fill_buf_def buffered_len_def Let_def READ_BUF_SIZE_def
        split: option.splits prod.splits sum.splits if_splits)
  have cons: "find_double_crlf c = Some i \<Longrightarrow> buffered_len (consume (i + 4) c) \<le> buffered_len c" for i
    using buffered_consume [of "i + 4" c] find_sub_SomeD [of "CRLF @ CRLF" "unread c" i] by (simp add: find_double_crlf_def)
  show ?case
    using "1.prems"(2) io cons "1.IH" m w(1)
    by (subst read_headers.simps) (force split: option.splits sum.splits)
qed

theorem header_memory_bound_witness:
  "buffered_len (snd (read_headers (conn_new [Data (replicate 100 (CHR ''x''))]))) \<le> MAX_HEADER_SIZE + READ_BUF_SIZE"
  by (rule header_memory_bound [OF conn_ok_new(1)]) (simp add: conn_new_def buffered_len_def)

end
