(* ===== verification/Caddy_Token.thy ===== *)
theory Caddy_Token
  imports Rust_Text
begin

text \<open>
  Tokens of a Caddyfile and their grouping into segments: \<open>caddyfile/token.rs\<close>,
  \<open>caddyfile/toks.rs\<close>, the grammar \<open>caddyfile/grammar.lalrpop\<close> and \<open>parse_segments\<close> of
  \<open>caddyfile/mod.rs\<close>.  The grammar is an inductive definition, rule by rule; the parser is a
  function, shown to compute exactly the relation the grammar defines.
\<close>

subsection \<open>Tokens\<close>

datatype quote = QNone | QDouble | QBacktick | QHeredoc

definition is_quote :: "quote \<Rightarrow> bool" where
  "is_quote q = (q \<noteq> QNone)"

record token =
  t_file :: string
  t_imports :: "string list"
  t_line :: nat
  t_text :: string
  t_quote :: quote
  t_marker :: string
  t_snippet :: string

definition token_new :: "string \<Rightarrow> nat \<Rightarrow> token" where
  "token_new s l = \<lparr>t_file = [], t_imports = [], t_line = l, t_text = s, t_quote = QNone, t_marker = [], t_snippet = []\<rparr>"

definition token_quoted :: "token \<Rightarrow> bool" where
  "token_quoted t = is_quote (t_quote t)"

definition num_line_breaks :: "token \<Rightarrow> nat" where
  "num_line_breaks t =
     (let breaks = count_list (t_text t) (CHR 0x0A)
      in if t_quote t = QHeredoc then breaks + 2 else breaks)"

definition is_next_on_new_line :: "token \<Rightarrow> token \<Rightarrow> bool" where
  "is_next_on_new_line t1 t2 =
     (if t_file t1 \<noteq> t_file t2 then True
      else if length (t_imports t1) \<noteq> length (t_imports t2) then True
      else if list_ex (\<lambda>(a, b). a \<noteq> b) (zip (t_imports t1) (t_imports t2)) then True
      else t_line t1 + num_line_breaks t1 < t_line t2)"

lemma zip_differs: "length xs = length ys \<Longrightarrow> list_ex (\<lambda>(a, b). a \<noteq> b) (zip xs ys) \<longleftrightarrow> xs \<noteq> ys"
  by (induction xs ys rule: list_induct2) auto

lemma is_next_on_new_line_iff:
  "is_next_on_new_line t1 t2 \<longleftrightarrow>
     t_file t1 \<noteq> t_file t2 \<or> t_imports t1 \<noteq> t_imports t2 \<or> t_line t1 + num_line_breaks t1 < t_line t2"
  by (auto simp: is_next_on_new_line_def zip_differs)

subsection \<open>Terminals of the grammar\<close>

datatype tok = Word token | Open token | Close token | Nl

type_synonym spanned = "nat \<times> tok \<times> nat"

definition terminal :: "token \<Rightarrow> tok" where
  "terminal t = (if t_text t = ''{'' then Open t else if t_text t = ''}'' then Close t else Word t)"

fun spanned_loop :: "nat \<Rightarrow> token option \<Rightarrow> token list \<Rightarrow> spanned list \<Rightarrow> spanned list" where
  "spanned_loop i prev [] out = out"
| "spanned_loop i prev (t # ts) out =
     (let pending_nl = (case prev of None \<Rightarrow> False | Some p \<Rightarrow> is_next_on_new_line p t);
          out1 = (if pending_nl \<and> out \<noteq> [] then out @ [(i, Nl, i)] else out)
      in spanned_loop (Suc i) (Some t) ts (out1 @ [(i, terminal t, Suc i)]))"

definition to_spanned :: "token list \<Rightarrow> spanned list" where
  "to_spanned tokens = spanned_loop 0 None tokens []"

subsection \<open>The grammar\<close>

inductive block :: "tok list \<Rightarrow> token list \<Rightarrow> bool"
  and balanced :: "tok list \<Rightarrow> token list \<Rightarrow> bool"
  and bal_item :: "tok list \<Rightarrow> token list \<Rightarrow> bool" where
  block: "balanced b v \<Longrightarrow> block (Open o' # b @ [Close c]) (o' # v @ [c])"
| balanced_none: "balanced [] []"
| balanced_more: "balanced b v \<Longrightarrow> bal_item p w \<Longrightarrow> balanced (b @ p) (v @ w)"
| bal_word: "bal_item [Word w] [w]"
| bal_nl: "bal_item [Nl] []"
| bal_block: "block b v \<Longrightarrow> bal_item b v"

inductive seg_item :: "tok list \<Rightarrow> token list \<Rightarrow> bool" where
  seg_word: "seg_item [Word w] [w]"
| seg_block: "block b v \<Longrightarrow> seg_item b v"

inductive seg_items :: "tok list \<Rightarrow> token list \<Rightarrow> bool" where
  items_none: "seg_items [] []"
| items_more: "seg_items is v \<Longrightarrow> seg_item p w \<Longrightarrow> seg_items (is @ p) (v @ w)"

inductive segment :: "tok list \<Rightarrow> token list \<Rightarrow> bool" where
  segment: "seg_items rest v \<Longrightarrow> segment (Word first # rest) (first # v)"

inductive directives :: "tok list \<Rightarrow> token list list \<Rightarrow> bool" where
  dir_none: "directives [] []"
| dir_one: "segment s v \<Longrightarrow> directives s [v]"
| dir_more: "directives ds vs \<Longrightarrow> segment s v \<Longrightarrow> directives (ds @ Nl # s) (vs @ [v])"

subsection \<open>The parser\<close>

text \<open>\<open>segs d cur\<close> reads on in segment \<open>cur\<close> below \<open>d\<close> open braces.\<close>

fun segs :: "nat \<Rightarrow> token list \<Rightarrow> tok list \<Rightarrow> token list list option" where
  "segs 0 cur [] = Some [cur]"
| "segs (Suc d) cur [] = None"
| "segs d cur (Word t # r) = segs d (cur @ [t]) r"
| "segs d cur (Open t # r) = segs (Suc d) (cur @ [t]) r"
| "segs 0 cur (Close t # r) = None"
| "segs (Suc d) cur (Close t # r) = segs d (cur @ [t]) r"
| "segs (Suc d) cur (Nl # r) = segs (Suc d) cur r"
| "segs 0 cur (Nl # Word t # r) = map_option ((#) cur) (segs 0 [t] r)"
| "segs 0 cur (Nl # _) = None"

fun parse_directives :: "tok list \<Rightarrow> token list list option" where
  "parse_directives [] = Some []"
| "parse_directives (Word t # r) = segs 0 [t] r"
| "parse_directives (Nl # Word t # r) = segs 0 [t] r"
| "parse_directives _ = None"

definition parse_segments :: "token list \<Rightarrow> token list list option" where
  "parse_segments tokens = parse_directives (map (\<lambda>(i, t, j). t) (to_spanned tokens))"

subsection \<open>The parser computes the grammar\<close>

lemma segs_append_block:
  shows "block b v \<Longrightarrow> segs d cur (b @ r) = segs d (cur @ v) r"
    and "balanced b v \<Longrightarrow> segs (Suc d) cur (b @ r) = segs (Suc d) (cur @ v) r"
    and "bal_item b v \<Longrightarrow> segs (Suc d) cur (b @ r) = segs (Suc d) (cur @ v) r"
  by (induction arbitrary: d cur r and d cur r and d cur r rule: block_balanced_bal_item.inducts) auto

lemma segs_append_item: "seg_item p w \<Longrightarrow> segs d cur (p @ r) = segs d (cur @ w) r"
  by (induction rule: seg_item.induct) (auto simp: segs_append_block)

lemma segs_append_items: "seg_items is v \<Longrightarrow> segs d cur (is @ r) = segs d (cur @ v) r"
  by (induction arbitrary: r rule: seg_items.induct) (auto simp: segs_append_item)

lemma segs_then_nl:
  "segs d cur ts = Some out \<Longrightarrow> segs d cur (ts @ Nl # Word t # r) = map_option ((@) out) (segs 0 [t] r)"
  by (induction d cur ts arbitrary: out rule: segs.induct; cases "segs 0 [t] r") auto

lemma directives_parsed: "directives ts vs \<Longrightarrow> parse_directives ts = Some vs"
proof (induction rule: directives.induct)
  case (dir_one s v)
  then show ?case
    using segs_append_items [of _ _ 0 _ "[]"] by (auto elim!: segment.cases)
next
  case (dir_more ds vs s v)
  obtain first rest w where s: "s = Word first # rest" "v = first # w" "seg_items rest w"
    using dir_more.hyps(2) by (auto elim!: segment.cases)
  have "segs 0 [first] rest = Some [v]" using segs_append_items [OF s(3), of 0 "[first]" "[]"] s(2) by simp
  then show ?case
    using dir_more.IH s(1) segs_then_nl [of 0 _ _ vs first rest]
    by (cases ds rule: parse_directives.cases) auto
qed simp

lemma balanced_Cons: "balanced b v \<Longrightarrow> bal_item p w \<Longrightarrow> balanced (p @ b) (w @ v)"
proof (induction "b" "v" rule: block_balanced_bal_item.inducts(2) [where ?P1.0 = "\<lambda>_ _. True" and ?P3.0 = "\<lambda>_ _. True"])
  case balanced_none
  then show ?case using balanced_more [OF block_balanced_bal_item.balanced_none] by simp
next
  case (balanced_more b v p' w')
  then show ?case using block_balanced_bal_item.balanced_more by fastforce
qed auto

lemma segs_open:
  "segs (Suc d) cur ts = Some out \<Longrightarrow>
     \<exists>b v c r. ts = b @ Close c # r \<and> balanced b v \<and> segs d (cur @ v @ [c]) r = Some out"
proof (induction ts arbitrary: d cur rule: length_induct)
  case (1 ts)
  show ?case
  proof (cases ts)
    case Nil
    then show ?thesis using "1.prems" by simp
  next
    case (Cons x r)
    note IH = "1.IH" [rule_format, OF _]
    have step: ?thesis if p: "ts = p @ s" "bal_item p w" "segs (Suc d) (cur @ w) s = Some out" "p \<noteq> []" for p w s
    proof -
      obtain b v c r' where b: "s = b @ Close c # r'" "balanced b v" "segs d ((cur @ w) @ v @ [c]) r' = Some out"
        using IH [OF _ p(3)] p(1,4) by auto
      then show ?thesis
        using balanced_Cons [OF b(2) p(2)] p(1)
        by (intro exI [of _ "p @ b"] exI [of _ "w @ v"] exI [of _ c] exI [of _ r']) simp
    qed
    show ?thesis
    proof (cases x)
      case (Word t)
      then show ?thesis using step [of "[x]" r "[t]"] Cons "1.prems" bal_word by simp
    next
      case Nl
      then show ?thesis using step [of "[x]" r "[]"] Cons "1.prems" bal_nl by simp
    next
      case (Close t)
      then show ?thesis using Cons "1.prems" balanced_none
        by (intro exI [of _ "[]"] exI [of _ "[]"]) simp
    next
      case (Open t)
      then have "segs (Suc (Suc d)) (cur @ [t]) r = Some out" using Cons "1.prems" by simp
      then obtain b v c s where b: "r = b @ Close c # s" "balanced b v" "segs (Suc d) ((cur @ [t]) @ v @ [c]) s = Some out"
        using IH [of r] Cons by fastforce
      then show ?thesis
        using step [of "Open t # b @ [Close c]" s "t # v @ [c]"] bal_block [OF block [OF b(2)]] Cons Open by simp
    qed
  qed
qed

lemma items_Cons: "seg_items is v \<Longrightarrow> seg_item p w \<Longrightarrow> seg_items (p @ is) (w @ v)"
proof (induction rule: seg_items.induct)
  case items_none
  then show ?case using items_more [OF seg_items.items_none] by simp
next
  case (items_more "is" v p' w')
  then show ?case using seg_items.items_more by fastforce
qed

lemma directives_Cons: "directives ds vs \<Longrightarrow> ds \<noteq> [] \<Longrightarrow> hd ds \<noteq> Nl \<Longrightarrow> segment s v \<Longrightarrow> directives (s @ Nl # ds) (v # vs)"
proof (induction rule: directives.induct)
  case (dir_one s' v')
  then show ?case using dir_more [OF directives.dir_one] by fastforce
next
  case (dir_more ds vs s' v')
  show ?case
  proof (cases "ds = []")
    case False
    then show ?thesis using dir_more directives.dir_more [of "s @ Nl # ds"] by fastforce
  qed (use dir_more in simp)
qed simp

lemma segs_top:
  "segs 0 cur ts = Some out \<Longrightarrow>
     \<exists>is v. seg_items is v \<and> (ts = is \<and> out = [cur @ v] \<or>
       (\<exists>t r vs. ts = is @ Nl # Word t # r \<and> segs 0 [t] r = Some vs \<and> out = (cur @ v) # vs))"
proof (induction ts arbitrary: cur rule: length_induct)
  case (1 ts)
  note IH = "1.IH" [rule_format, OF _]
  have step: ?case if p: "ts = p @ s" "seg_item p w" "segs 0 (cur @ w) s = Some out" "p \<noteq> []" for p w s
  proof -
    obtain "is" v where i: "seg_items is v"
      "s = is \<and> out = [(cur @ w) @ v] \<or> (\<exists>t r vs. s = is @ Nl # Word t # r \<and> segs 0 [t] r = Some vs \<and> out = ((cur @ w) @ v) # vs)"
      using IH [OF _ p(3)] p(1,4) by auto
    show ?thesis
      using items_Cons [OF i(1) p(2)] i(2) p(1) by (intro exI [of _ "p @ is"] exI [of _ "w @ v"]) auto
  qed
  show ?case
  proof (cases "(0::nat, cur, ts)" rule: segs.cases)
    case (3 d cur' t r)
    then show ?thesis using step [of "[Word t]" r "[t]"] seg_word "1.prems" by simp
  next
    case (4 d cur' t r)
    then have "segs (Suc 0) (cur @ [t]) r = Some out" using "1.prems" by simp
    then obtain b v c s where b: "r = b @ Close c # s" "balanced b v" "segs 0 ((cur @ [t]) @ v @ [c]) s = Some out"
      using segs_open by blast
    then show ?thesis
      using step [of "Open t # b @ [Close c]" s "t # v @ [c]"] seg_block [OF block [OF b(2)]] 4 by simp
  next
    case (1 cur')
    then show ?thesis using "1.prems" items_none by (intro exI [of _ "[]"]) simp
  next
    case (8 cur' t r)
    then show ?thesis using "1.prems" items_none by (intro exI [of _ "[]"]) auto
  qed (use "1.prems" in auto)
qed

lemma segs_sound: "segs 0 [t] ts = Some out \<Longrightarrow> directives (Word t # ts) out"
proof (induction ts arbitrary: t out rule: length_induct)
  case (1 ts)
  obtain "is" v where i: "seg_items is v"
    "ts = is \<and> out = [[t] @ v] \<or> (\<exists>u r vs. ts = is @ Nl # Word u # r \<and> segs 0 [u] r = Some vs \<and> out = ([t] @ v) # vs)"
    using segs_top [OF "1.prems"] by blast
  have s: "segment (Word t # is) (t # v)" using i(1) by (rule segment)
  from i(2) show ?case
  proof
    assume "ts = is \<and> out = [[t] @ v]"
    then show ?thesis using dir_one [OF s] by simp
  next
    assume "\<exists>u r vs. ts = is @ Nl # Word u # r \<and> segs 0 [u] r = Some vs \<and> out = ([t] @ v) # vs"
    then obtain u r vs where u: "ts = is @ Nl # Word u # r" "segs 0 [u] r = Some vs" "out = ([t] @ v) # vs" by blast
    then have "directives (Word u # r) vs" using "1.IH" by simp
    then show ?thesis using directives_Cons [OF _ _ _ s, of "Word u # r" vs] u by simp
  qed
qed

lemma leading_nl: "directives ds vs \<Longrightarrow> ds \<noteq> [] \<Longrightarrow> hd ds \<noteq> Nl \<Longrightarrow> directives (Nl # ds) vs"
proof (induction rule: directives.induct)
  case (dir_one s v)
  then show ?case using dir_more [OF dir_none, of s v] by simp
next
  case (dir_more ds vs s v)
  have "ds \<noteq> []" using dir_more.prems(2) by auto
  then show ?case
    using directives.dir_more [of "Nl # ds" vs s v] dir_more by simp
qed simp

lemma parse_directives_iff: "parse_directives ts = Some vs \<longleftrightarrow> directives ts vs"
proof
  assume p: "parse_directives ts = Some vs"
  show "directives ts vs"
  proof (cases ts rule: parse_directives.cases)
    case (3 t r)
    then have "directives (Word t # r) vs" using p segs_sound by simp
    then show ?thesis
      using 3 leading_nl by simp
  qed (use p segs_sound dir_none in auto)
qed (rule directives_parsed)

subsection \<open>Segments keep the tokens\<close>

fun tok_token :: "tok \<Rightarrow> token list" where
  "tok_token (Word t) = [t]"
| "tok_token (Open t) = [t]"
| "tok_token (Close t) = [t]"
| "tok_token Nl = []"

fun stream :: "token option \<Rightarrow> token list \<Rightarrow> tok list" where
  "stream prev [] = []"
| "stream prev (t # ts) =
     (case prev of None \<Rightarrow> [] | Some p \<Rightarrow> if is_next_on_new_line p t then [Nl] else []) @ terminal t # stream (Some t) ts"

lemma spanned_stream:
  "(prev = None) = (out = []) \<Longrightarrow>
     map (\<lambda>(i, t, j). t) (spanned_loop i prev ts out) = map (\<lambda>(i, t, j). t) out @ stream prev ts"
proof (induction ts arbitrary: i prev out)
  case (Cons t ts)
  show ?case
  proof (cases prev)
    case None
    then show ?thesis using Cons.prems Cons.IH [of "Some t"] by simp
  next
    case (Some p)
    then show ?thesis using Cons.prems Cons.IH [of "Some t"] by simp
  qed
qed simp

lemma parse_segments_stream: "parse_segments ts = parse_directives (stream None ts)"
  by (simp add: parse_segments_def to_spanned_def spanned_stream)

lemma tok_token_terminal [simp]: "tok_token (terminal t) = [t]"
  by (simp add: terminal_def)

lemma stream_tokens: "concat (map tok_token (stream prev ts)) = ts"
  by (induction ts arbitrary: prev) (auto split: option.split)

lemma segs_tokens: "segs d cur ts = Some out \<Longrightarrow> concat out = cur @ concat (map tok_token ts)"
  by (induction d cur ts arbitrary: out rule: segs.induct) auto

lemma parsed_tokens: "parse_directives ts = Some out \<Longrightarrow> concat out = concat (map tok_token ts)"
  using segs_tokens by (cases ts rule: parse_directives.cases) fastforce+

text \<open>Nesting depth after reading tokens, \<open>None\<close> when a brace closes that was not opened.\<close>

fun depth :: "token list \<Rightarrow> nat \<Rightarrow> nat option" where
  "depth [] d = Some d"
| "depth (t # ts) d =
     (if t_text t = ''{'' then depth ts (Suc d)
      else if t_text t = ''}'' then (case d of 0 \<Rightarrow> None | Suc e \<Rightarrow> depth ts e)
      else depth ts d)"

definition segment_ok :: "token list \<Rightarrow> bool" where
  "segment_ok s \<longleftrightarrow> s \<noteq> [] \<and> t_text (hd s) \<notin> {''{'', ''}''} \<and> depth s 0 = Some 0"

lemma depth_append: "depth (xs @ ys) d = Option.bind (depth xs d) (depth ys)"
  by (induction xs d rule: depth.induct) (auto split: nat.splits)

definition true_tok :: "tok \<Rightarrow> bool" where
  "true_tok x = (\<forall>t \<in> set (tok_token x). x = terminal t)"

lemma stream_true: "x \<in> set (stream prev ts) \<Longrightarrow> true_tok x"
  by (induction prev ts rule: stream.induct) (auto simp: true_tok_def split: option.splits if_splits)

lemma true_toks [simp]:
  "true_tok (Word t) \<longleftrightarrow> t_text t \<noteq> ''{'' \<and> t_text t \<noteq> ''}''"
  "true_tok (Open t) \<longleftrightarrow> t_text t = ''{''"
  "true_tok (Close t) \<longleftrightarrow> t_text t = ''}''"
  by (auto simp: true_tok_def terminal_def)

definition open_segment :: "nat \<Rightarrow> token list \<Rightarrow> bool" where
  "open_segment d s \<longleftrightarrow> s \<noteq> [] \<and> t_text (hd s) \<notin> {''{'', ''}''} \<and> depth s 0 = Some d"

lemma open_segment_step:
  "true_tok (Word t) \<Longrightarrow> open_segment 0 [t]"
  "open_segment d cur \<Longrightarrow> true_tok (Word t) \<Longrightarrow> open_segment d (cur @ [t])"
  "open_segment d cur \<Longrightarrow> true_tok (Open t) \<Longrightarrow> open_segment (Suc d) (cur @ [t])"
  "open_segment (Suc d) cur \<Longrightarrow> true_tok (Close t) \<Longrightarrow> open_segment d (cur @ [t])"
  by (simp_all add: open_segment_def depth_append)

lemma segs_balanced:
  "segs d cur ts = Some out \<Longrightarrow> \<forall>x \<in> set ts. true_tok x \<Longrightarrow> open_segment d cur \<Longrightarrow> \<forall>s \<in> set out. segment_ok s"
proof (induction d cur ts arbitrary: out rule: segs.induct)
  case (1 cur)
  then show ?case by (auto simp: segment_ok_def open_segment_def)
next
  case (8 cur t r)
  then obtain vs where vs: "segs 0 [t] r = Some vs" "out = cur # vs" by auto
  have "\<forall>s \<in> set vs. segment_ok s" using 8 vs open_segment_step(1) by simp
  then show ?case using 8(4) vs(2) by (simp add: segment_ok_def open_segment_def)
qed (simp_all add: open_segment_step)

lemma segs_cut:
  "segs d cur (stream (Some p) ts) = Some out \<Longrightarrow> cur \<noteq> [] \<Longrightarrow> last cur = p \<Longrightarrow>
     \<exists>w r. out = (cur @ w) # r \<and> successively (\<lambda>s s'. is_next_on_new_line (last s) (hd s')) out"
proof (induction ts arbitrary: d cur p out)
  case Nil
  then show ?case by (cases d) auto
next
  case (Cons t ts)
  have ext: ?case if "segs d' (cur @ [t]) (stream (Some t) ts) = Some out" for d'
    using Cons.IH [OF that] by auto
  show ?case
  proof (cases "d = 0 \<and> is_next_on_new_line p t")
    case True
    then obtain vs where vs: "segs 0 [t] (stream (Some t) ts) = Some vs" "out = cur # vs"
      using Cons.prems(1) by (cases "terminal t") (auto simp: terminal_def split: if_splits)
    then obtain w r where "vs = ([t] @ w) # r" "successively (\<lambda>s s'. is_next_on_new_line (last s) (hd s')) vs"
      using Cons.IH [of 0 "[t]" t vs] by auto
    with vs(2) True Cons.prems(3) show ?thesis by auto
  next
    case False
    have "\<exists>d'. segs d' (cur @ [t]) (stream (Some t) ts) = Some out"
      using Cons.prems(1) False by (cases d) (auto simp: terminal_def split: if_splits)
    with ext show ?thesis by blast
  qed
qed

subsection \<open>Properties\<close>


text \<open>Grouping loses no token: the segments are the token run, cut at places where a new line
  starts, and every segment begins with a directive name and closes the braces it opens.\<close>

theorem segments_partition:
  assumes "parse_segments ts = Some vs"
  shows "concat vs = ts \<and> (\<forall>s \<in> set vs. segment_ok s) \<and>
    successively (\<lambda>s s'. is_next_on_new_line (last s) (hd s')) vs"
proof (intro conjI)
  have p: "parse_directives (stream None ts) = Some vs" using assms parse_segments_stream by simp
  show "concat vs = ts" using parsed_tokens [OF p] stream_tokens by simp
  have t: "\<forall>x \<in> set (stream None ts). true_tok x" using stream_true by blast
  show "\<forall>s \<in> set vs. segment_ok s"
    using p t by (cases "stream None ts" rule: parse_directives.cases)
      (simp_all add: segs_balanced [OF _ _ open_segment_step(1)])
  show "successively (\<lambda>s s'. is_next_on_new_line (last s) (hd s')) vs"
  proof (cases ts)
    case (Cons x xs)
    then have "segs 0 [x] (stream (Some x) xs) = Some vs" using p by (auto simp: terminal_def split: if_splits)
    then show ?thesis using segs_cut [of 0 "[x]" x xs vs] by auto
  qed (use p in simp)
qed

definition sample_run :: "token list" where
  "sample_run = [token_new ''handle'' 1, token_new ''{'' 1, token_new ''respond'' 2, token_new ''}'' 3, token_new ''header'' 4]"

theorem segments_partition_witness:
  "\<exists>vs. parse_segments sample_run = Some vs \<and> length vs = 2 \<and> concat vs = sample_run \<and> (\<forall>s \<in> set vs. segment_ok s)"
proof -
  have p: "parse_segments sample_run = Some [take 4 sample_run, drop 4 sample_run]"
    by (simp add: sample_run_def parse_segments_def to_spanned_def token_new_def terminal_def is_next_on_new_line_def
        num_line_breaks_def)
  show ?thesis using segments_partition [OF p] p by auto
qed

end
