(* ===== verification/Caddy_Lexer.thy ===== *)
theory Caddy_Lexer
  imports Caddy_Token Wire
begin

text \<open>
  The lexer of Caddyfiles, \<open>caddyfile/lexer.rs\<close>: substitution of environment variables, then
  tokens with line numbers, quotes, comments, line continuations and heredocs.  A Rust \<open>char\<close>
  is the string of its UTF-8 bytes; the lexer's \<open>chars\<close> and \<open>pos\<close> are the list of the characters
  not yet read.  A slice out of range, which panics, is the error \<open>SlicePanic\<close>.
\<close>

datatype caddy_error =
    IncompleteHeredoc string nat
  | MissingHeredocMarker nat
  | TooManyAngles nat
  | BadHeredocMarker nat string
  | MismatchedIndent string nat string string
  | SlicePanic
  | UnclosedBlock nat
  | ImportNoPath nat
  | ImportCycle string string
  | TooManyImports
  | GlobWildcards string
  | ImportNotFound string string nat
  | ImportUnreadable string
  | AnonymousBlock
  | MatcherOutsideSite string
  | ExtraComma string
  | AddressBrace string
  | AddressComma string
  | AtToken string string nat
  | SyntaxError string string string nat
  | GrammarError

subsection \<open>Characters\<close>

definition char_width :: "char \<Rightarrow> nat" where
  "char_width c = (if byte_val c < 128 then 1 else if byte_val c < 224 then 2 else if byte_val c < 240 then 3 else 4)"

function chars :: "string \<Rightarrow> string list" where
  "chars [] = []"
| "chars (c # s) = (c # take (char_width c - 1) s) # chars (drop (char_width c - 1) s)"
  by pat_completeness auto
termination by (relation "measure length") auto

abbreviation LF :: string where "LF \<equiv> [CHR 0x0A]"
abbreviation CR :: string where "CR \<equiv> [CHR 0x0D]"
abbreviation BACKSLASH :: string where "BACKSLASH \<equiv> [CHR 0x5C]"
abbreviation DQUOTE :: string where "DQUOTE \<equiv> [CHR 0x22]"
abbreviation BACKTICK :: string where "BACKTICK \<equiv> [CHR 0x60]"

definition BOM :: string where
  "BOM = [CHR 0xEF, CHR 0xBB, CHR 0xBF]"

definition is_whitespace :: "string \<Rightarrow> bool" where
  "is_whitespace ch = (ch \<in> set ws_prefix)"

definition is_marker_char :: "string \<Rightarrow> bool" where
  "is_marker_char ch = (case ch of
     [c] \<Rightarrow> (48 \<le> byte_val c \<and> byte_val c \<le> 57) \<or> (65 \<le> byte_val c \<and> byte_val c \<le> 90)
       \<or> (97 \<le> byte_val c \<and> byte_val c \<le> 122) \<or> c = CHR ''_'' \<or> c = CHR ''-''
   | _ \<Rightarrow> False)"

definition is_valid_heredoc_marker :: "string \<Rightarrow> bool" where
  "is_valid_heredoc_marker marker = (marker \<noteq> [] \<and> list_all is_marker_char (chars marker))"

lemma concat_chars [simp]: "concat (chars s) = s"
  by (induction s rule: chars.induct) auto

subsection \<open>Environment variables\<close>

function env_loop :: "(string \<Rightarrow> string option) \<Rightarrow> string \<Rightarrow> nat \<Rightarrow> string" where
  "env_loop env input offset =
     (case find_sub ''{$'' (drop offset input) of
        None \<Rightarrow> input
      | Some begin_rel \<Rightarrow>
          (let begin = begin_rel + offset; search_from = begin + 2
           in case find_sub ''}'' (drop search_from input) of
                None \<Rightarrow> input
              | Some end_rel \<Rightarrow>
                  (let end' = end_rel + search_from; env_string = take end_rel (drop search_from input)
                   in if env_string = [] then env_loop env input (end' + 1)
                      else
                        (let (key, default) = (case split_once (CHR '':'') env_string of
                               None \<Rightarrow> (env_string, None) | Some (k, d) \<Rightarrow> (k, Some d));
                             value = (case env key of Some v \<Rightarrow> v | None \<Rightarrow> (case default of None \<Rightarrow> [] | Some d \<Rightarrow> d))
                         in env_loop env (take begin input @ value @ drop (end' + 1) input) (begin + length value)))))"
  by pat_completeness auto
termination
proof (relation "measure (\<lambda>(env, input, offset). length input - offset)", goal_cases)
  case (2 env input offset b bb sf e ee es)
  then have "b + 2 \<le> length (drop offset input)" "e + 1 \<le> length (drop sf input)"
    using find_sub_SomeD by fastforce+
  with 2 show ?case by simp
next
  case (3 env input offset b bb sf e ee es pr k d v)
  then have "b + 2 \<le> length (drop offset input)" "e + 1 \<le> length (drop sf input)"
    using find_sub_SomeD by fastforce+
  with 3 show ?case by simp
qed simp

declare env_loop.simps [simp del]

definition replace_env_vars :: "(string \<Rightarrow> string option) \<Rightarrow> string \<Rightarrow> string" where
  "replace_env_vars env input = env_loop env input 0"

subsection \<open>Heredocs\<close>

fun rposition :: "'a \<Rightarrow> 'a list \<Rightarrow> nat option" where
  "rposition c [] = None"
| "rposition c (x # xs) = (case rposition c xs of Some i \<Rightarrow> Some (Suc i) | None \<Rightarrow> if x = c then Some 0 else None)"

fun heredoc_lines :: "string list \<Rightarrow> string \<Rightarrow> nat \<Rightarrow> nat \<Rightarrow> string list list \<Rightarrow> string list \<Rightarrow> caddy_error + string list" where
  "heredoc_lines padding marker start_line idx [] out = Inr out"
| "heredoc_lines padding marker start_line idx (l # ls) out =
     (if l = [] \<or> l = [CR] then heredoc_lines padding marker start_line (Suc idx) ls (out @ [LF])
      else if \<not> starts_with l padding then
        Inl (MismatchedIndent marker (start_line + idx + 1)
          (concat (rev (dropWhile (\<lambda>c. c = CR \<or> c = LF) (rev l)))) (concat padding))
      else heredoc_lines padding marker start_line (Suc idx) ls
        (out @ filter (\<lambda>c. c \<noteq> CR) (drop (length padding) l) @ [LF]))"

definition finalize_heredoc :: "string list \<Rightarrow> string \<Rightarrow> nat \<Rightarrow> caddy_error + string list" where
  "finalize_heredoc val marker start_line =
     (let marker_len = length (chars marker);
          last_newline = (case rposition LF val of None \<Rightarrow> 0 | Some i \<Rightarrow> i)
      in if length val < last_newline + 1 then Inl SlicePanic
         else let lines = split_on LF (take (last_newline + 1) val)
         in if length val - marker_len < last_newline + 1 then Inl SlicePanic
         else let padding = drop (last_newline + 1) (take (length val - marker_len) val)
         in and_then (heredoc_lines padding marker start_line 0 (butlast lines) [])
              (\<lambda>out. Inr (if out \<noteq> [] \<and> last out = LF then butlast out else out)))"

subsection \<open>One token\<close>

record lexer =
  lx_line :: nat
  lx_skipped :: nat

text \<open>The local variables of \<open>next_token\<close>.\<close>

record scan =
  sc_val :: "string list"
  sc_comment :: bool
  sc_quoted :: bool
  sc_bt_quoted :: bool
  sc_in_heredoc :: bool
  sc_heredoc_escaped :: bool
  sc_escaped :: bool
  sc_marker :: string
  sc_line :: nat

text \<open>One pass of the loop reads on, returns a token or fails.\<close>

datatype scanned = More scan lexer | Emit "string list" quote string nat lexer | Fault caddy_error

definition emit :: "quote \<Rightarrow> scan \<Rightarrow> lexer \<Rightarrow> scanned" where
  "emit q sc lx = Emit (sc_val sc) q (sc_marker sc) (sc_line sc) lx"

definition heredoc_start :: "string \<Rightarrow> scan \<Rightarrow> lexer \<Rightarrow> scanned" where
  "heredoc_start ch sc lx =
     (if ch = '' '' then emit QNone sc lx
      else if ch = CR then More sc lx
      else if ch = LF then
        (if length (sc_val sc) = 2 then Fault (MissingHeredocMarker (lx_line lx))
         else if length (sc_val sc) \<ge> 3 \<and> sc_val sc ! 2 = ''<'' then Fault (TooManyAngles (lx_line lx))
         else let marker = concat (drop 2 (sc_val sc))
         in if \<not> is_valid_heredoc_marker marker then Fault (BadHeredocMarker (lx_line lx) marker)
         else More (sc\<lparr>sc_in_heredoc := True, sc_marker := marker, sc_val := []\<rparr>) (lx\<lparr>lx_skipped := lx_skipped lx + 1\<rparr>))
      else More (sc\<lparr>sc_val := sc_val sc @ [ch]\<rparr>) lx)"

definition heredoc_body :: "string \<Rightarrow> scan \<Rightarrow> lexer \<Rightarrow> scanned" where
  "heredoc_body ch sc lx =
     (let val = sc_val sc @ [ch];
          lx1 = (if ch = LF then lx\<lparr>lx_skipped := lx_skipped lx + 1\<rparr> else lx);
          marker_len = length (chars (sc_marker sc))
      in if marker_len \<le> length val \<and> concat (drop (length val - marker_len) val) = sc_marker sc then
           (case finalize_heredoc val (sc_marker sc) (sc_line sc) of
              Inl e \<Rightarrow> Fault e
            | Inr finalized \<Rightarrow> Emit finalized QHeredoc (sc_marker sc) (sc_line sc)
                \<lparr>lx_line = lx_line lx1 + lx_skipped lx1, lx_skipped = 0\<rparr>)
         else More (sc\<lparr>sc_val := val\<rparr>) lx1)"

definition count_newline :: "lexer \<Rightarrow> lexer" where
  "count_newline lx = \<lparr>lx_line = lx_line lx + (1 + lx_skipped lx), lx_skipped = 0\<rparr>"

definition quoted_char :: "string \<Rightarrow> scan \<Rightarrow> lexer \<Rightarrow> scanned" where
  "quoted_char ch sc lx =
     (let lx1 = (if ch = LF then count_newline lx else lx)
      in if sc_quoted sc \<and> sc_escaped sc then
           More (sc\<lparr>sc_val := sc_val sc @ (if ch \<noteq> DQUOTE then [BACKSLASH] else []) @ [ch], sc_escaped := False\<rparr>) lx1
         else if (sc_quoted sc \<and> ch = DQUOTE) \<or> (sc_bt_quoted sc \<and> ch = BACKTICK) then
           emit (if sc_quoted sc then QDouble else QBacktick) sc lx
         else More (sc\<lparr>sc_val := sc_val sc @ [ch]\<rparr>) lx1)"

definition space_char :: "string \<Rightarrow> scan \<Rightarrow> lexer \<Rightarrow> scanned" where
  "space_char ch sc lx =
     (if ch = CR then More sc lx
      else
        (let (sc1, lx1) =
           (if ch = LF then
              (if sc_escaped sc then (sc\<lparr>sc_escaped := False, sc_comment := False\<rparr>, lx\<lparr>lx_skipped := lx_skipped lx + 1\<rparr>)
               else (sc\<lparr>sc_comment := False\<rparr>, count_newline lx))
            else (sc, lx))
         in if sc_val sc \<noteq> [] then emit QNone sc1 lx1 else More sc1 lx1))"

definition word_char :: "string \<Rightarrow> scan \<Rightarrow> lexer \<Rightarrow> scanned" where
  "word_char ch sc lx =
     (if sc_comment sc \<or> (ch = ''#'' \<and> sc_val sc = []) then More (sc\<lparr>sc_comment := True\<rparr>) lx
      else
        (let sc1 = (if sc_val sc = [] then sc\<lparr>sc_line := lx_line lx\<rparr> else sc)
         in if sc_val sc = [] \<and> ch = DQUOTE then More (sc1\<lparr>sc_quoted := True\<rparr>) lx
            else if sc_val sc = [] \<and> ch = BACKTICK then More (sc1\<lparr>sc_bt_quoted := True\<rparr>) lx
            else if sc_escaped sc then
              (if ch = ''<'' then More (sc1\<lparr>sc_heredoc_escaped := True, sc_escaped := False, sc_val := sc_val sc @ [ch]\<rparr>) lx
               else More (sc1\<lparr>sc_escaped := False, sc_val := sc_val sc @ [BACKSLASH, ch]\<rparr>) lx)
            else More (sc1\<lparr>sc_val := sc_val sc @ [ch]\<rparr>) lx))"

definition scan_char :: "string \<Rightarrow> scan \<Rightarrow> lexer \<Rightarrow> scanned" where
  "scan_char ch sc lx =
     (if \<not> sc_quoted sc \<and> \<not> sc_bt_quoted sc \<and> \<not> sc_in_heredoc sc \<and> \<not> sc_heredoc_escaped sc
         \<and> length (sc_val sc) > 1 \<and> sc_val sc ! 0 = ''<'' \<and> sc_val sc ! 1 = ''<'' then heredoc_start ch sc lx
      else if sc_in_heredoc sc then heredoc_body ch sc lx
      else if \<not> sc_escaped sc \<and> \<not> sc_bt_quoted sc \<and> ch = BACKSLASH then More (sc\<lparr>sc_escaped := True\<rparr>) lx
      else if sc_quoted sc \<or> sc_bt_quoted sc then quoted_char ch sc lx
      else if is_whitespace ch then space_char ch sc lx
      else word_char ch sc lx)"

definition make_token :: "string list \<Rightarrow> quote \<Rightarrow> string \<Rightarrow> nat \<Rightarrow> token" where
  "make_token val q marker l = \<lparr>t_file = [], t_imports = [], t_line = l, t_text = concat val, t_quote = q,
     t_marker = marker, t_snippet = []\<rparr>"

fun next_loop :: "scan \<Rightarrow> lexer \<Rightarrow> string list \<Rightarrow> caddy_error + token option \<times> lexer \<times> string list" where
  "next_loop sc lx [] =
     (if sc_val sc \<noteq> [] then
        (if sc_in_heredoc sc then Inl (IncompleteHeredoc (sc_marker sc) (lx_line lx + lx_skipped lx))
         else Inr (Some (make_token (sc_val sc) QNone (sc_marker sc) (sc_line sc)), lx, []))
      else Inr (None, lx, []))"
| "next_loop sc lx (ch # cs) =
     (case scan_char ch sc lx of
        Fault e \<Rightarrow> Inl e
      | Emit val q marker l lx' \<Rightarrow> Inr (Some (make_token val q marker l), lx', cs)
      | More sc' lx' \<Rightarrow> next_loop sc' lx' cs)"

definition scan_init :: "nat \<Rightarrow> scan" where
  "scan_init l = \<lparr>sc_val = [], sc_comment = False, sc_quoted = False, sc_bt_quoted = False, sc_in_heredoc = False,
     sc_heredoc_escaped = False, sc_escaped = False, sc_marker = [], sc_line = l\<rparr>"

definition next_token :: "lexer \<Rightarrow> string list \<Rightarrow> caddy_error + token option \<times> lexer \<times> string list" where
  "next_token lx cs = next_loop (scan_init (lx_line lx)) lx cs"

lemma next_loop_shorter:
  "next_loop sc lx cs = Inr (Some t, lx', cs') \<Longrightarrow> length cs' < length cs \<or> cs = [] \<and> sc_val sc \<noteq> []"
proof (induction cs arbitrary: sc lx)
  case (Cons ch cs)
  show ?case
  proof (cases "scan_char ch sc lx")
    case (More sc1 lx1)
    then show ?thesis using Cons.IH [of sc1 lx1] Cons.prems by (auto split: if_splits)
  qed (use Cons.prems in auto)
qed (auto split: if_splits)

lemma next_token_shorter: "next_token lx cs = Inr (Some t, lx', cs') \<Longrightarrow> length cs' < length cs"
  using next_loop_shorter by (fastforce simp: next_token_def scan_init_def)

subsection \<open>All tokens\<close>

function lex_all :: "string \<Rightarrow> lexer \<Rightarrow> string list \<Rightarrow> caddy_error + token list" where
  "lex_all filename lx cs =
     (case next_token lx cs of
        Inl e \<Rightarrow> Inl e
      | Inr (None, _) \<Rightarrow> Inr []
      | Inr (Some token, lx', cs') \<Rightarrow>
          and_then (lex_all filename lx' cs') (\<lambda>ts. Inr (token\<lparr>t_file := filename\<rparr> # ts)))"
  by pat_completeness auto
termination
  by (relation "measure (\<lambda>(filename, lx, cs). length cs)") (auto dest: next_token_shorter)

declare lex_all.simps [simp del]

definition lexer_new :: "string \<Rightarrow> lexer \<times> string list" where
  "lexer_new input =
     (let cs = chars input
      in (\<lparr>lx_line = 1, lx_skipped = 0\<rparr>, (case cs of c # r \<Rightarrow> if c = BOM then r else cs | [] \<Rightarrow> cs)))"

definition tokenize :: "(string \<Rightarrow> string option) \<Rightarrow> string \<Rightarrow> string \<Rightarrow> caddy_error + token list" where
  "tokenize env input filename =
     (let (lx, cs) = lexer_new (replace_env_vars env input) in lex_all filename lx cs)"

subsection \<open>Substitution in one pass\<close>

text \<open>The substitution as a recursion on the text that is still to be read.\<close>

definition env_value :: "(string \<Rightarrow> string option) \<Rightarrow> string \<Rightarrow> string" where
  "env_value env spec =
     (let (key, default) = (case split_once (CHR '':'') spec of None \<Rightarrow> (spec, []) | Some kd \<Rightarrow> kd)
      in case env key of Some v \<Rightarrow> v | None \<Rightarrow> default)"

function env_pass :: "(string \<Rightarrow> string option) \<Rightarrow> string \<Rightarrow> string" where
  "env_pass env s =
     (case find_sub ''{$'' s of
        None \<Rightarrow> s
      | Some b \<Rightarrow>
          (case find_sub ''}'' (drop (b + 2) s) of
             None \<Rightarrow> s
           | Some e \<Rightarrow>
               (let spec = take e (drop (b + 2) s)
                in take b s @ (if spec = [] then ''{$}'' else env_value env spec) @ env_pass env (drop (b + e + 3) s))))"
  by pat_completeness auto
termination
proof (relation "measure (\<lambda>(env, s). length s)", goal_cases)
  case (2 env s b e x)
  have "b + length ''{$'' \<le> length s" using find_sub_SomeD [OF 2(1)] by blast
  then show ?case by simp
qed simp

declare env_pass.simps [simp del]

lemma env_loop_step:
  assumes "find_sub ''{$'' (drop off input) = Some b" and "find_sub ''}'' (drop (b + off + 2) input) = Some e"
    and "take e (drop (b + off + 2) input) = spec"
  shows "env_loop env input off =
    (if spec = [] then env_loop env input (b + e + 3 + off)
     else env_loop env (take (b + off) input @ env_value env spec @ drop (b + e + 3 + off) input)
       (b + off + length (env_value env spec)))"
proof -
  have e: "e + (b + off + 2) + 1 = b + e + 3 + off" by simp
  show ?thesis
    unfolding env_loop.simps [of env input off] assms(1) option.case Let_def assms(2) assms(3) e env_value_def
    by (cases "split_once (CHR '':'') spec") (simp_all add: split_beta split: option.split)
qed

lemma env_loop_pass: "env_loop env (pre @ s) (length pre) = pre @ env_pass env s"
proof (induction s arbitrary: pre rule: length_induct)
  case (1 s)
  show ?case
  proof (cases "find_sub ''{$'' s")
    case None
    then show ?thesis by (simp add: env_loop.simps [of env "pre @ s"] env_pass.simps [of env s])
  next
    case b: (Some b)
    show ?thesis
    proof (cases "find_sub ''}'' (drop (b + 2) s)")
      case None
      with b show ?thesis by (simp add: env_loop.simps [of env "pre @ s"] env_pass.simps [of env s] Let_def)
    next
      case e: (Some e)
      define spec where "spec = take e (drop (b + 2) s)"
      define rest where "rest = drop (b + e + 3) s"
      have 1: "s = take b s @ ''{$'' @ drop (b + 2) s" "b + 2 \<le> length s"
        using find_sub_SomeD [OF b] by (simp_all add: numeral_2_eq_2)
      have 2: "drop (b + 2) s = spec @ ''}'' @ rest" "e + 1 \<le> length s - (b + 2)"
        using find_sub_SomeD [OF e] by (simp_all add: spec_def rest_def numeral_2_eq_2 numeral_3_eq_3 add.commute)
      have len: "b + e + 3 \<le> length s" "length spec = e" using 1(2) 2(2) by (simp_all add: spec_def)
      have IH: "env_loop env (q @ rest) (length q) = q @ env_pass env rest" for q
        using "1.IH" len by (simp add: rest_def)
      have pass: "env_pass env s = take b s @ (if spec = [] then ''{$}'' else env_value env spec) @ env_pass env rest"
        unfolding env_pass.simps [of env s] b option.case e Let_def spec_def rest_def ..
      have b': "find_sub ''{$'' (drop (length pre) (pre @ s)) = Some b" using b by simp
      have e': "find_sub ''}'' (drop (b + length pre + 2) (pre @ s)) = Some e" using e by simp
      have spec': "take e (drop (b + length pre + 2) (pre @ s)) = spec" by (simp add: spec_def)
      show ?thesis
      proof (cases "spec = []")
        case True
        let ?q = "pre @ take b s @ ''{$}''"
        have q: "?q @ rest = pre @ s" "length ?q = b + e + 3 + length pre"
          using 1 2 True len by simp_all
        have "env_loop env (pre @ s) (length pre) = env_loop env (?q @ rest) (length ?q)"
          unfolding q using env_loop_step [OF b' e' spec'] True by simp
        then show ?thesis
          using IH [of ?q] True pass by simp
      next
        case False
        let ?q = "pre @ take b s @ env_value env spec"
        have "env_loop env (pre @ s) (length pre) = env_loop env (?q @ rest) (length ?q)"
          using env_loop_step [OF b' e' spec'] False len
          by (simp add: rest_def ac_simps)
        then show ?thesis
          using IH [of ?q] False pass by simp
      qed
    qed
  qed
qed

subsection \<open>Line numbers\<close>

text \<open>The line counter never goes back, and the token being read does not start after it.\<close>

lemma scan_char_lines:
  assumes "sc_line sc \<le> lx_line lx"
  shows "scan_char ch sc lx = More sc' lx' \<Longrightarrow> lx_line lx \<le> lx_line lx' \<and> sc_line sc' \<le> lx_line lx' \<and> sc_line sc \<le> sc_line sc'"
    and "scan_char ch sc lx = Emit v q m l lx' \<Longrightarrow> lx_line lx \<le> lx_line lx' \<and> l = sc_line sc"
  using assms
  by (auto simp: scan_char_def heredoc_start_def heredoc_body_def quoted_char_def space_char_def word_char_def
      emit_def count_newline_def Let_def split: if_splits sum.splits)

lemma next_loop_lines:
  "next_loop sc lx cs = Inr (t, lx', cs') \<Longrightarrow> sc_line sc \<le> lx_line lx \<Longrightarrow>
     lx_line lx \<le> lx_line lx' \<and> (\<forall>tok. t = Some tok \<longrightarrow> sc_line sc \<le> t_line tok \<and> t_line tok \<le> lx_line lx')"
proof (induction cs arbitrary: sc lx)
  case Nil
  then show ?case by (auto simp: make_token_def split: if_splits)
next
  case (Cons ch cs)
  show ?case
  proof (cases "scan_char ch sc lx")
    case (More sc1 lx1)
    then have "lx_line lx \<le> lx_line lx1" "sc_line sc1 \<le> lx_line lx1" "sc_line sc \<le> sc_line sc1"
      using scan_char_lines(1) [OF Cons.prems(2)] by blast+
    then show ?thesis using Cons.IH [of sc1 lx1] Cons.prems(1) More by fastforce
  next
    case (Emit v q m l lx1)
    then show ?thesis using scan_char_lines(2) [OF Cons.prems(2) Emit] Cons.prems by (auto simp: make_token_def)
  qed (use Cons.prems in simp)
qed

lemma lex_all_lines:
  "lex_all f lx cs = Inr ts \<Longrightarrow> sorted (map t_line ts) \<and> (\<forall>t \<in> set ts. lx_line lx \<le> t_line t \<and> t_file t = f)"
proof (induction f lx cs arbitrary: ts rule: lex_all.induct)
  case (1 f lx cs)
  obtain r where r: "next_token lx cs = Inr r"
    using "1.prems" by (cases "next_token lx cs") (auto simp: lex_all.simps [of f lx cs])
  obtain t lx' cs' where t: "r = (t, lx', cs')" by (cases r)
  show ?case
  proof (cases t)
    case None
    then show ?thesis using "1.prems" r t by (simp add: lex_all.simps [of f lx cs])
  next
    case (Some tok)
    obtain us where us: "lex_all f lx' cs' = Inr us" "ts = tok\<lparr>t_file := f\<rparr> # us"
      using "1.prems" r t Some by (auto simp: lex_all.simps [of f lx cs] and_then_Inr)
    have "lx_line lx \<le> t_line tok" "t_line tok \<le> lx_line lx'"
      using next_loop_lines [of "scan_init (lx_line lx)" lx cs] r t Some
      by (auto simp: next_token_def scan_init_def)
    moreover have "sorted (map t_line us)" "\<forall>t \<in> set us. lx_line lx' \<le> t_line t \<and> t_file t = f"
      using "1.IH" [OF r t [symmetric] Some refl us(1)] by blast+
    ultimately show ?thesis using us(2) by fastforce
  qed
qed

end
