(* ===== verification/Caddy_Dispenser.thy ===== *)
theory Caddy_Dispenser
  imports Caddy_Lexer
begin

text \<open>
  The token cursor of the Caddyfile adapter, \<open>caddyfile/dispenser.rs\<close>.  An operation on
  \<open>&mut self\<close> returns its result with the new dispenser.  Every index into the token list is
  guarded as in the source.
\<close>

record dispenser =
  d_tokens :: "token list"
  d_cursor :: int
  d_nesting :: int
  d_context :: "(string, string) store"

definition dispenser_new :: "token list \<Rightarrow> dispenser" where
  "dispenser_new tokens = \<lparr>d_tokens = tokens, d_cursor = -1, d_nesting = 0, d_context = []\<rparr>"

definition d_len :: "dispenser \<Rightarrow> int" where
  "d_len d = int (length (d_tokens d))"

definition d_next :: "dispenser \<Rightarrow> bool \<times> dispenser" where
  "d_next d = (if d_cursor d < d_len d - 1 then (True, d\<lparr>d_cursor := d_cursor d + 1\<rparr>) else (False, d))"

definition d_prev :: "dispenser \<Rightarrow> bool \<times> dispenser" where
  "d_prev d =
     (if d_cursor d > -1 then
        (let d' = d\<lparr>d_cursor := d_cursor d - 1\<rparr> in (d_cursor d' > -1, d'))
      else (False, d))"

definition next_on_same_line :: "dispenser \<Rightarrow> bool \<times> dispenser" where
  "next_on_same_line d =
     (if d_cursor d < 0 then (True, d\<lparr>d_cursor := d_cursor d + 1\<rparr>)
      else if d_cursor d \<ge> d_len d - 1 then (False, d)
      else if \<not> is_next_on_new_line (d_tokens d ! nat (d_cursor d)) (d_tokens d ! nat (d_cursor d + 1)) then
        (True, d\<lparr>d_cursor := d_cursor d + 1\<rparr>)
      else (False, d))"

definition val :: "dispenser \<Rightarrow> string" where
  "val d = (if d_cursor d < 0 \<or> d_cursor d \<ge> d_len d then [] else t_text (d_tokens d ! nat (d_cursor d)))"

definition next_arg :: "dispenser \<Rightarrow> bool \<times> dispenser" where
  "next_arg d =
     (let (ok, d') = next_on_same_line d
      in if \<not> ok then (False, d')
         else if val d' = ''{'' then (False, d'\<lparr>d_cursor := d_cursor d' - 1\<rparr>)
         else (True, d'))"

definition d_next_line :: "dispenser \<Rightarrow> bool \<times> dispenser" where
  "d_next_line d =
     (if d_cursor d < 0 then (True, d\<lparr>d_cursor := d_cursor d + 1\<rparr>)
      else if d_cursor d \<ge> d_len d - 1 then (False, d)
      else if is_next_on_new_line (d_tokens d ! nat (d_cursor d)) (d_tokens d ! nat (d_cursor d + 1)) then
        (True, d\<lparr>d_cursor := d_cursor d + 1\<rparr>)
      else (False, d))"

definition next_block :: "int \<Rightarrow> dispenser \<Rightarrow> bool \<times> dispenser" where
  "next_block initial_nesting_level d =
     (if d_nesting d > initial_nesting_level then
        (let (ok, d1) = d_next d
         in if \<not> ok then (False, d1)
            else
              (let d2 =
                 (if val d1 = ''}'' then
                    (let (same, d') = next_on_same_line d1
                     in if \<not> same then d'\<lparr>d_nesting := d_nesting d' - 1\<rparr>
                        else if val d' = ''{'' then
                          (let (same', d'') = next_on_same_line d'
                           in if \<not> same' then d''\<lparr>d_nesting := d_nesting d'' + 1\<rparr> else d'')
                        else d')
                  else if val d1 = ''{'' then
                    (let (same, d') = next_on_same_line d1
                     in if \<not> same then d'\<lparr>d_nesting := d_nesting d' + 1\<rparr> else d')
                  else d1)
               in (d_nesting d2 > initial_nesting_level, d2)))
      else
        (let (ok, d1) = next_on_same_line d
         in if \<not> ok then (False, d1)
            else if val d1 \<noteq> ''{'' then (False, d1\<lparr>d_cursor := d_cursor d1 - 1\<rparr>)
            else
              (let d2 = snd (d_next d1)
               in if val d2 = ''}'' then (False, d2)
                  else (True, d2\<lparr>d_nesting := d_nesting d2 + 1\<rparr>))))"

definition val_raw :: "dispenser \<Rightarrow> string" where
  "val_raw d =
     (if d_cursor d < 0 \<or> d_cursor d \<ge> d_len d then []
      else (let tok = d_tokens d ! nat (d_cursor d)
            in case t_quote tok of
                 QDouble \<Rightarrow> DQUOTE @ t_text tok @ DQUOTE
               | QBacktick \<Rightarrow> BACKTICK @ t_text tok @ BACKTICK
               | _ \<Rightarrow> t_text tok))"

definition d_line :: "dispenser \<Rightarrow> nat" where
  "d_line d = (if d_cursor d < 0 \<or> d_cursor d \<ge> d_len d then 0 else t_line (d_tokens d ! nat (d_cursor d)))"

definition d_file :: "dispenser \<Rightarrow> string" where
  "d_file d = (if d_cursor d < 0 \<or> d_cursor d \<ge> d_len d then [] else t_file (d_tokens d ! nat (d_cursor d)))"

fun args :: "string list \<Rightarrow> dispenser \<Rightarrow> bool \<times> string list \<times> dispenser" where
  "args [] d = (True, [], d)"
| "args (t # ts) d =
     (case next_arg d of
        (False, d') \<Rightarrow> (False, t # ts, d')
      | (True, d') \<Rightarrow> (case args ts d' of (ok, vs, d'') \<Rightarrow> (ok, val d' # vs, d'')))"

definition all_args :: "string list \<Rightarrow> dispenser \<Rightarrow> bool \<times> string list \<times> dispenser" where
  "all_args ts d =
     (case args ts d of
        (False, vs, d') \<Rightarrow> (False, vs, d')
      | (True, vs, d') \<Rightarrow>
          (case next_arg d' of
             (True, d'') \<Rightarrow> (False, vs, snd (d_prev d''))
           | (False, d'') \<Rightarrow> (True, vs, d'')))"

definition d_token :: "dispenser \<Rightarrow> token" where
  "d_token d = (if d_cursor d < 0 \<or> d_cursor d \<ge> d_len d then token_new [] 0 else d_tokens d ! nat (d_cursor d))"

subsection \<open>Argument loops\<close>

definition ahead :: "dispenser \<Rightarrow> nat" where
  "ahead d = nat (max 0 (d_len d - 1) - d_cursor d)"

lemma next_arg_True:
  "next_arg d = (True, d') \<Longrightarrow> d' = d\<lparr>d_cursor := d_cursor d + 1\<rparr> \<and> d_cursor d < max 0 (d_len d - 1)"
  by (auto simp: next_arg_def next_on_same_line_def Let_def split: if_splits)

lemma next_arg_False: "next_arg d = (False, d') \<Longrightarrow> d' = d"
  by (auto simp: next_arg_def next_on_same_line_def Let_def split: if_splits)

lemma d_len_cursor [simp]: "d_len (d\<lparr>d_cursor := i\<rparr>) = d_len d" "d_len (d\<lparr>d_nesting := j\<rparr>) = d_len d"
  by (simp_all add: d_len_def)

lemma next_arg_ahead: "next_arg d = (True, d') \<Longrightarrow> ahead d' < ahead d"
  by (drule next_arg_True) (auto simp: ahead_def)

text \<open>The loop \<open>while self.next_arg() { args.push(f(self)) }\<close>.\<close>

function collect_args :: "(dispenser \<Rightarrow> 'a) \<Rightarrow> dispenser \<Rightarrow> 'a list \<times> dispenser" where
  "collect_args f d =
     (case next_arg d of
        (False, d') \<Rightarrow> ([], d')
      | (True, d') \<Rightarrow> (case collect_args f d' of (r, d'') \<Rightarrow> (f d' # r, d'')))"
  by pat_completeness auto
termination by (relation "measure (\<lambda>(f, d). ahead d)") (auto dest: next_arg_ahead [OF sym])

declare collect_args.simps [simp del]

definition remaining_args :: "dispenser \<Rightarrow> string list \<times> dispenser" where
  "remaining_args d = collect_args val d"

definition remaining_args_raw :: "dispenser \<Rightarrow> string list \<times> dispenser" where
  "remaining_args_raw d = collect_args val_raw d"

definition remaining_args_as_tokens :: "dispenser \<Rightarrow> token list \<times> dispenser" where
  "remaining_args_as_tokens d = collect_args d_token d"

definition count_remaining_args :: "dispenser \<Rightarrow> nat \<times> dispenser" where
  "count_remaining_args d =
     (let (steps, d') = collect_args (\<lambda>_. ()) d; n = length steps
      in (n, ((\<lambda>d. snd (d_prev d)) ^^ n) d'))"

subsection \<open>Segments\<close>

lemma next_block_moves:
  assumes "next_block n d = (True, d')"
  shows "d_cursor d < d_cursor d'" and "d_cursor d' < d_len d'" and "d_tokens d' = d_tokens d"
proof -
  have "d_cursor d < d_cursor d' \<and> d_cursor d' < d_len d' \<and> d_tokens d' = d_tokens d"
    using assms
    by (auto simp: next_block_def next_on_same_line_def d_next_def Let_def d_len_def val_def split: if_splits)
  then show "d_cursor d < d_cursor d'" "d_cursor d' < d_len d'" "d_tokens d' = d_tokens d" by blast+
qed

lemma rewind_cursor:
  "d_cursor d < d_len d \<Longrightarrow> d_cursor d \<le> d_cursor (snd (d_next (snd (d_prev d))))"
  "d_tokens (snd (d_next (snd (d_prev d)))) = d_tokens d"
  by (auto simp: d_next_def d_prev_def Let_def d_len_def)

lemma block_ahead:
  assumes "(True, d1) = next_block n d"
  shows "nat (d_len d1 - d_cursor d1) < nat (d_len d - d_cursor d)"
    and "nat (d_len (snd (d_next (snd (d_prev d1)))) - d_cursor (snd (d_next (snd (d_prev d1))))) < nat (d_len d - d_cursor d)"
  using next_block_moves [OF assms [symmetric]] rewind_cursor [of d1] by (auto simp: d_len_def)

function block_segment :: "int \<Rightarrow> bool \<Rightarrow> token list \<Rightarrow> dispenser \<Rightarrow> bool \<times> token list \<times> dispenser" where
  "block_segment n opened_block tkns d =
     (case next_block n d of
        (False, d') \<Rightarrow> (opened_block, tkns, d')
      | (True, d1) \<Rightarrow>
          (if \<not> opened_block then
             (let d2 = snd (d_prev d1); d3 = snd (d_next d2)
              in block_segment n True (tkns @ [d_token d2, d_token d3]) d3)
           else block_segment n True (tkns @ [d_token d1]) d1))"
  by pat_completeness auto
termination by (relation "measure (\<lambda>(n, opened, tkns, d). nat (d_len d - d_cursor d))") (auto dest: block_ahead)

declare block_segment.simps [simp del]

definition next_segment :: "dispenser \<Rightarrow> token list \<times> dispenser" where
  "next_segment d =
     (let t0 = d_token d; (ts, d1) = collect_args d_token d; (opened, tkns, d2) = block_segment (d_nesting d1) False (t0 # ts) d1
      in (if opened then tkns @ [d_token d2] else tkns, d2))"

definition new_from_next_segment :: "dispenser \<Rightarrow> dispenser \<times> dispenser" where
  "new_from_next_segment d = (case next_segment d of (s, d') \<Rightarrow> (dispenser_new s, d'))"

definition d_reset :: "dispenser \<Rightarrow> dispenser" where
  "d_reset d = d\<lparr>d_cursor := -1, d_nesting := 0\<rparr>"

definition delete :: "dispenser \<Rightarrow> dispenser" where
  "delete d =
     (if d_cursor d \<ge> 0 \<and> d_cursor d \<le> d_len d - 1 then
        d\<lparr>d_tokens := take (nat (d_cursor d)) (d_tokens d) @ drop (Suc (nat (d_cursor d))) (d_tokens d), d_cursor := d_cursor d - 1\<rparr>
      else d)"

definition is_new_line :: "dispenser \<Rightarrow> bool" where
  "is_new_line d =
     (if d_cursor d < 1 then True
      else if d_cursor d > d_len d - 1 then False
      else is_next_on_new_line (d_tokens d ! nat (d_cursor d - 1)) (d_tokens d ! nat (d_cursor d)))"

definition d_is_next_on_new_line :: "dispenser \<Rightarrow> bool" where
  "d_is_next_on_new_line d =
     (if d_cursor d < 0 then False
      else if d_cursor d \<ge> d_len d - 1 then True
      else is_next_on_new_line (d_tokens d ! nat (d_cursor d)) (d_tokens d ! nat (d_cursor d + 1)))"

definition set_context :: "string \<Rightarrow> string \<Rightarrow> dispenser \<Rightarrow> dispenser" where
  "set_context key v d = d\<lparr>d_context := store_put key v (d_context d)\<rparr>"

definition get_context_string :: "dispenser \<Rightarrow> string \<Rightarrow> string" where
  "get_context_string d key = (case store_get (d_context d) key of None \<Rightarrow> [] | Some v \<Rightarrow> v)"

subsection \<open>Errors\<close>

definition errf :: "string \<Rightarrow> dispenser \<Rightarrow> caddy_error" where
  "errf msg d = AtToken msg (d_file d) (d_line d)"

definition arg_err :: "dispenser \<Rightarrow> caddy_error" where
  "arg_err d =
     (if val d = ''{'' then errf ''unexpected token '{', expecting argument'' d
      else errf (''wrong argument count or unexpected line ending after '' @ [CHR 0x27] @ val d @ [CHR 0x27]) d)"

definition syntax_err :: "string \<Rightarrow> dispenser \<Rightarrow> caddy_error" where
  "syntax_err expected d = SyntaxError (val d) expected (d_file d) (d_line d)"

definition eof_err :: "dispenser \<Rightarrow> caddy_error" where
  "eof_err d = errf ''unexpected EOF'' d"

subsection \<open>Arguments of a line\<close>

text \<open>The tokens after \<open>p\<close> on its line, up to a brace that opens a block.\<close>

fun line_args :: "token \<Rightarrow> token list \<Rightarrow> token list" where
  "line_args p [] = []"
| "line_args p (t # ts) = (if is_next_on_new_line p t \<or> t_text t = ''{'' then [] else t # line_args t ts)"

abbreviation cursor_at :: "nat \<Rightarrow> dispenser \<Rightarrow> dispenser" where
  "cursor_at i d \<equiv> d\<lparr>d_cursor := int i\<rparr>"

lemma next_on_same_line_at:
  "d_tokens d = pre @ p # ts \<Longrightarrow> d_cursor d = int (length pre) \<Longrightarrow>
     next_on_same_line d = (case ts of [] \<Rightarrow> (False, d)
       | t # _ \<Rightarrow> if is_next_on_new_line p t then (False, d) else (True, cursor_at (Suc (length pre)) d))"
  by (cases ts) (simp_all add: next_on_same_line_def d_len_def nth_append nat_add_distrib)

lemma val_at: "d_tokens d = pre @ p # ts \<Longrightarrow> d_cursor d = int (length pre) \<Longrightarrow> val d = t_text p \<and> d_token d = p"
  by (simp add: val_def d_token_def d_len_def)

lemma next_arg_at:
  assumes "d_tokens d = pre @ p # ts" and "d_cursor d = int (length pre)"
  shows "next_arg d = (case line_args p ts of [] \<Rightarrow> (False, d) | t # _ \<Rightarrow> (True, cursor_at (Suc (length pre)) d))"
proof (cases ts)
  case Nil
  then show ?thesis using next_on_same_line_at [OF assms] by (simp add: next_arg_def)
next
  case (Cons t us)
  have "val (cursor_at (Suc (length pre)) d) = t_text t"
    using val_at [of "cursor_at (Suc (length pre)) d" "pre @ [p]" t us] assms(1) Cons by simp
  then show ?thesis
    using next_on_same_line_at [OF assms] Cons assms(2) by (auto simp: next_arg_def)
qed

lemma collect_args_at:
  "d_tokens d = pre @ p # ts \<Longrightarrow> d_cursor d = int (length pre) \<Longrightarrow>
     collect_args d_token d = (line_args p ts, cursor_at (length pre + length (line_args p ts)) d)"
proof (induction ts arbitrary: d pre p)
  case Nil
  then show ?case using next_arg_at [OF Nil.prems] by (simp add: collect_args.simps [of _ d])
next
  case (Cons t ts)
  note n = next_arg_at [OF Cons.prems]
  show ?case
  proof (cases "is_next_on_new_line p t \<or> t_text t = ''{''")
    case True
    then show ?thesis using n Cons.prems(2) by (simp add: collect_args.simps [of _ d])
  next
    case False
    let ?d = "cursor_at (Suc (length pre)) d"
    have "collect_args d_token ?d = (line_args t ts, cursor_at (Suc (length pre) + length (line_args t ts)) ?d)"
      using Cons.IH [of ?d "pre @ [p]" t] Cons.prems by simp
    moreover have "d_token ?d = t" using val_at [of ?d "pre @ [p]" t ts] Cons.prems by simp
    ultimately show ?thesis using n False by (simp add: collect_args.simps [of _ d])
  qed
qed

lemma collect_args_count:
  "collect_args f d = (r, d') \<Longrightarrow> d' = d\<lparr>d_cursor := d_cursor d + int (length r)\<rparr> \<and>
     collect_args (\<lambda>_. ()) d = (map (\<lambda>_. ()) r, d')"
proof (induction f d arbitrary: r d' rule: collect_args.induct)
  case (1 f d)
  obtain ok d1 where n: "next_arg d = (ok, d1)" by fastforce
  show ?case
  proof (cases ok)
    case False
    then show ?thesis
      using "1.prems" n next_arg_False by (auto simp: collect_args.simps [of _ d])
  next
    case True
    obtain r1 d2 where r: "collect_args f d1 = (r1, d2)" by fastforce
    have "r = f d1 # r1" "d' = d2" using "1.prems" n True r by (auto simp: collect_args.simps [of f d])
    moreover have "d1 = d\<lparr>d_cursor := d_cursor d + 1\<rparr>" using n True next_arg_True [of d d1] by simp
    moreover have "d2 = d1\<lparr>d_cursor := d_cursor d1 + int (length r1)\<rparr>" "collect_args (\<lambda>_. ()) d1 = (map (\<lambda>_. ()) r1, d2)"
      using "1.IH" [OF n [symmetric] _ r] True by simp_all
    ultimately show ?thesis using n True by (simp add: collect_args.simps [of "\<lambda>_. ()" d])
  qed
qed

lemma prev_steps: "int n \<le> d_cursor d + 1 \<Longrightarrow> ((\<lambda>d. snd (d_prev d)) ^^ n) d = d\<lparr>d_cursor := d_cursor d - int n\<rparr>"
  by (induction n) (auto simp: d_prev_def Let_def)

subsection \<open>Blocks\<close>

definition brace :: "token \<Rightarrow> bool" where
  "brace t \<longleftrightarrow> t_text t = ''{'' \<or> t_text t = ''}''"

text \<open>The tokens close the \<open>k\<close> blocks that are open, the last one with the last token.\<close>

fun closes :: "nat \<Rightarrow> token list \<Rightarrow> bool" where
  "closes k [] = False"
| "closes k (t # ts) =
     (let k' = (if t_text t = ''{'' then Suc k else if t_text t = ''}'' then k - 1 else k)
      in if k' = 0 then ts = [] else closes k' ts)"

definition brace_ends_line :: "token \<Rightarrow> token \<Rightarrow> bool" where
  "brace_ends_line a b \<longleftrightarrow> (brace a \<longrightarrow> is_next_on_new_line a b)"

lemma next_block_inner:
  assumes "d_tokens d = pre @ t # ts" and "d_cursor d = int (length pre) - 1" and "d_nesting d = n + int k" and "0 < k"
    and "ts = [] \<or> brace_ends_line t (hd ts)"
  shows "next_block n d =
    (let k' = (if t_text t = ''{'' then Suc k else if t_text t = ''}'' then k - 1 else k)
     in (k' \<noteq> 0, d\<lparr>d_cursor := int (length pre), d_nesting := n + int k'\<rparr>))"
proof -
  let ?d = "cursor_at (length pre) d"
  have nx: "d_next d = (True, ?d)" using assms(1,2) by (simp add: d_next_def d_len_def)
  have v: "val ?d = t_text t" using val_at [of ?d pre t ts] assms(1) by simp
  have same: "next_on_same_line ?d = (False, ?d)" if "brace t"
    using next_on_same_line_at [of ?d pre t ts] assms(1,5) that by (cases ts) (auto simp: brace_ends_line_def)
  have self: "?d\<lparr>d_nesting := n + int k\<rparr> = ?d" using assms(3) by simp
  show ?thesis
    using assms(3,4) nx v same self by (auto simp: next_block_def Let_def brace_def)
qed

lemma block_walk:
  "closes k ts \<Longrightarrow> 0 < k \<Longrightarrow> successively brace_ends_line (ts @ take 1 rest) \<Longrightarrow> d_tokens d = pre @ ts @ rest \<Longrightarrow>
   d_cursor d = int (length pre) - 1 \<Longrightarrow> d_nesting d = n + int k \<Longrightarrow>
     block_segment n True acc d = (True, acc @ butlast ts, d\<lparr>d_cursor := d_cursor d + int (length ts), d_nesting := n\<rparr>)"
proof (induction k ts arbitrary: d pre acc rule: closes.induct)
  case (2 k t ts)
  define k' where "k' = (if t_text t = ''{'' then Suc k else if t_text t = ''}'' then k - 1 else k)"
  let ?d = "d\<lparr>d_cursor := int (length pre), d_nesting := n + int k'\<rparr>"
  have "ts @ rest = [] \<or> brace_ends_line t (hd (ts @ rest))"
    using "2.prems"(3) by (cases ts; cases rest) auto
  then have nb: "next_block n d = (k' \<noteq> 0, ?d)"
    using next_block_inner [of d pre t "ts @ rest" n k] "2.prems" by (simp add: k'_def Let_def)
  show ?case
  proof (cases "k' = 0")
    case True
    then have "ts = []" using "2.prems"(1) by (simp add: k'_def Let_def)
    then show ?thesis using nb True "2.prems"(5) by (simp add: block_segment.simps [of n True acc d])
  next
    case False
    then have c: "closes k' ts" using "2.prems"(1) by (simp add: k'_def Let_def)
    then have ne: "ts \<noteq> []" by auto
    have "d_token ?d = t" using val_at [of ?d pre t "ts @ rest"] "2.prems"(4) by simp
    moreover have "successively brace_ends_line (ts @ take 1 rest)" using "2.prems"(3) ne by (cases ts) auto
    then have "block_segment n True (acc @ [t]) ?d =
        (True, (acc @ [t]) @ butlast ts, ?d\<lparr>d_cursor := d_cursor ?d + int (length ts), d_nesting := n\<rparr>)"
      using "2.IH" [OF k'_def False c, of ?d "pre @ [t]" "acc @ [t]"] False "2.prems"(4) by simp
    ultimately show ?thesis using nb False ne "2.prems"(5) by (simp add: block_segment.simps [of n True acc d])
  qed
qed simp

lemma block_opens:
  assumes "d_tokens d = pre @ p # ob # t # ts" and "d_cursor d = int (length pre)" and "t_text ob = ''{''"
    and "\<not> is_next_on_new_line p ob" and "t_text t \<noteq> ''}''"
  shows "block_segment (d_nesting d) False acc d = block_segment (d_nesting d) True (acc @ [ob, t])
    (d\<lparr>d_cursor := int (length pre) + 2, d_nesting := d_nesting d + 1\<rparr>)"
proof -
  let ?d1 = "cursor_at (Suc (length pre)) d"
  let ?d2 = "d\<lparr>d_cursor := int (length pre) + 2, d_nesting := d_nesting d + 1\<rparr>"
  have same: "next_on_same_line d = (True, ?d1)" using next_on_same_line_at [OF assms(1,2)] assms(4) by simp
  have v1: "val ?d1 = ''{''" using val_at [of ?d1 "pre @ [p]" ob "t # ts"] assms(1,3) by simp
  have n1: "d_next ?d1 = (True, ?d1\<lparr>d_cursor := int (length pre) + 2\<rparr>)" using assms(1) by (simp add: d_next_def d_len_def)
  have v2: "val (?d1\<lparr>d_cursor := int (length pre) + 2\<rparr>) = t_text t"
    using val_at [of "?d1\<lparr>d_cursor := int (length pre) + 2\<rparr>" "pre @ [p, ob]" t ts] assms(1) by simp
  have nb: "next_block (d_nesting d) d = (True, ?d2)"
    using same v1 n1 v2 assms(5) by (simp add: next_block_def Let_def)
  let ?d3 = "?d2\<lparr>d_cursor := int (length pre) + 1\<rparr>"
  have p: "snd (d_prev ?d2) = ?d3" "snd (d_next ?d3) = ?d2"
    using assms(1) by (simp_all add: d_prev_def d_next_def d_len_def Let_def)
  have "d_token ?d3 = ob" "d_token ?d2 = t"
    using val_at [of ?d3 "pre @ [p]" ob "t # ts"] val_at [of ?d2 "pre @ [p, ob]" t ts] assms(1) by simp_all
  then show ?thesis
    using nb p by (simp add: block_segment.simps [of "d_nesting d" False acc d] Let_def)
qed

subsection \<open>Properties\<close>

text \<open>The arguments of a directive are the tokens after it on its line, up to an opening brace;
  reading them leaves the cursor on the last one.\<close>

theorem remaining_args_line:
  assumes "d_tokens d = pre @ p # ts" and "d_cursor d = int (length pre)"
  shows "remaining_args_as_tokens d = (line_args p ts, d\<lparr>d_cursor := int (length pre + length (line_args p ts))\<rparr>)"
  using collect_args_at [OF assms] by (simp add: remaining_args_as_tokens_def)

definition sample_dispenser :: dispenser where
  "sample_dispenser = (dispenser_new [token_new ''a'' 1, token_new ''b'' 1, token_new ''{'' 1, token_new ''c'' 2,
     token_new ''}'' 3, token_new ''e'' 4])\<lparr>d_cursor := 0\<rparr>"

theorem remaining_args_line_witness:
  "remaining_args_as_tokens sample_dispenser = ([token_new ''b'' 1], sample_dispenser\<lparr>d_cursor := 1\<rparr>)"
  using remaining_args_line [of sample_dispenser "[]" "token_new ''a'' 1" "tl (d_tokens sample_dispenser)"]
  by (simp add: sample_dispenser_def dispenser_new_def token_new_def is_next_on_new_line_def num_line_breaks_def)

text \<open>Counting the arguments changes nothing: the count is that of the arguments a reading would
  return, and the dispenser is as before.\<close>

theorem count_remaining_args_pure:
  assumes "-1 \<le> d_cursor d"
  shows "count_remaining_args d = (length (fst (remaining_args d)), d)"
proof -
  obtain r d' where r: "collect_args val d = (r, d')" by fastforce
  have c: "d' = d\<lparr>d_cursor := d_cursor d + int (length r)\<rparr>" "collect_args (\<lambda>_. ()) d = (map (\<lambda>_. ()) r, d')"
    using collect_args_count [OF r] by simp_all
  have "((\<lambda>d. snd (d_prev d)) ^^ length r) d' = d" using prev_steps [of "length r" d'] assms c(1) by simp
  then show ?thesis using r c(2) by (simp add: count_remaining_args_def remaining_args_def Let_def)
qed

theorem count_remaining_args_pure_witness:
  "count_remaining_args sample_dispenser = (length (fst (remaining_args sample_dispenser)), sample_dispenser)"
  by (rule count_remaining_args_pure) (simp add: sample_dispenser_def)

text \<open>A segment with a block is returned whole: the directive, its arguments, the braces and all
  that is between them, when braces end their lines; the cursor is left on the closing brace
  and the nesting level is as before.\<close>

theorem next_segment_block:
  assumes "d_tokens d = pre @ (p # as @ ob # t # ts) @ rest" and "d_cursor d = int (length pre)"
    and "line_args p (as @ ob # t # ts @ rest) = as" and "t_text ob = ''{''" and "\<not> is_next_on_new_line (last (p # as)) ob"
    and "\<not> brace t" and "closes 1 ts" and "successively brace_ends_line (ts @ take 1 rest)"
  shows "next_segment d = (p # as @ ob # t # ts, d\<lparr>d_cursor := int (length pre + length (p # as @ ob # t # ts)) - 1\<rparr>)"
proof -
  let ?d1 = "cursor_at (length pre + length as) d"
  obtain us cb where ts: "ts = us @ [cb]" using assms(7) by (cases ts rule: rev_cases) auto
  obtain q l where q: "p # as = q @ [l]" by (metis list.distinct(1) rev_exhaust)
  have lq: "length q = length as" using arg_cong [OF q, of length] by simp
  have c: "collect_args d_token d = (as, ?d1)"
    using collect_args_at [of d pre p "as @ ob # t # ts @ rest"] assms(1-3) by simp
  have "pre @ (p # as) @ ob # t # ts @ rest = (pre @ q) @ l # ob # t # ts @ rest" unfolding q by simp
  then have toks: "d_tokens ?d1 = (pre @ q) @ l # ob # t # (ts @ rest)" using assms(1) by simp
  let ?d2 = "?d1\<lparr>d_cursor := int (length pre + length as) + 2, d_nesting := d_nesting d + 1\<rparr>"
  have "block_segment (d_nesting d) False (p # as) ?d1 = block_segment (d_nesting d) True ((p # as) @ [ob, t]) ?d2"
    using block_opens [OF toks, of "p # as"] assms(4-6) lq unfolding q by (simp add: brace_def)
  also have "\<dots> = (True, ((p # as) @ [ob, t]) @ butlast ts,
      ?d2\<lparr>d_cursor := d_cursor ?d2 + int (length ts), d_nesting := d_nesting d\<rparr>)"
    using assms(1,7,8) by (intro block_walk [of 1 ts rest ?d2 "pre @ p # as @ [ob, t]"]) simp_all
  finally have b: "block_segment (d_nesting d) False (p # as) ?d1 = (True, p # as @ ob # t # us,
      d\<lparr>d_cursor := int (length pre + length (p # as @ ob # t # us))\<rparr>)" by (simp add: ts ac_simps)
  have "d_token (cursor_at (length pre + length (p # as @ ob # t # us)) d) = cb"
    using val_at [of "cursor_at (length pre + length (p # as @ ob # t # us)) d" "pre @ p # as @ ob # t # us" cb rest]
      assms(1) by (simp add: ts)
  moreover have "d_token d = p" using val_at [of d pre p "as @ ob # t # ts @ rest"] assms(1,2) by simp
  ultimately show ?thesis using c b by (simp add: next_segment_def Let_def ts)
qed

theorem next_segment_block_witness:
  "next_segment sample_dispenser = (take 5 (d_tokens sample_dispenser), sample_dispenser\<lparr>d_cursor := 4\<rparr>)"
  using next_segment_block [of sample_dispenser "[]" "token_new ''a'' 1" "[token_new ''b'' 1]" "token_new ''{'' 1"
      "token_new ''c'' 2" "[token_new ''}'' 3]" "[token_new ''e'' 4]"]
  by (simp add: sample_dispenser_def dispenser_new_def token_new_def is_next_on_new_line_def num_line_breaks_def
      brace_def brace_ends_line_def)

text \<open>Walking a block ends: every step that finds a token of the block moves the cursor forward
  and keeps it on a token, so a loop over a block runs at most once per token.\<close>

theorem next_block_progress:
  assumes "next_block n d = (True, d')"
  shows "d_cursor d < d_cursor d' \<and> d_cursor d' < int (length (d_tokens d)) \<and> d_tokens d' = d_tokens d"
  using next_block_moves [OF assms] by (simp add: d_len_def)

theorem next_block_progress_witness:
  "\<exists>d'. next_block 0 (sample_dispenser\<lparr>d_cursor := 1\<rparr>) = (True, d') \<and> 1 < d_cursor d'"
proof -
  have n: "next_block 0 (sample_dispenser\<lparr>d_cursor := 1\<rparr>) = (True, sample_dispenser\<lparr>d_cursor := 3, d_nesting := 1\<rparr>)"
    by (simp add: next_block_def next_on_same_line_def d_next_def val_def d_len_def sample_dispenser_def dispenser_new_def
        token_new_def is_next_on_new_line_def num_line_breaks_def Let_def)
  show ?thesis using next_block_progress [OF n] n by simp
qed

end
