(* ===== verification/Caddy_Import.thy ===== *)
theory Caddy_Import
  imports Caddy_Lexer "HOL-Library.List_Lexorder" "HOL-Library.Char_ord"
begin

text \<open>
  Snippets and \<open>import\<close> directives of Caddyfiles, \<open>caddyfile/import.rs\<close>: collecting and
  removing snippet definitions, splicing snippets and files, substituting arguments and
  blocks, and the graph that refuses cyclic imports.  The file system is the parameter \<open>fs\<close>
  and the environment the parameter \<open>env\<close>.  Loops over an index are recursions over the
  tokens behind it, with the token before them.
\<close>

subsection \<open>Paths\<close>

text \<open>\<open>Path::parent\<close>, \<open>join\<close> and \<open>is_absolute\<close> of the standard library.  Trailing separators and dot
  components are not components of a path.\<close>

fun path_trim :: "nat \<Rightarrow> string \<Rightarrow> string" where
  "path_trim 0 p = p"
| "path_trim (Suc n) p =
     (if length p > 1 \<and> (last p = CHR ''/'' \<or> ends_with p ''/.'') then path_trim n (butlast p) else p)"

definition path_parent :: "string \<Rightarrow> string option" where
  "path_parent p =
     (let q = path_trim (length p) p
      in if q = [] \<or> q = ''/'' then None
         else let r = rev (dropWhile (\<lambda>c. c \<noteq> CHR ''/'') (rev q)) in Some (path_trim (length r) r))"

definition is_absolute :: "string \<Rightarrow> bool" where
  "is_absolute p = starts_with p ''/''"

definition path_join :: "string \<Rightarrow> string \<Rightarrow> string" where
  "path_join dir p =
     (if is_absolute p then p else if dir = [] \<or> ends_with dir ''/'' then dir @ p else dir @ ''/'' @ p)"

record file_system =
  fs_read_dir :: "string \<Rightarrow> string list option"
  fs_is_file :: "string \<Rightarrow> bool"
  fs_canonicalize :: "string \<Rightarrow> string option"
  fs_read :: "string \<Rightarrow> string option"

subsection \<open>The import graph\<close>

type_synonym import_graph = "(string, string list) store"

definition edges :: "import_graph \<Rightarrow> string \<Rightarrow> string list" where
  "edges g from = (case store_get g from of None \<Rightarrow> [] | Some ns \<Rightarrow> ns)"

text \<open>The depth-first search with the visited nodes shared by all branches.  The first argument
  bounds the depth; one more than the number of nodes with edges is enough.\<close>

fun reaches_inner :: "nat \<Rightarrow> import_graph \<Rightarrow> string \<Rightarrow> string \<Rightarrow> string list \<Rightarrow> bool \<times> string list"
  and reaches_any :: "nat \<Rightarrow> import_graph \<Rightarrow> string list \<Rightarrow> string \<Rightarrow> string list \<Rightarrow> bool \<times> string list" where
  "reaches_inner 0 g from to seen = (False, seen)"
| "reaches_inner (Suc n) g from to seen =
     (if from = to then (True, seen)
      else if from \<in> set seen then (False, seen)
      else reaches_any n g (edges g from) to (from # seen))"
| "reaches_any n g [] to seen = (False, seen)"
| "reaches_any n g (x # xs) to seen =
     (case reaches_inner n g x to seen of
        (True, seen') \<Rightarrow> (True, seen')
      | (False, seen') \<Rightarrow> reaches_any n g xs to seen')"

definition reaches :: "import_graph \<Rightarrow> string \<Rightarrow> string \<Rightarrow> bool" where
  "reaches g from to = fst (reaches_inner (length g + 2) g from to [])"

fun add_edges :: "string \<Rightarrow> string list \<Rightarrow> import_graph \<Rightarrow> caddy_error + import_graph" where
  "add_edges from [] g = Inr g"
| "add_edges from (node # rest) g =
     (if reaches g node from then Inl (ImportCycle from node)
      else add_edges from rest
        (store_put from (if node \<in> set (edges g from) then edges g from else edges g from @ [node]) g))"

subsection \<open>Blocks and snippets\<close>

record snippet =
  sn_node :: string
  sn_tokens :: "token list"

type_synonym snippets = "(string, snippet) store"

record imported =
  im_nodes :: "string list"
  im_tokens :: "token list"

definition is_paren_name :: "string \<Rightarrow> bool" where
  "is_paren_name s = (length s \<ge> 2 \<and> starts_with s ''('' \<and> ends_with s '')'')"

text \<open>\<open>at_line_start\<close> of the token behind \<open>prev\<close>.\<close>

definition at_line_start :: "token option \<Rightarrow> token \<Rightarrow> bool" where
  "at_line_start prev t = (case prev of None \<Rightarrow> True | Some p \<Rightarrow> is_next_on_new_line p t)"

text \<open>The interior of a block, its closing brace and the tokens behind it, from the token after the
  opening brace.\<close>

fun capture_loop :: "nat \<Rightarrow> nat \<Rightarrow> token list \<Rightarrow> caddy_error + token list \<times> token \<times> token list" where
  "capture_loop l nesting [] = Inl (UnclosedBlock l)"
| "capture_loop l nesting (t # ts) =
     (if t_text t = ''}'' then
        (if nesting - 1 = 0 then Inr ([], t, ts)
         else and_then (capture_loop l (nesting - 1) ts) (\<lambda>(i, c, r). Inr (t # i, c, r)))
      else and_then (capture_loop l (if t_text t = ''{'' then nesting + 1 else nesting) ts) (\<lambda>(i, c, r). Inr (t # i, c, r)))"

definition capture_block :: "token \<Rightarrow> token list \<Rightarrow> caddy_error + token list \<times> token \<times> token list" where
  "capture_block ob ts = capture_loop (t_line ob) 1 ts"

lemma capture_loop_shorter: "capture_loop l n ts = Inr (i, c, r) \<Longrightarrow> length r < length ts"
  by (induction l n ts arbitrary: i rule: capture_loop.induct) (fastforce simp: and_then_Inr split: if_splits)+

lemma capture_block_shorter: "capture_block ob ts = Inr (i, c, r) \<Longrightarrow> length r < length ts"
  by (simp add: capture_block_def capture_loop_shorter)

function collect_loop :: "token option \<Rightarrow> int \<Rightarrow> token list \<Rightarrow> snippets \<Rightarrow> caddy_error + token list \<times> snippets" where
  "collect_loop prev nesting [] snippets = Inr ([], snippets)"
| "collect_loop prev nesting (t # ts) snippets =
     (if nesting = 0 \<and> at_line_start prev t \<and> is_paren_name (t_text t) \<and> ts \<noteq> [] \<and> t_text (hd ts) = ''{'' then
        (let name = butlast (tl (t_text t))
         in case capture_block (hd ts) (tl ts) of
              Inl e \<Rightarrow> Inl e
            | Inr (interior, close, rest) \<Rightarrow>
                collect_loop (Some close) nesting rest
                  (store_put name \<lparr>sn_node = t_file t @ '':'' @ name, sn_tokens = map (\<lambda>tk. tk\<lparr>t_snippet := name\<rparr>) interior\<rparr> snippets))
      else
        and_then
          (collect_loop (Some t) (if t_text t = ''{'' then nesting + 1 else if t_text t = ''}'' then nesting - 1 else nesting) ts snippets)
          (\<lambda>(out, s). Inr (t # out, s)))"
  by pat_completeness auto
termination
proof (relation "measure (\<lambda>(prev, nesting, ts, s). length ts)", simp, goal_cases)
  case (1 prev nesting t ts snippets name r interior close rest)
  then show ?case using capture_block_shorter [of "hd ts" "tl ts" interior] by fastforce
qed simp

definition collect_snippets :: "token list \<Rightarrow> snippets \<Rightarrow> caddy_error + token list \<times> snippets" where
  "collect_snippets tokens snippets = collect_loop None 0 tokens snippets"

subsection \<open>Arguments\<close>

definition str_replace :: "string \<Rightarrow> string \<Rightarrow> string \<Rightarrow> string" where
  "str_replace from to s = join_with to (split_str from s)"

definition parse_variadic :: "string \<Rightarrow> nat \<Rightarrow> (nat \<times> nat) option" where
  "parse_variadic s arg_count = do {
     a \<leftarrow> strip_prefix s ''{args['';
     inner \<leftarrow> strip_suffix a '']}'';
     if inner = [] then None
     else do {
       (start, end') \<leftarrow> split_once (CHR '':'') inner;
       if CHR ''}'' \<in> set start \<or> CHR ''{'' \<in> set end' then None
       else do {
         start_index \<leftarrow> (if start = [] then Some 0 else parse_uint 10 (2 ^ 64) start);
         end_index \<leftarrow> (if end' = [] then Some arg_count else parse_uint 10 (2 ^ 64) end');
         if start_index > end_index \<or> end_index > arg_count then None
         else Some (start_index, end_index)
       }
     }
   }"

fun replace_args_from :: "nat \<Rightarrow> string list \<Rightarrow> string \<Rightarrow> string" where
  "replace_args_from i [] result = result"
| "replace_args_from i (arg # args) result =
     replace_args_from (Suc i) args
       (str_replace (''{args.'' @ show_base 10 i @ ''}'') arg (str_replace (''{args['' @ show_base 10 i @ '']}'') arg result))"

definition replace_args :: "string \<Rightarrow> string list \<Rightarrow> string" where
  "replace_args s args = replace_args_from 0 args s"

text \<open>The inner loop of \<open>named_import_blocks\<close>: the tokens of one entry, the last token read and the
  tokens behind it.\<close>

fun entry_loop :: "token \<Rightarrow> token list \<Rightarrow> caddy_error + token list \<times> token \<times> token list" where
  "entry_loop prev [] = Inr ([], prev, [])"
| "entry_loop prev (t # ts) =
     (if is_next_on_new_line prev t then Inr ([], prev, t # ts)
      else if t_text t = ''{'' then capture_block t ts
      else and_then (entry_loop t ts) (\<lambda>(m, p, r). Inr (t # m, p, r)))"

lemma entry_loop_shorter: "entry_loop prev ts = Inr (m, p, r) \<Longrightarrow> length r \<le> length ts"
  by (induction prev ts arbitrary: m rule: entry_loop.induct)
    (fastforce simp: and_then_Inr split: if_splits dest: capture_block_shorter)+

function named_loop :: "token option \<Rightarrow> token list \<Rightarrow> (string, token list) store \<Rightarrow> caddy_error + (string, token list) store" where
  "named_loop prev [] blocks = Inr blocks"
| "named_loop prev (t # ts) blocks =
     (if \<not> at_line_start prev t then named_loop (Some t) ts blocks
      else if t_text t = ''{'' then Inl AnonymousBlock
      else case entry_loop t ts of
             Inl e \<Rightarrow> Inl e
           | Inr (mapping, p, rest) \<Rightarrow> named_loop (Some p) rest (store_put (t_text t) mapping blocks))"
  by pat_completeness auto
termination
  by (relation "measure (\<lambda>(prev, ts, b). length ts)") (auto dest!: entry_loop_shorter)

definition named_import_blocks :: "token list \<Rightarrow> caddy_error + (string, token list) store" where
  "named_import_blocks tokens = named_loop None tokens []"

definition import_chain :: "token \<Rightarrow> string" where
  "import_chain tok =
     (if t_snippet tok = [] then t_file tok @ '':'' @ show_base 10 (t_line tok) @ '' (import)''
      else t_file tok @ '':'' @ show_base 10 (t_line tok) @ '' (import '' @ t_snippet tok @ '')'')"

definition substitute_token ::
  "string \<Rightarrow> string list \<Rightarrow> token list \<Rightarrow> (string, token list) store \<Rightarrow> token \<Rightarrow> token list" where
  "substitute_token chain args import_block named_blocks tok0 =
     (let tok = tok0\<lparr>t_imports := t_imports tok0 @ [chain]\<rparr>
      in case parse_variadic (t_text tok) (length args) of
           Some (start, end') \<Rightarrow> map (\<lambda>a. tok\<lparr>t_text := a\<rparr>) (take (end' - start) (drop start args))
         | None \<Rightarrow>
             if t_text tok = ''{block}'' then import_block
             else case Option.bind (strip_prefix (t_text tok) ''{blocks.'') (\<lambda>s. strip_suffix s ''}'') of
                    Some name \<Rightarrow> (case store_get named_blocks name of Some b \<Rightarrow> b | None \<Rightarrow> [])
                  | None \<Rightarrow> [tok\<lparr>t_text := replace_args (t_text tok) args\<rparr>])"

definition apply_import_placeholders ::
  "token list \<Rightarrow> string list \<Rightarrow> token list option \<Rightarrow> token \<Rightarrow> caddy_error + token list" where
  "apply_import_placeholders tokens args import_block import_tok =
     (let ib = (case import_block of None \<Rightarrow> [] | Some b \<Rightarrow> b)
      in and_then (named_import_blocks ib) (\<lambda>named_blocks.
           Inr (concat (map (substitute_token (import_chain import_tok) args ib named_blocks) tokens))))"

subsection \<open>Files\<close>

text \<open>The glob of file imports has one star or one question mark.\<close>

definition import_glob_match :: "string \<Rightarrow> string \<Rightarrow> bool" where
  "import_glob_match pattern name =
     (case find_sub ''*'' pattern of
        Some star \<Rightarrow>
          (let pre = take star pattern; post = drop (star + 1) pattern
           in length name \<ge> length pre + length post \<and> starts_with name pre \<and> ends_with name post)
      | None \<Rightarrow>
          if CHR ''?'' \<in> set pattern then
            length pattern = length name \<and> list_all (\<lambda>(p, c). p = ''?'' \<or> p = c) (zip (chars pattern) (chars name))
          else pattern = name)"

definition import_file_node :: "file_system \<Rightarrow> string \<Rightarrow> string" where
  "import_file_node fs path = (case fs_canonicalize fs path of Some p \<Rightarrow> p | None \<Rightarrow> path)"

definition read_and_tokenize :: "file_system \<Rightarrow> (string \<Rightarrow> string option) \<Rightarrow> string \<Rightarrow> caddy_error + token list" where
  "read_and_tokenize fs env path =
     (case fs_read fs path of
        None \<Rightarrow> Inl (ImportUnreadable path)
      | Some content \<Rightarrow> tokenize env content (case fs_canonicalize fs path of Some p \<Rightarrow> p | None \<Rightarrow> path))"

fun read_paths :: "file_system \<Rightarrow> (string \<Rightarrow> string option) \<Rightarrow> string list \<Rightarrow> caddy_error + imported" where
  "read_paths fs env [] = Inr \<lparr>im_nodes = [], im_tokens = []\<rparr>"
| "read_paths fs env (p # ps) =
     and_then (read_and_tokenize fs env p) (\<lambda>ts.
     and_then (read_paths fs env ps) (\<lambda>rest.
       Inr \<lparr>im_nodes = import_file_node fs p # im_nodes rest, im_tokens = ts @ im_tokens rest\<rparr>))"

definition import_files ::
  "file_system \<Rightarrow> (string \<Rightarrow> string option) \<Rightarrow> string \<Rightarrow> string \<Rightarrow> token \<Rightarrow> caddy_error + imported" where
  "import_files fs env pattern filename import_tok =
     (let dir = (case path_parent filename of Some d \<Rightarrow> d | None \<Rightarrow> ''.'');
          glob_pattern = (if is_absolute pattern then pattern else path_join dir pattern);
          has_glob = list_ex (\<lambda>c. c \<in> {CHR ''*'', CHR ''?'', CHR ''['', CHR '']''}) glob_pattern
      in if count_list glob_pattern (CHR ''*'') > 1 \<or> count_list glob_pattern (CHR ''?'') > 1
            \<or> (CHR ''['' \<in> set glob_pattern \<and> CHR '']'' \<in> set glob_pattern) then Inl (GlobWildcards glob_pattern)
         else if has_glob then
           (let parent = (case path_parent glob_pattern of Some d \<Rightarrow> d | None \<Rightarrow> ''.'');
                needle = (case path_file_name glob_pattern of Some n \<Rightarrow> n | None \<Rightarrow> []);
                skip_dotfiles = starts_with needle ''*''
            in case fs_read_dir fs parent of
                 None \<Rightarrow> Inr \<lparr>im_nodes = [], im_tokens = []\<rparr>
               | Some names \<Rightarrow>
                   read_paths fs env (map (path_join parent) (sort
                     (filter (\<lambda>name. \<not> (skip_dotfiles \<and> starts_with name ''.'') \<and> import_glob_match needle name) names))))
         else if fs_is_file fs glob_pattern then read_paths fs env [glob_pattern]
         else Inl (ImportNotFound pattern (t_file import_tok) (t_line import_tok)))"

subsection \<open>Expansion\<close>

definition import_node :: "token \<Rightarrow> string" where
  "import_node tok = (if t_snippet tok = [] then t_file tok else t_file tok @ '':'' @ t_snippet tok)"

definition resolve ::
  "file_system \<Rightarrow> (string \<Rightarrow> string option) \<Rightarrow> string \<Rightarrow> string list \<Rightarrow> token list option \<Rightarrow> snippets \<Rightarrow> string \<Rightarrow> token
    \<Rightarrow> caddy_error + imported \<times> snippets" where
  "resolve fs env target args import_block snippets filename import_tok =
     and_then
       (case store_get snippets target of
          Some snippet \<Rightarrow> Inr (\<lparr>im_nodes = [sn_node snippet], im_tokens = sn_tokens snippet\<rparr>, snippets)
        | None \<Rightarrow>
            and_then (import_files fs env target filename import_tok) (\<lambda>im.
            and_then (collect_snippets (im_tokens im) snippets) (\<lambda>(tokens, snippets').
              Inr (\<lparr>im_nodes = im_nodes im, im_tokens = tokens\<rparr>, snippets'))))
       (\<lambda>(im, snippets').
          and_then (apply_import_placeholders (im_tokens im) args import_block import_tok) (\<lambda>tokens.
            Inr (\<lparr>im_nodes = im_nodes im, im_tokens = tokens\<rparr>, snippets')))"

fun find_import_from :: "nat \<Rightarrow> token option \<Rightarrow> token list \<Rightarrow> nat option" where
  "find_import_from i prev [] = None"
| "find_import_from i prev (t # ts) =
     (if t_text t = ''import'' \<and> at_line_start prev t then Some i else find_import_from (Suc i) (Some t) ts)"

definition find_import :: "token list \<Rightarrow> nat option" where
  "find_import tokens = find_import_from 0 None tokens"

text \<open>The arguments of an import, its block, and the tokens behind it.\<close>

fun import_args :: "token \<Rightarrow> token list \<Rightarrow> caddy_error + string list \<times> token list option \<times> token list" where
  "import_args prev [] = Inr ([], None, [])"
| "import_args prev (t # ts) =
     (if is_next_on_new_line prev t then Inr ([], None, t # ts)
      else if t_text t = ''{'' then and_then (capture_block t ts) (\<lambda>(interior, close, rest). Inr ([], Some interior, rest))
      else and_then (import_args t ts) (\<lambda>(args, b, rest). Inr (t_text t # args, b, rest)))"

definition expand_one ::
  "file_system \<Rightarrow> (string \<Rightarrow> string option) \<Rightarrow> string \<Rightarrow> token list \<Rightarrow> snippets \<Rightarrow> import_graph \<Rightarrow> nat
    \<Rightarrow> caddy_error + token list \<times> snippets \<times> import_graph" where
  "expand_one fs env filename tokens snippets graph idx =
     (if idx + 1 \<ge> length tokens \<or> is_next_on_new_line (tokens ! idx) (tokens ! (idx + 1)) then
        Inl (ImportNoPath (t_line (tokens ! idx)))
      else
        and_then (import_args (tokens ! (idx + 1)) (drop (idx + 2) tokens)) (\<lambda>(args, import_block, rest).
        and_then (resolve fs env (t_text (tokens ! (idx + 1))) args import_block snippets filename (tokens ! idx)) (\<lambda>(im, snippets').
        and_then (add_edges (import_node (tokens ! idx)) (im_nodes im) graph) (\<lambda>graph'.
          Inr (take idx tokens @ im_tokens im @ rest, snippets', graph')))))"

definition MAX_ITERS :: nat where "MAX_ITERS = 10000"

fun expand_loop ::
  "nat \<Rightarrow> file_system \<Rightarrow> (string \<Rightarrow> string option) \<Rightarrow> string \<Rightarrow> token list \<Rightarrow> snippets \<Rightarrow> import_graph \<Rightarrow> caddy_error + token list" where
  "expand_loop 0 fs env filename tokens snippets graph = Inl TooManyImports"
| "expand_loop (Suc n) fs env filename tokens snippets graph =
     (case find_import tokens of
        None \<Rightarrow> Inr tokens
      | Some idx \<Rightarrow>
          and_then (expand_one fs env filename tokens snippets graph idx) (\<lambda>(tokens', snippets', graph').
            expand_loop n fs env filename tokens' snippets' graph'))"

definition expand_imports ::
  "file_system \<Rightarrow> (string \<Rightarrow> string option) \<Rightarrow> token list \<Rightarrow> snippets \<Rightarrow> string \<Rightarrow> caddy_error + token list" where
  "expand_imports fs env tokens snippets filename = expand_loop MAX_ITERS fs env filename tokens snippets []"

definition expand :: "file_system \<Rightarrow> (string \<Rightarrow> string option) \<Rightarrow> token list \<Rightarrow> string \<Rightarrow> caddy_error + token list" where
  "expand fs env tokens filename =
     and_then (collect_snippets tokens []) (\<lambda>(tokens', snippets). expand_imports fs env tokens' snippets filename)"

subsection \<open>The search finds exactly the reachable nodes\<close>

definition import_rel :: "import_graph \<Rightarrow> (string \<times> string) set" where
  "import_rel g = {(x, y). y \<in> set (edges g x)}"

abbreviation closed_in :: "import_graph \<Rightarrow> string list \<Rightarrow> string list \<Rightarrow> bool" where
  "closed_in g seen s \<equiv> \<forall>y \<in> set s - set seen. set (edges g y) \<subseteq> set s"

definition search_ok :: "import_graph \<Rightarrow> string list \<Rightarrow> string \<Rightarrow> string list \<Rightarrow> bool \<times> string list \<Rightarrow> bool" where
  "search_ok g xs t seen res \<longleftrightarrow>
     (if fst res then \<exists>x \<in> set xs. (x, t) \<in> (import_rel g)\<^sup>*
      else set seen \<subseteq> set (snd res) \<and> set xs \<subseteq> set (snd res) \<and> t \<notin> set (snd res) \<and> closed_in g seen (snd res))"

lemma edges_key: "x \<notin> fst ` set g \<Longrightarrow> edges g x = []"
  by (simp add: edges_def store_get_def map_of_eq_None_iff [THEN iffD2])

lemma search_any:
  assumes "\<And>x seen. t \<notin> set seen \<Longrightarrow> card (fst ` set g - set seen) < n \<Longrightarrow> search_ok g [x] t seen (reaches_inner n g x t seen)"
  shows "t \<notin> set seen \<Longrightarrow> card (fst ` set g - set seen) < n \<Longrightarrow> search_ok g xs t seen (reaches_any n g xs t seen)"
proof (induction xs arbitrary: seen)
  case Nil
  then show ?case by (simp add: search_ok_def)
next
  case (Cons x xs)
  obtain r s where r: "reaches_inner n g x t seen = (r, s)" by fastforce
  note x = assms [OF Cons.prems, of x, unfolded r]
  show ?case
  proof (cases r)
    case True
    then show ?thesis using x r by (simp add: search_ok_def)
  next
    case False
    then have s: "set seen \<subseteq> set s" "x \<in> set s" "t \<notin> set s" "closed_in g seen s" using x by (simp_all add: search_ok_def)
    have "card (fst ` set g - set s) \<le> card (fst ` set g - set seen)" using s(1) by (intro card_mono) auto
    then have "search_ok g xs t s (reaches_any n g xs t s)" using Cons.IH [OF s(3)] Cons.prems(2) by simp
    moreover have "reaches_any n g (x # xs) t seen = reaches_any n g xs t s" using r False by simp
    ultimately show ?thesis using s unfolding search_ok_def by (auto split: if_splits) blast+
  qed
qed

lemma search_inner:
  "t \<notin> set seen \<Longrightarrow> card (fst ` set g - set seen) < n \<Longrightarrow> search_ok g [x] t seen (reaches_inner n g x t seen)"
proof (induction n arbitrary: x seen)
  case (Suc n)
  consider "x = t" | "x \<noteq> t" "x \<in> set seen" | "x \<noteq> t" "x \<notin> set seen" by blast
  then show ?case
  proof cases
    case 3
    let ?r = "reaches_any n g (edges g x) t (x # seen)"
    have t: "t \<notin> set (x # seen)" using 3(1) Suc.prems(1) by simp
    have any: "search_ok g (edges g x) t (x # seen) ?r"
    proof (cases "x \<in> fst ` set g")
      case True
      then have "fst ` set g - set seen = insert x (fst ` set g - set (x # seen))" using 3(2) by auto
      moreover have "card (insert x (fst ` set g - set (x # seen))) = Suc (card (fst ` set g - set (x # seen)))"
        by (rule card_insert_disjoint) simp_all
      ultimately have "card (fst ` set g - set (x # seen)) < n" using Suc.prems(2) by (metis Suc_less_SucD)
      then show ?thesis using search_any [of t g n "x # seen" "edges g x"] Suc.IH t by blast
    qed (use 3(1) Suc.prems(1) edges_key in \<open>simp add: search_ok_def\<close>)
    have "(x, y) \<in> import_rel g" if "y \<in> set (edges g x)" for y using that by (simp add: import_rel_def)
    then show ?thesis
      using any 3 by (auto simp: search_ok_def split: if_splits intro: converse_rtrancl_into_rtrancl)
  qed (use Suc.prems in \<open>simp_all add: search_ok_def\<close>)
qed simp

lemma closed_reach: "(x, y) \<in> (import_rel g)\<^sup>* \<Longrightarrow> x \<in> set s \<Longrightarrow> closed_in g [] s \<Longrightarrow> y \<in> set s"
  by (induction rule: rtrancl_induct) (auto simp: import_rel_def)

lemma reaches_iff: "reaches g x y \<longleftrightarrow> (x, y) \<in> (import_rel g)\<^sup>*"
proof -
  have "card (fst ` set g) \<le> length g" using card_image_le [of "set g" fst] card_length [of g] by (simp add: le_trans)
  then have "search_ok g [x] y [] (reaches_inner (length g + 2) g x y [])" by (intro search_inner) simp_all
  then show ?thesis
    using closed_reach [of x y g "snd (reaches_inner (length g + 2) g x y [])"]
    by (auto simp: search_ok_def reaches_def split: if_splits)
qed

lemma import_rel_put:
  "import_rel (store_put from (if node \<in> set (edges g from) then edges g from else edges g from @ [node]) g) =
     insert (from, node) (import_rel g)"
  by (auto simp: import_rel_def edges_def st.get_put split: if_splits)

subsection \<open>Blocks and expansion\<close>

lemma capture_loop_iff:
  "capture_loop l (Suc k) ts = Inr (i, c, r) \<longleftrightarrow> ts = i @ c # r \<and> t_text c = ''}'' \<and> depth i k = Some 0"
proof (induction ts arbitrary: k i)
  case (Cons t ts)
  show ?case
  proof (cases i)
    case Nil
    then show ?thesis by (cases k) (auto simp: and_then_Inr)
  next
    case (Cons x xs)
    show ?thesis
    proof (cases k)
      case 0
      then show ?thesis using Cons.IH [of 1 xs] Cons.IH [of 0 xs] by (auto simp: and_then_Inr Cons)
    next
      case (Suc k')
      then show ?thesis using Cons.IH [of "Suc k" xs] Cons.IH [of k xs] Cons.IH [of k' xs] by (auto simp: and_then_Inr Cons)
    qed
  qed
qed simp

lemma collect_none:
  "\<forall>t \<in> set ts. \<not> is_paren_name (t_text t) \<Longrightarrow> collect_loop prev n ts s = Inr (ts, s)"
  by (induction ts arbitrary: prev n) auto

lemma find_import_none: "\<forall>t \<in> set ts. t_text t \<noteq> ''import'' \<Longrightarrow> find_import_from i prev ts = None"
  by (induction ts arbitrary: i prev) auto

lemma expand_plain:
  assumes "\<forall>t \<in> set ts. \<not> is_paren_name (t_text t) \<and> t_text t \<noteq> ''import''"
  shows "expand fs env ts f = Inr ts"
proof -
  have "expand_loop (Suc n) fs env f ts [] [] = Inr ts" for n
    using assms by (simp add: find_import_def find_import_none)
  from this [of 9999] show ?thesis
    using assms collect_none [of ts] by (simp add: expand_def collect_snippets_def expand_imports_def MAX_ITERS_def)
qed

lemma expand_loop_done: "expand_loop n fs env f ts sn g = Inr us \<Longrightarrow> find_import us = None"
  by (induction n arbitrary: ts sn g) (auto simp: and_then_Inr split: option.splits)

subsection \<open>Properties\<close>

text \<open>C25. Imports are refused exactly when they would close a cycle: adding the edges of an import to an
  acyclic graph succeeds if and only if the graph with these edges is acyclic.\<close>

theorem add_edges_acyclic:
  assumes "acyclic (import_rel g)"
  shows "case add_edges from nodes g of
    Inr g' \<Rightarrow> import_rel g' = import_rel g \<union> {from} \<times> set nodes \<and> acyclic (import_rel g')
  | Inl e \<Rightarrow> \<not> acyclic (import_rel g \<union> {from} \<times> set nodes)"
  using assms
proof (induction nodes arbitrary: g)
  case (Cons node nodes)
  define g1 where "g1 = store_put from (if node \<in> set (edges g from) then edges g from else edges g from @ [node]) g"
  have rel: "import_rel g1 = insert (from, node) (import_rel g)" unfolding g1_def by (rule import_rel_put)
  have sets: "import_rel g \<union> {from} \<times> set (node # nodes) = import_rel g1 \<union> {from} \<times> set nodes" using rel by auto
  show ?case
  proof (cases "reaches g node from")
    case True
    then have "\<not> acyclic (import_rel g1)" by (simp add: rel reaches_iff)
    then have "\<not> acyclic (import_rel g1 \<union> {from} \<times> set nodes)" using acyclic_subset by blast
    then show ?thesis unfolding sets using True by simp
  next
    case False
    then have "acyclic (import_rel g1)" using Cons.prems by (simp add: rel reaches_iff)
    moreover have "add_edges from (node # nodes) g = add_edges from nodes g1" using False by (simp add: g1_def)
    ultimately show ?thesis unfolding sets using Cons.IH [of g1] by simp
  qed
qed simp

theorem add_edges_acyclic_witness:
  "(\<exists>g. add_edges ''a'' [''b'', ''c''] [] = Inr g \<and> acyclic (import_rel g)) \<and>
   \<not> acyclic (import_rel [(''b'', [''a''])] \<union> {''a''} \<times> {''b''})"
proof
  have "acyclic (import_rel [])" by (simp add: import_rel_def edges_def store_get_def acyclic_def)
  moreover have "\<exists>g. add_edges ''a'' [''b'', ''c''] [] = Inr g"
    by (simp add: reaches_def edges_def store_get_def store_put_def)
  ultimately show "\<exists>g. add_edges ''a'' [''b'', ''c''] [] = Inr g \<and> acyclic (import_rel g)"
    using add_edges_acyclic [of "[]" "''a''" "[''b'', ''c'']"] by fastforce
  have "import_rel [(''b'', [''a''])] = {(''b'', ''a'')}"
    by (auto simp: import_rel_def edges_def store_get_def split: if_splits)
  moreover have "add_edges ''a'' [''b''] [(''b'', [''a''])] = Inl (ImportCycle ''a'' ''b'')"
    by (simp add: reaches_def edges_def store_get_def numeral_2_eq_2)
  ultimately show "\<not> acyclic (import_rel [(''b'', [''a''])] \<union> {''a''} \<times> {''b''})"
    using add_edges_acyclic [of "[(''b'', [''a''])]" "''a''" "[''b'']"] by (simp add: acyclic_insert [of _ _ "{}", simplified])
qed



text \<open>A block is captured exactly when it is closed: the captured interior has balanced braces and
  the token behind it is the matching closing brace.\<close>

theorem capture_block_balanced:
  "capture_block ob ts = Inr (i, c, r) \<longleftrightarrow> ts = i @ c # r \<and> t_text c = ''}'' \<and> depth i 0 = Some 0"
  unfolding capture_block_def One_nat_def by (rule capture_loop_iff)

text \<open>The question mark of an import pattern does not match a character outside ASCII, since
  lengths are compared in bytes: \<open>?\<close> does not match a name of one character in two bytes.\<close>

theorem question_mark_bytes:
  "\<not> import_glob_match ''?'' [CHR 0xC3, CHR 0xA9] \<and> length (chars [CHR 0xC3, CHR 0xA9]) = 1"
  by (simp add: import_glob_match_def starts_with_def char_width_def byte_val_def)

end
