(* ===== verification/Caddy_Layout.thy ===== *)
theory Caddy_Layout
  imports Caddy_Lexer
begin

text \<open>
  What the lexer of \<open>caddyfile/lexer.rs\<close> reads from a laid-out document: words, bare or quoted or
  written as a heredoc, with arbitrary blanks, line breaks and comments between them.  The
  tokens are the words with the numbers of the lines they start on.
\<close>

subsection \<open>Documents\<close>

datatype word =
    Bare "string list"
  | Ticked "string list"
  | Doubled "string list"
  | Heredoc "string list" "string list" "string list list"

datatype gap = Blank string | Break | Remark "string list"

fun show_word :: "word \<Rightarrow> string list" where
  "show_word (Bare s) = s"
| "show_word (Ticked s) = BACKTICK # s @ [BACKTICK]"
| "show_word (Doubled s) = DQUOTE # concat (map (\<lambda>c. if c = DQUOTE then [BACKSLASH, DQUOTE] else [c]) s) @ [DQUOTE]"
| "show_word (Heredoc m pad ls) =
     [''<'', ''<''] @ m @ [LF] @ concat (map (\<lambda>l. pad @ l @ [LF]) ls) @ pad @ m"

fun show_gap :: "gap \<Rightarrow> string list" where
  "show_gap (Blank c) = [c]"
| "show_gap Break = [LF]"
| "show_gap (Remark s) = ''#'' # s @ [LF]"

fun word_token :: "string \<Rightarrow> nat \<Rightarrow> word \<Rightarrow> token" where
  "word_token f l (Bare s) = (make_token s QNone [] l)\<lparr>t_file := f\<rparr>"
| "word_token f l (Ticked s) = (make_token s QBacktick [] l)\<lparr>t_file := f\<rparr>"
| "word_token f l (Doubled s) = (make_token s QDouble [] l)\<lparr>t_file := f\<rparr>"
| "word_token f l (Heredoc m pad ls) = (make_token (join_with [LF] ls) QHeredoc (concat m) l)\<lparr>t_file := f\<rparr>"

text \<open>A character: a leading byte and the continuation bytes it asks for.\<close>

definition wf_char :: "string \<Rightarrow> bool" where
  "wf_char c \<longleftrightarrow> (case c of [] \<Rightarrow> False | b # r \<Rightarrow> length r = char_width b - 1 \<and> list_all (\<lambda>x. 128 \<le> byte_val x) r)"

definition blank :: "string \<Rightarrow> bool" where
  "blank c \<longleftrightarrow> is_whitespace c \<and> c \<noteq> LF \<and> c \<noteq> CR"

definition bare_char :: "string \<Rightarrow> bool" where
  "bare_char c \<longleftrightarrow> \<not> is_whitespace c \<and> c \<noteq> BACKSLASH"

text \<open>The marker of a heredoc occurs in its text only at the end.\<close>

definition marker_last :: "string list \<Rightarrow> string list \<Rightarrow> bool" where
  "marker_last m s \<longleftrightarrow> find_sub m (s @ m) = Some (length s)"

fun word_ok :: "word \<Rightarrow> bool" where
  "word_ok (Bare s) \<longleftrightarrow> s \<noteq> [] \<and> list_all bare_char s \<and> hd s \<notin> {''#'', DQUOTE, BACKTICK} \<and> \<not> starts_with s [''<'', ''<'']"
| "word_ok (Ticked s) \<longleftrightarrow> BACKTICK \<notin> set s"
| "word_ok (Doubled s) \<longleftrightarrow> BACKSLASH \<notin> set s"
| "word_ok (Heredoc m pad ls) \<longleftrightarrow> m \<noteq> [] \<and> list_all is_marker_char m \<and> ls \<noteq> [] \<and> LF \<notin> set pad \<and>
     (\<forall>l \<in> set ls. LF \<notin> set l \<and> CR \<notin> set l) \<and> CR \<notin> set pad \<and>
     marker_last m (concat (map (\<lambda>l. pad @ l @ [LF]) ls) @ pad)"

fun gap_ok :: "gap \<Rightarrow> bool" where
  "gap_ok (Blank c) \<longleftrightarrow> blank c"
| "gap_ok Break \<longleftrightarrow> True"
| "gap_ok (Remark s) \<longleftrightarrow> LF \<notin> set s \<and> BACKSLASH \<notin> set s"

fun gap_breaks :: "gap \<Rightarrow> nat" where
  "gap_breaks (Blank c) = 0"
| "gap_breaks Break = 1"
| "gap_breaks (Remark s) = 1"

type_synonym document = "(word \<times> gap list) list"

definition show_gaps :: "gap list \<Rightarrow> string list" where
  "show_gaps gs = concat (map show_gap gs)"

definition show_document :: "document \<Rightarrow> string list" where
  "show_document d = concat (map (\<lambda>(w, gs). show_word w @ show_gaps gs) d)"

fun is_remark :: "gap \<Rightarrow> bool" where
  "is_remark (Remark s) = True"
| "is_remark g = False"

definition document_ok :: "document \<Rightarrow> bool" where
  "document_ok d \<longleftrightarrow> (\<forall>(w, gs) \<in> set d. word_ok w \<and> gs \<noteq> [] \<and> \<not> is_remark (hd gs) \<and> list_all gap_ok gs)"

fun document_tokens :: "string \<Rightarrow> nat \<Rightarrow> document \<Rightarrow> token list" where
  "document_tokens f l [] = []"
| "document_tokens f l ((w, gs) # d) =
     word_token f l w # document_tokens f (l + num_line_breaks (word_token f l w) + sum_list (map gap_breaks gs)) d"

subsection \<open>Gaps\<close>

abbreviation at :: "nat \<Rightarrow> lexer" where
  "at l \<equiv> \<lparr>lx_line = l, lx_skipped = 0\<rparr>"

lemma whitespace_chars: "is_whitespace LF" "is_whitespace '' ''" "is_whitespace CR"
  "\<not> is_whitespace BACKSLASH" "\<not> is_whitespace DQUOTE" "\<not> is_whitespace BACKTICK" "\<not> is_whitespace ''#''" "\<not> is_whitespace ''<''"
  by (simp_all add: is_whitespace_def ws_prefix_def ws_encodings_def char_of_def bit_Suc_0_iff)

lemma graphic_not_whitespace: "graphic c \<Longrightarrow> \<not> is_whitespace [c]"
  using ws_not_graphic by (fastforce simp: is_whitespace_def)

lemma scan_init_simps [simp]:
  "sc_val (scan_init n) = []" "sc_comment (scan_init n) = False" "sc_quoted (scan_init n) = False"
  "sc_bt_quoted (scan_init n) = False" "sc_in_heredoc (scan_init n) = False" "sc_heredoc_escaped (scan_init n) = False"
  "sc_escaped (scan_init n) = False" "sc_marker (scan_init n) = []" "sc_line (scan_init n) = n"
  by (simp_all add: scan_init_def)

lemma scan_init_update [simp]: "(scan_init n)\<lparr>sc_comment := False\<rparr> = scan_init n"
  by (simp add: scan_init_def)

lemma skip_blank: "blank c \<Longrightarrow> next_loop (scan_init n) lx (c # cs) = next_loop (scan_init n) lx cs"
  using whitespace_chars by (auto simp: blank_def scan_char_def space_char_def)

lemma skip_break: "next_loop (scan_init n) (at l) (LF # cs) = next_loop (scan_init n) (at (Suc l)) cs"
  using whitespace_chars(1) by (simp add: scan_char_def space_char_def count_newline_def)

lemma skip_comment:
  assumes "LF \<notin> set s" and "BACKSLASH \<notin> set s"
  shows "next_loop ((scan_init n)\<lparr>sc_comment := True\<rparr>) (at l) (s @ LF # cs) = next_loop (scan_init n) (at (Suc l)) cs"
  using assms
proof (induction s)
  case Nil
  then show ?case using whitespace_chars(1) by (simp add: scan_char_def space_char_def count_newline_def)
next
  case (Cons c s)
  have "scan_char c ((scan_init n)\<lparr>sc_comment := True\<rparr>) (at l) = More ((scan_init n)\<lparr>sc_comment := True\<rparr>) (at l)"
    using Cons.prems by (auto simp: scan_char_def space_char_def word_char_def)
  then show ?case using Cons by simp
qed

lemma skip_remark:
  assumes "LF \<notin> set s" and "BACKSLASH \<notin> set s"
  shows "next_loop (scan_init n) (at l) (''#'' # s @ LF # cs) = next_loop (scan_init n) (at (Suc l)) cs"
  using skip_comment [OF assms] whitespace_chars by (simp add: scan_char_def word_char_def)

lemma skip_gap: "gap_ok g \<Longrightarrow> next_loop (scan_init n) (at l) (show_gap g @ cs) = next_loop (scan_init n) (at (l + gap_breaks g)) cs"
  by (cases g) (simp_all add: skip_blank skip_break skip_remark del: next_loop.simps)

lemma skip_gaps:
  "list_all gap_ok gs \<Longrightarrow>
     next_loop (scan_init n) (at l) (show_gaps gs @ cs) = next_loop (scan_init n) (at (l + sum_list (map gap_breaks gs))) cs"
  by (induction gs arbitrary: l) (simp_all add: show_gaps_def skip_gap add.assoc del: next_loop.simps)

subsection \<open>Words\<close>

abbreviation plain :: "string list \<Rightarrow> nat \<Rightarrow> scan" where
  "plain v n \<equiv> (scan_init n)\<lparr>sc_val := v\<rparr>"

lemma scan_bare:
  assumes "bare_char c" and "v \<noteq> [] \<or> c \<notin> {''#'', DQUOTE, BACKTICK}" and "\<not> starts_with v [''<'', ''<'']"
  shows "scan_char c (plain v n) (at l) = More (plain (v @ [c]) (if v = [] then l else n)) (at l)"
proof -
  have "\<not> (length v > 1 \<and> v ! 0 = ''<'' \<and> v ! 1 = ''<'')"
    using assms(3) by (cases v rule: remdups_adj.cases) (auto simp: starts_with_def)
  then show ?thesis
    using assms by (auto simp: scan_char_def word_char_def bare_char_def scan_init_def)
qed

lemma scan_bare_run:
  "list_all bare_char s \<Longrightarrow> v \<noteq> [] \<Longrightarrow> \<not> starts_with (v @ s) [''<'', ''<''] \<Longrightarrow>
     next_loop (plain v n) (at l) (s @ cs) = next_loop (plain (v @ s) n) (at l) cs"
proof (induction s arbitrary: v)
  case (Cons c s)
  have "\<not> starts_with v [''<'', ''<'']" using Cons.prems(3) by (auto simp: starts_with_iff)
  then have "scan_char c (plain v n) (at l) = More (plain (v @ [c]) n) (at l)"
    using scan_bare [of c v n l] Cons.prems by simp
  then show ?case using Cons.IH [of "v @ [c]"] Cons.prems by simp
qed simp

lemma bare_end:
  assumes "v \<noteq> []" and "\<not> starts_with v [''<'', ''<'']" and "c = LF \<or> blank c"
  shows "scan_char c (plain v n) (at l) = Emit v QNone [] n (at (if c = LF then Suc l else l))"
proof -
  have "\<not> (length v > 1 \<and> v ! 0 = ''<'' \<and> v ! 1 = ''<'')"
    using assms(2) by (cases v rule: remdups_adj.cases) (auto simp: starts_with_def)
  moreover have "is_whitespace c" "c \<noteq> CR" "c \<noteq> BACKSLASH"
    using assms(3) whitespace_chars by (auto simp: blank_def)
  ultimately show ?thesis
    using assms(1) by (auto simp: scan_char_def space_char_def emit_def count_newline_def)
qed

lemma read_bare:
  assumes "word_ok (Bare s)" and "c = LF \<or> blank c"
  shows "next_loop (scan_init n) (at l) (s @ c # cs) = Inr (Some (make_token s QNone [] l), at (if c = LF then Suc l else l), cs)"
proof -
  obtain d r where s: "s = d # r" using assms(1) by (cases s) auto
  have "scan_char d (scan_init n) (at l) = More (plain [d] l) (at l)"
    using scan_bare [of d "[]" n l] assms(1) s by (simp add: scan_init_def starts_with_def)
  moreover have "\<not> starts_with ([d] @ r) [''<'', ''<'']" using assms(1) s by simp
  ultimately have "next_loop (scan_init n) (at l) (s @ c # cs) = next_loop (plain s l) (at l) (c # cs)"
    using scan_bare_run [of r "[d]" l l "c # cs"] assms(1) s by simp
  then show ?thesis using bare_end [OF _ _ assms(2), of s l l] assms(1) by simp
qed

lemma ticked_run:
  "BACKTICK \<notin> set s \<Longrightarrow>
     next_loop ((scan_init n)\<lparr>sc_bt_quoted := True, sc_val := v\<rparr>) (at l) (s @ BACKTICK # cs) =
     Inr (Some (make_token (v @ s) QBacktick [] n), at (l + count_list s LF), cs)"
proof (induction s arbitrary: v l)
  case Nil
  then show ?case by (simp add: scan_char_def quoted_char_def emit_def)
next
  case (Cons c s)
  have "scan_char c ((scan_init n)\<lparr>sc_bt_quoted := True, sc_val := v\<rparr>) (at l) =
      More ((scan_init n)\<lparr>sc_bt_quoted := True, sc_val := v @ [c]\<rparr>) (at (if c = LF then Suc l else l))"
    using Cons.prems by (auto simp: scan_char_def quoted_char_def count_newline_def)
  then show ?case using Cons by (auto simp: ac_simps)
qed

lemma read_ticked:
  assumes "BACKTICK \<notin> set s"
  shows "next_loop (scan_init n) (at l) (BACKTICK # s @ BACKTICK # cs) =
    Inr (Some (make_token s QBacktick [] l), at (l + count_list s LF), cs)"
proof -
  have "scan_char BACKTICK (scan_init n) (at l) = More ((scan_init l)\<lparr>sc_bt_quoted := True, sc_val := []\<rparr>) (at l)"
    using whitespace_chars by (simp add: scan_char_def word_char_def scan_init_def)
  then show ?thesis using ticked_run [OF assms, of "[]" l l cs] by simp
qed

abbreviation dq_show :: "string list \<Rightarrow> string list" where
  "dq_show s \<equiv> concat (map (\<lambda>c. if c = DQUOTE then [BACKSLASH, DQUOTE] else [c]) s)"

lemma doubled_run:
  "BACKSLASH \<notin> set s \<Longrightarrow>
     next_loop ((scan_init n)\<lparr>sc_quoted := True, sc_val := v\<rparr>) (at l) (dq_show s @ DQUOTE # cs) =
     Inr (Some (make_token (v @ s) QDouble [] n), at (l + count_list s LF), cs)"
proof (induction s arbitrary: v l)
  case Nil
  then show ?case by (simp add: scan_char_def quoted_char_def emit_def)
next
  case (Cons c s)
  let ?st = "\<lambda>v. (scan_init n)\<lparr>sc_quoted := True, sc_val := v\<rparr>"
  have step: "next_loop (?st v) (at l) (dq_show [c] @ r) = next_loop (?st (v @ [c])) (at (if c = LF then Suc l else l)) r" for r
  proof (cases "c = DQUOTE")
    case True
    have "scan_char BACKSLASH (?st v) (at l) = More ((?st v)\<lparr>sc_escaped := True\<rparr>) (at l)" by (simp add: scan_char_def)
    moreover have "scan_char DQUOTE ((?st v)\<lparr>sc_escaped := True\<rparr>) (at l) = More (?st (v @ [DQUOTE])) (at l)"
      by (simp add: scan_char_def quoted_char_def scan_init_def)
    ultimately show ?thesis using True by simp
  next
    case False
    have "scan_char c (?st v) (at l) = More (?st (v @ [c])) (at (if c = LF then Suc l else l))"
      using Cons.prems False by (auto simp: scan_char_def quoted_char_def count_newline_def)
    then show ?thesis using False by simp
  qed
  show ?case using step [of "dq_show s @ DQUOTE # cs"] Cons by (auto simp: ac_simps simp del: next_loop.simps)
qed

lemma read_doubled:
  assumes "BACKSLASH \<notin> set s"
  shows "next_loop (scan_init n) (at l) (DQUOTE # dq_show s @ DQUOTE # cs) =
    Inr (Some (make_token s QDouble [] l), at (l + count_list s LF), cs)"
proof -
  have "scan_char DQUOTE (scan_init n) (at l) = More ((scan_init l)\<lparr>sc_quoted := True, sc_val := []\<rparr>) (at l)"
    using whitespace_chars by (simp add: scan_char_def word_char_def scan_init_def)
  then show ?thesis using doubled_run [OF assms, of "[]" l l cs] by simp
qed

subsection \<open>Heredocs\<close>

lemma find_sub_first: "find_sub pat (a @ pat @ b) = Some i \<Longrightarrow> pat \<noteq> [] \<Longrightarrow> i \<le> length a"
proof (induction a arbitrary: i)
  case Nil
  then show ?case by (cases pat) (auto simp: starts_with_def)
next
  case (Cons x a)
  then show ?case by (auto split: if_splits)
qed

lemma marker_charE: "is_marker_char c \<Longrightarrow> \<exists>b. c = [b] \<and> byte_val b < 128"
  by (cases c rule: remdups_adj.cases) (auto simp: is_marker_char_def byte_val_def)

lemma not_marker_char: "\<not> is_marker_char LF" "\<not> is_marker_char CR" "\<not> is_marker_char '' ''" "\<not> is_marker_char ''<''"
  "\<not> is_marker_char ''{''"
  by (simp_all add: is_marker_char_def byte_val_def)

lemma marker_chars:
  assumes "list_all is_marker_char m"
  shows "chars (concat m) = m" and "LF \<notin> set m" and "CR \<notin> set m" and "\<forall>c \<in> set m. length c = 1"
    and "\<forall>c \<in> set m. c \<noteq> '' '' \<and> c \<noteq> ''<''"
proof -
  have one: "\<exists>b. c = [b] \<and> is_marker_char [b]" if "c \<in> set m" for c
    using assms that marker_charE [of c] by (auto simp: list_all_iff)
  then show "\<forall>c \<in> set m. length c = 1" by fastforce
  show "LF \<notin> set m" "CR \<notin> set m" "\<forall>c \<in> set m. c \<noteq> '' '' \<and> c \<noteq> ''<''"
    using assms not_marker_char by (auto simp: list_all_iff)
  show "chars (concat m) = m"
    using assms
  proof (induction m)
    case (Cons c m)
    then obtain b where b: "c = [b]" "byte_val b < 128" using marker_charE by auto
    with Cons show ?case by (simp add: char_width_def)
  qed simp
qed

lemma length_le_concat: "[] \<notin> set xs \<Longrightarrow> length xs \<le> length (concat xs)"
proof (induction xs)
  case (Cons x xs)
  then show ?case by (cases x) auto
qed simp

lemma length_ones: "\<forall>c \<in> set m. length c = 1 \<Longrightarrow> length (concat m) = length m"
  by (induction m) auto

lemma concat_eq_marker:
  assumes "concat xs = concat m" and "length xs = length m" and "[] \<notin> set xs" and "\<forall>c \<in> set m. length c = 1"
  shows "xs = m"
  using assms(2,1,3,4)
proof (induction xs m rule: list_induct2)
  case (Cons x xs c m)
  obtain b where c: "c = [b]" using Cons.prems(3) by (cases c) auto
  have "length (concat (x # xs)) = length (concat (c # m))" using Cons.prems(1) by simp
  then have "length x + length (concat xs) = Suc (length m)" using c length_ones [of m] Cons.prems(3) by simp
  moreover have "length xs \<le> length (concat xs)" using Cons.prems(2) by (intro length_le_concat) simp
  ultimately have "length x \<le> 1" using Cons.hyps by simp
  then obtain a where "x = [a]" using Cons.prems(2) by (cases x) auto
  then show ?case using Cons c by simp
qed simp

abbreviation in_doc :: "string list \<Rightarrow> string list \<Rightarrow> nat \<Rightarrow> scan" where
  "in_doc m v l \<equiv> (scan_init l)\<lparr>sc_in_heredoc := True, sc_marker := concat m, sc_val := v\<rparr>"

lemma heredoc_run:
  assumes m: "m \<noteq> []" "list_all is_marker_char m" and first: "marker_last m s" and ne: "[] \<notin> set (s @ m)"
  shows "v @ r = s @ m \<Longrightarrow> r \<noteq> [] \<Longrightarrow>
    next_loop (in_doc m v l) \<lparr>lx_line = l, lx_skipped = k\<rparr> (r @ rest) =
     (case finalize_heredoc (s @ m) (concat m) l of Inl e \<Rightarrow> Inl e
      | Inr out \<Rightarrow> Inr (Some (make_token out QHeredoc (concat m) l), at (l + k + count_list r LF), rest))"
proof (induction r arbitrary: v k)
  case (Cons c r)
  let ?v = "v @ [c]" let ?k = "if c = LF then Suc k else k"
  have split: "?v @ r = s @ m" using Cons.prems(1) by simp
  show ?case
  proof (cases "r = []")
    case True
    then have "?v = s @ m" using split by simp
    then have "scan_char c (in_doc m v l) \<lparr>lx_line = l, lx_skipped = k\<rparr> =
        (case finalize_heredoc (s @ m) (concat m) l of Inl e \<Rightarrow> Fault e
         | Inr out \<Rightarrow> Emit out QHeredoc (concat m) l (at (l + ?k)))"
      using marker_chars(1) [OF m(2)] by (auto simp: scan_char_def heredoc_body_def Let_def split: sum.split)
    then show ?thesis using True by (auto split: sum.split)
  next
    case False
    have no: "\<not> (length m \<le> length ?v \<and> concat (drop (length ?v - length m) ?v) = concat m)"
    proof
      assume e: "length m \<le> length ?v \<and> concat (drop (length ?v - length m) ?v) = concat m"
      have "set (drop (length ?v - length m) ?v) \<subseteq> set (s @ m)"
        using split by (metis set_append set_drop_subset subset_trans sup_ge1)
      then have "drop (length ?v - length m) ?v = m"
        using e ne marker_chars(4) [OF m(2)] by (intro concat_eq_marker) auto
      then obtain a where a: "?v = a @ m" by (metis append_take_drop_id)
      then have sm: "s @ m = a @ m @ r" using split by simp
      then have "length s \<le> length a"
        using find_sub_first [OF _ m(1)] first unfolding marker_last_def by metis
      moreover have "length s + length m = length a + (length m + length r)" using sm by (metis length_append)
      moreover have "0 < length r" using False by simp
      ultimately show False by linarith
    qed
    have "scan_char c (in_doc m v l) \<lparr>lx_line = l, lx_skipped = k\<rparr> = More (in_doc m ?v l) \<lparr>lx_line = l, lx_skipped = ?k\<rparr>"
      using no marker_chars(1) [OF m(2)] by (auto simp: scan_char_def heredoc_body_def Let_def)
    then show ?thesis using Cons.IH [of ?v ?k] split False by (auto split: sum.split)
  qed
qed simp

lemma rposition_last: "c \<notin> set r \<Longrightarrow> rposition c (b @ c # r) = Some (length b)"
proof -
  assume "c \<notin> set r"
  then have "rposition c r = None" by (induction r) (auto split: option.split)
  then show ?thesis by (induction b) auto
qed

abbreviation padded :: "string list \<Rightarrow> string list list \<Rightarrow> string list" where
  "padded pad ls \<equiv> concat (map (\<lambda>l. pad @ l @ [LF]) ls)"

lemma padded_ends: "ls \<noteq> [] \<Longrightarrow> \<exists>b. padded pad ls = b @ [LF]"
  by (cases ls rule: rev_cases) auto

lemma split_padded: "LF \<notin> set pad \<Longrightarrow> \<forall>l \<in> set ls. LF \<notin> set l \<Longrightarrow> split_on LF (padded pad ls) = map (\<lambda>l. pad @ l) ls @ [[]]"
proof (induction ls)
  case (Cons l ls)
  have "split_on LF ((pad @ l) @ LF # padded pad ls) = (pad @ l) # split_on LF (padded pad ls)"
    using Cons.prems by (intro split_on_append) simp
  then show ?case using Cons by simp
qed simp

lemma heredoc_lines_padded:
  "CR \<notin> set pad \<Longrightarrow> \<forall>l \<in> set ls. CR \<notin> set l \<Longrightarrow>
     heredoc_lines pad mk st i (map (\<lambda>l. pad @ l) ls) out = Inr (out @ padded [] ls)"
proof (induction ls arbitrary: i out)
  case (Cons l ls)
  have cr: "filter (\<lambda>c. c \<noteq> CR) l = l" "pad @ l \<noteq> [CR]" using Cons.prems by (auto simp: filter_id_conv append_eq_Cons_conv)
  show ?case
  proof (cases "pad @ l = []")
    case True
    then show ?thesis using Cons by simp
  next
    case False
    then show ?thesis using Cons cr by auto
  qed
qed simp

lemma join_lines: "ls \<noteq> [] \<Longrightarrow> padded [] ls = join_with [LF] ls @ [LF]"
  by (induction ls rule: induct_list012) auto

lemma finalize_padded:
  assumes "word_ok (Heredoc m pad ls)"
  shows "finalize_heredoc (padded pad ls @ pad @ m) (concat m) l = Inr (join_with [LF] ls)"
proof -
  obtain b where b: "padded pad ls = b @ [LF]" using padded_ends [of ls pad] assms by auto
  have mk: "chars (concat m) = m" "LF \<notin> set m" using marker_chars assms by auto
  have rp: "rposition LF (padded pad ls @ pad @ m) = Some (length b)"
    using rposition_last [of LF "pad @ m" b] mk(2) assms by (simp add: b)
  have "split_on LF (take (length b + 1) (padded pad ls @ pad @ m)) = map (\<lambda>l. pad @ l) ls @ [[]]"
    using split_padded [of pad ls] assms by (simp add: b)
  moreover have "drop (length b + 1) (take (length (padded pad ls @ pad @ m) - length m) (padded pad ls @ pad @ m)) = pad"
    by (simp add: b)
  moreover have "heredoc_lines pad (concat m) l 0 (map (\<lambda>l. pad @ l) ls) [] = Inr (join_with [LF] ls @ [LF])"
    using heredoc_lines_padded [of pad ls] join_lines [of ls] assms by simp
  moreover have "length (padded pad ls @ pad @ m) - length m \<ge> length b + 1" "length (padded pad ls @ pad @ m) \<ge> length b + 1"
    by (simp_all add: b)
  ultimately show ?thesis unfolding finalize_heredoc_def rp mk(1) Let_def option.case by simp
qed

lemma scan_marker:
  assumes "list_all is_marker_char m"
  shows "next_loop (plain (''<'' # ''<'' # v) l) (at l) (m @ r) = next_loop (plain (''<'' # ''<'' # v @ m) l) (at l) r"
  using assms
proof (induction m arbitrary: v)
  case (Cons c m)
  then have "c \<noteq> LF \<and> c \<noteq> CR \<and> c \<noteq> '' ''" using not_marker_char by auto
  then have "scan_char c (plain (''<'' # ''<'' # v) l) (at l) = More (plain (''<'' # ''<'' # v @ [c]) l) (at l)"
    by (simp add: scan_char_def heredoc_start_def)
  then show ?case using Cons.IH [of "v @ [c]"] Cons.prems by simp
qed simp

lemma heredoc_opens:
  assumes "m \<noteq> []" and "list_all is_marker_char m"
  shows "next_loop (scan_init n) (at l) ([''<'', ''<''] @ m @ LF # r) =
    next_loop (in_doc m [] l) \<lparr>lx_line = l, lx_skipped = 1\<rparr> r"
proof -
  have lt: "bare_char ''<''" using whitespace_chars(8) by (simp add: bare_char_def)
  have 1: "scan_char ''<'' (scan_init n) (at l) = More (plain [''<''] l) (at l)"
    using scan_bare [OF lt, of "[]" n l] by (simp add: scan_init_def starts_with_def)
  have 2: "scan_char ''<'' (plain [''<''] l) (at l) = More (plain [''<'', ''<''] l) (at l)"
    using scan_bare [OF lt, of "[''<'']" l l] by (simp add: starts_with_def)
  have "concat m \<noteq> []"
    using length_ones [OF marker_chars(4) [OF assms(2)]] assms(1) by (metis length_0_conv)
  moreover have "hd m \<noteq> ''<''" "list_all is_marker_char (chars (concat m))"
    using assms marker_chars [OF assms(2)] hd_in_set [OF assms(1)] by auto
  ultimately have "scan_char LF (plain (''<'' # ''<'' # m) l) (at l) = More (in_doc m [] l) \<lparr>lx_line = l, lx_skipped = 1\<rparr>"
    using assms(1) by (simp add: scan_char_def heredoc_start_def Let_def is_valid_heredoc_marker_def hd_conv_nth)
  then show ?thesis using 1 2 scan_marker [OF assms(2), of "[]" l "LF # r"] by simp
qed

lemma count_padded: "LF \<notin> set pad \<Longrightarrow> \<forall>l \<in> set ls. LF \<notin> set l \<Longrightarrow> count_list (padded pad ls) LF = length ls"
  by (induction ls) (auto simp: count_list_append)

lemma read_heredoc:
  assumes "word_ok (Heredoc m pad ls)" and "[] \<notin> set (padded pad ls @ pad @ m)"
  shows "next_loop (scan_init n) (at l) (show_word (Heredoc m pad ls) @ r) =
    Inr (Some (make_token (join_with [LF] ls) QHeredoc (concat m) l), at (l + 1 + length ls), r)"
proof -
  have m: "m \<noteq> []" "list_all is_marker_char m" "marker_last m (padded pad ls @ pad)" using assms(1) by simp_all
  have "count_list (padded pad ls @ pad @ m) LF = length ls"
    using count_padded [of pad ls] assms(1) marker_chars(2) [OF m(2)] by (simp add: count_list_append count_list_0_iff)
  then show ?thesis
    using heredoc_run [OF m, of "[]" "padded pad ls @ pad @ m" l 1 r] heredoc_opens [OF m(1,2), of n l] finalize_padded [OF assms(1), of l]
      assms(2) m(1) by (simp del: next_loop.simps word_ok.simps)
qed

subsection \<open>Documents\<close>

lemma wf_char_parts:
  assumes "wf_char c"
  shows "c \<noteq> []" and "count_list c (CHR 0x0A) = (if c = LF then 1 else 0)" and "chars (c @ s) = c # chars s"
proof -
  obtain b r where c: "c = b # r" "length r = char_width b - 1" "list_all (\<lambda>x. 128 \<le> byte_val x) r"
    using assms by (auto simp: wf_char_def split: list.splits)
  show "c \<noteq> []" using c(1) by simp
  show "chars (c @ s) = c # chars s" using c(1,2) by simp
  have "CHR 0x0A \<notin> set r" using c(3) by (auto simp: list_all_iff byte_val_def)
  moreover have "b = CHR 0x0A \<Longrightarrow> r = []" using c(2) by (simp add: char_width_def byte_val_def)
  ultimately show "count_list c (CHR 0x0A) = (if c = LF then 1 else 0)" using c(1) by (auto simp: count_list_0_iff)
qed

lemma wf_chars:
  assumes "list_all wf_char s"
  shows "[] \<notin> set s" and "count_list (concat s) (CHR 0x0A) = count_list s LF" and "chars (concat s) = s"
proof -
  show "[] \<notin> set s" using assms wf_char_parts(1) by (auto simp: list_all_iff)
  show "count_list (concat s) (CHR 0x0A) = count_list s LF"
    using assms by (induction s) (simp_all add: count_list_append wf_char_parts(2))
  show "chars (concat s) = s" using assms by (induction s) (simp_all add: wf_char_parts(3))
qed

lemma count_join: "ls \<noteq> [] \<Longrightarrow> \<forall>l \<in> set ls. LF \<notin> set l \<Longrightarrow> Suc (count_list (join_with [LF] ls) LF) = length ls"
  by (induction ls rule: induct_list012) (auto simp: count_list_append)

lemma wf_dq: "list_all wf_char (dq_show s) \<Longrightarrow> list_all wf_char s"
  by (induction s) (auto split: if_splits)

lemma wf_join: "ls \<noteq> [] \<Longrightarrow> list_all wf_char (padded pad ls) \<Longrightarrow> list_all wf_char (join_with [LF] ls)"
  by (induction ls rule: induct_list012) auto

lemma num_breaks:
  assumes "word_ok w" and "list_all wf_char (show_word w)"
  shows "num_line_breaks (word_token f l w) = (case w of Bare s \<Rightarrow> 0 | Ticked s \<Rightarrow> count_list s LF | Doubled s \<Rightarrow> count_list s LF
    | Heredoc m pad ls \<Rightarrow> 1 + length ls)"
proof (cases w)
  case (Bare s)
  then have "LF \<notin> set s" using assms(1) whitespace_chars(1) by (auto simp: list_all_iff bare_char_def)
  then show ?thesis
    using Bare assms(2) wf_chars(2) [of s] by (simp add: num_line_breaks_def make_token_def count_list_0_iff)
next
  case (Ticked s)
  then show ?thesis using assms(2) wf_chars(2) [of s] by (simp add: num_line_breaks_def make_token_def)
next
  case (Doubled s)
  then show ?thesis using assms(2) wf_chars(2) [OF wf_dq, of s] by (simp add: num_line_breaks_def make_token_def)
next
  case (Heredoc m pad ls)
  then show ?thesis
    using assms wf_chars(2) [OF wf_join, of ls pad] count_join [of ls] by (simp add: num_line_breaks_def make_token_def Let_def)
qed

lemma read_word:
  assumes "word_ok w" and "list_all wf_char (show_word w)" and "gs \<noteq> []" and "\<not> is_remark (hd gs)" and "list_all gap_ok gs"
  shows "\<exists>gs' l' t. (\<forall>n. next_loop (scan_init n) (at l) (show_word w @ show_gaps gs @ r) = Inr (Some t, at l', show_gaps gs' @ r))
    \<and> t\<lparr>t_file := f\<rparr> = word_token f l w \<and> list_all gap_ok gs'
    \<and> l' + sum_list (map gap_breaks gs') = l + num_line_breaks (word_token f l w) + sum_list (map gap_breaks gs)"
proof (cases w)
  case (Bare s)
  obtain g gs' where gs: "gs = g # gs'" using assms(3) by (cases gs) auto
  then obtain c where c: "show_gap g = [c]" "c = LF \<or> blank c" "gap_breaks g = (if c = LF then 1 else 0)"
    using assms(4,5) by (cases g) (auto simp: blank_def)
  have "next_loop (scan_init n) (at l) (show_word w @ show_gaps gs @ r) =
      Inr (Some (make_token s QNone [] l), at (l + gap_breaks g), show_gaps gs' @ r)" for n
    using read_bare [OF assms(1) [unfolded Bare] c(2), of n l] c Bare by (auto simp: gs show_gaps_def simp del: next_loop.simps)
  then show ?thesis
    using gs assms num_breaks [OF assms(1,2)] Bare
    by (intro exI [of _ gs'] exI [of _ "l + gap_breaks g"] exI [of _ "make_token s QNone [] l"]) simp
next
  case (Ticked s)
  then show ?thesis
    using read_ticked [of s _ l "show_gaps gs @ r"] num_breaks [OF assms(1,2), of f l] assms(1,5)
    by (intro exI [of _ gs] exI [of _ "l + count_list s LF"] exI [of _ "make_token s QBacktick [] l"]) (simp del: next_loop.simps)
next
  case (Doubled s)
  then show ?thesis
    using read_doubled [of s _ l "show_gaps gs @ r"] num_breaks [OF assms(1,2), of f l] assms(1,5)
    by (intro exI [of _ gs] exI [of _ "l + count_list s LF"] exI [of _ "make_token s QDouble [] l"]) (simp del: next_loop.simps)
next
  case (Heredoc m pad ls)
  have "[] \<notin> set (padded pad ls @ pad @ m)" using wf_chars(1) [OF assms(2)] Heredoc by auto
  then show ?thesis
    using read_heredoc [OF assms(1) [unfolded Heredoc], of _ l "show_gaps gs @ r"] num_breaks [OF assms(1,2), of f l] assms(5) Heredoc
    by (intro exI [of _ gs] exI [of _ "l + 1 + length ls"] exI [of _ "make_token (join_with [LF] ls) QHeredoc (concat m) l"])
      (simp del: next_loop.simps show_word.simps)
qed

lemma lex_document:
  "document_ok d \<Longrightarrow> list_all wf_char (show_document d) \<Longrightarrow> list_all gap_ok gs0 \<Longrightarrow>
     lex_all f (at l) (show_gaps gs0 @ show_document d) = Inr (document_tokens f (l + sum_list (map gap_breaks gs0)) d)"
proof (induction d arbitrary: l gs0)
  case Nil
  have "next_token (at l) (show_gaps gs0 @ show_document []) = Inr (None, at (l + sum_list (map gap_breaks gs0)), [])"
    using skip_gaps [OF Nil.prems(3), of l l "[]"] by (simp add: next_token_def show_document_def)
  then show ?case by (simp add: lex_all.simps [of f "at l"])
next
  case (Cons wg d)
  obtain w gs where wg: "wg = (w, gs)" by (cases wg)
  let ?l = "l + sum_list (map gap_breaks gs0)"
  have ok: "word_ok w" "list_all wf_char (show_word w)" "gs \<noteq> []" "\<not> is_remark (hd gs)" "list_all gap_ok gs"
    "document_ok d" "list_all wf_char (show_document d)"
    using Cons.prems(1,2) by (simp_all add: wg document_ok_def show_document_def)
  obtain gs' l' t where r: "\<And>n. next_loop (scan_init n) (at ?l) (show_word w @ show_gaps gs @ show_document d) =
        Inr (Some t, at l', show_gaps gs' @ show_document d)"
      "t\<lparr>t_file := f\<rparr> = word_token f ?l w" "list_all gap_ok gs'"
      "l' + sum_list (map gap_breaks gs') = ?l + num_line_breaks (word_token f ?l w) + sum_list (map gap_breaks gs)"
    using read_word [OF ok(1-5), of ?l "show_document d" f] by blast
  have "next_token (at l) (show_gaps gs0 @ show_document (wg # d)) = Inr (Some t, at l', show_gaps gs' @ show_document d)"
    using skip_gaps [OF Cons.prems(3), of l l] r(1) by (simp add: next_token_def wg show_document_def del: next_loop.simps)
  then have "lex_all f (at l) (show_gaps gs0 @ show_document (wg # d)) =
      and_then (lex_all f (at l') (show_gaps gs' @ show_document d)) (\<lambda>ts. Inr (word_token f ?l w # ts))"
    using r(2) by (simp add: lex_all.simps [of f "at l"])
  then show ?case using Cons.IH [OF ok(6,7) r(3), of l'] r(4) by (simp add: wg)
qed

subsection \<open>Properties\<close>

lemma tokenize_chars:
  assumes "list_all wf_char cs" and "find_sub ''{$'' (concat cs) = None" and "cs = [] \<or> hd cs \<noteq> BOM"
  shows "tokenize env (concat cs) f = lex_all f (at 1) cs"
proof -
  have "replace_env_vars env (concat cs) = concat cs"
    using env_loop_pass [of env "[]" "concat cs"] assms(2) by (simp add: replace_env_vars_def env_pass.simps [of env "concat cs"])
  then show ?thesis
    using assms(1,3) wf_chars(3) [of cs] by (cases cs) (simp_all add: tokenize_def lexer_new_def Let_def)
qed

text \<open>C15. Reading a laid-out file gives back its words: with any blanks, line breaks and comments
  between them, each word, bare, in either kind of quotes or written as a heredoc, is one
  token with the word's text and the number of the line it starts on.\<close>

theorem document_roundtrip:
  assumes "document_ok d" and "list_all gap_ok gs" and "list_all wf_char (show_gaps gs @ show_document d)"
    and "find_sub ''{$'' (concat (show_gaps gs @ show_document d)) = None"
    and "hd (show_gaps gs @ show_document d) \<noteq> BOM"
  shows "tokenize env (concat (show_gaps gs @ show_document d)) f =
    Inr (document_tokens f (1 + sum_list (map gap_breaks gs)) d)"
  using tokenize_chars [OF assms(3,4)] lex_document [OF assms(1) _ assms(2), of f 1] assms(3,5) by simp

definition sample_document :: document where
  "sample_document = [(Bare [''a''], [Blank '' '']), (Doubled [''x'', LF, DQUOTE], [Break, Remark [''c''], Blank '' '']),
     (Heredoc [''E''] ['' ''] [[''q''], []], [Blank '' '']), (Ticked [''z''], [Break])]"

lemma sample_document_ok:
  "document_ok sample_document" "list_all wf_char (show_document sample_document)" "list_all gap_ok [Break, Blank '' '']"
  using whitespace_chars
  by (simp_all add: document_ok_def sample_document_def bare_char_def blank_def marker_last_def starts_with_def
      is_marker_char_def byte_val_def show_document_def show_gaps_def wf_char_def char_width_def
      graphic_not_whitespace graphic_def)

theorem document_roundtrip_witness:
  "tokenize (\<lambda>_. None) (concat (show_gaps [Break, Blank '' ''] @ show_document sample_document)) ''Caddyfile'' =
    Inr (document_tokens ''Caddyfile'' 2 sample_document)
   \<and> map t_line (document_tokens ''Caddyfile'' 2 sample_document) = [2, 2, 5, 8]"
proof
  let ?cs = "show_gaps [Break, Blank '' ''] @ show_document sample_document"
  have "list_all wf_char ?cs"
    using sample_document_ok(2) by (simp add: show_gaps_def wf_char_def char_width_def byte_val_def)
  moreover have "find_sub ''{$'' (concat ?cs) = None" "hd ?cs \<noteq> BOM"
    by (simp_all add: show_gaps_def show_document_def sample_document_def starts_with_def BOM_def)
  ultimately show "tokenize (\<lambda>_. None) (concat ?cs) ''Caddyfile'' = Inr (document_tokens ''Caddyfile'' 2 sample_document)"
    using document_roundtrip [OF sample_document_ok(1,3), of "\<lambda>_. None" "''Caddyfile''"] by (simp add: numeral_2_eq_2)
  show "map t_line (document_tokens ''Caddyfile'' 2 sample_document) = [2, 2, 5, 8]"
    by (simp add: sample_document_def num_line_breaks_def make_token_def)
qed

text \<open>Environment variables are substituted in one pass from left to right: an inserted value is
  never searched for further variables.\<close>

theorem env_single_pass: "replace_env_vars env s = env_pass env s"
  using env_loop_pass [of env "[]" s] by (simp add: replace_env_vars_def)

text \<open>Line numbers follow the file: they start at 1 and never decrease from token to token.\<close>

theorem token_lines_sorted:
  assumes "tokenize env input f = Inr ts"
  shows "sorted (map t_line ts) \<and> (\<forall>t \<in> set ts. 1 \<le> t_line t \<and> t_file t = f)"
  using assms lex_all_lines by (fastforce simp: tokenize_def lexer_new_def Let_def)

theorem token_lines_sorted_witness:
  "sorted (map t_line (document_tokens ''Caddyfile'' 2 sample_document))"
proof -
  have "list_all wf_char (show_gaps [Break, Blank '' ''] @ show_document sample_document)"
    using sample_document_ok(2) by (simp add: show_gaps_def wf_char_def char_width_def byte_val_def)
  then have "tokenize (\<lambda>_. None) (concat (show_gaps [Break, Blank '' ''] @ show_document sample_document)) ''Caddyfile'' =
      Inr (document_tokens ''Caddyfile'' 2 sample_document)"
    using lex_document [OF sample_document_ok, of "''Caddyfile''" 1]
    by (subst tokenize_chars) (simp_all add: show_gaps_def show_document_def sample_document_def starts_with_def BOM_def numeral_2_eq_2)
  then show ?thesis using token_lines_sorted by blast
qed

text \<open>C36. A heredoc without a line in it is not read at all: when the closing marker stands at the
  very start of the line after the opening, slicing the indentation runs out of range.\<close>

theorem empty_heredoc_panics:
  assumes "m \<noteq> []" and "list_all is_marker_char m"
  shows "tokenize env (''<<'' @ concat m @ LF @ concat m) f = Inl SlicePanic"
proof -
  let ?cs = "[''<'', ''<''] @ m @ LF # m"
  have c: "concat ?cs = ''<<'' @ concat m @ LF @ concat m" by simp
  have wf: "list_all wf_char m"
    using assms(2) marker_charE by (fastforce simp: list_all_iff wf_char_def char_width_def)
  have brace: "CHR ''{'' \<notin> set (concat m)"
    using assms(2) marker_charE not_marker_char(5) by (fastforce simp: list_all_iff)
  have none: "CHR ''{'' \<notin> set s \<Longrightarrow> find_sub ''{$'' s = None" for s
    by (induction s) (auto simp: starts_with_def)
  have "tokenize env (''<<'' @ concat m @ LF @ concat m) f = lex_all f (at 1) ?cs"
    unfolding c [symmetric] using wf brace
    by (intro tokenize_chars none) (auto simp: wf_char_def char_width_def byte_val_def BOM_def)
  moreover have "marker_last m []"
    using assms(1) by (cases m) (simp_all add: marker_last_def starts_with_def)
  moreover have "rposition LF m = None" using marker_chars(2) [OF assms(2)] by (induction m) (auto split: option.split)
  then have "finalize_heredoc m (concat m) 1 = Inl SlicePanic"
    using assms(1) marker_chars(1) [OF assms(2)] by (simp add: finalize_heredoc_def Let_def Suc_le_eq)
  ultimately show ?thesis
    using heredoc_run [OF assms, of "[]" "[]" m 1 1 "[]"] heredoc_opens [OF assms, of 1 1 m] assms(1) wf_chars(1) [OF wf]
    by (simp add: lex_all.simps [of f "at (Suc 0)"] next_token_def del: next_loop.simps)
qed

theorem empty_heredoc_panics_witness:
  "tokenize (\<lambda>_. None) (''<<END'' @ LF @ ''END'') ''Caddyfile'' = Inl SlicePanic"
  using empty_heredoc_panics [of "[''E'', ''N'', ''D'']" "\<lambda>_. None" "''Caddyfile''"]
  by (simp add: is_marker_char_def byte_val_def)

text \<open>A backslash in a comment hides the end of the comment's line: the words of the next line
  count as words of the line with the comment.\<close>

theorem comment_joins_lines:
  "tokenize env (''a # C:'' @ BACKSLASH @ ''d'' @ LF @ ''b'') f =
    Inr [word_token f 1 (Bare [''a'']), word_token f 1 (Bare [''b''])]"
proof -
  let ?cs = "[''a'', '' '', ''#'', '' '', ''C'', '':'', BACKSLASH, ''d'', LF, ''b'']"
  have nows: "\<not> is_whitespace ''a''" "\<not> is_whitespace ''C''" "\<not> is_whitespace '':''" "\<not> is_whitespace ''d''" "\<not> is_whitespace ''b''"
    by (simp_all add: graphic_not_whitespace graphic_def byte_val_def)
  have "tokenize env (concat ?cs) f = lex_all f (at 1) ?cs"
    by (intro tokenize_chars) (simp_all add: wf_char_def char_width_def byte_val_def starts_with_def BOM_def)
  moreover have "lex_all f (at 1) ?cs = Inr [word_token f 1 (Bare [''a'']), word_token f 1 (Bare [''b''])]"
    using nows whitespace_chars
    by (simp add: lex_all.simps next_token_def scan_char_def space_char_def word_char_def emit_def scan_init_def make_token_def)
  ultimately show ?thesis by simp
qed

end
