(* ===== verification/Caddy_Parser.thy ===== *)
theory Caddy_Parser
  imports Caddy_Dispenser Caddy_Import Caddy_Layout
begin

text \<open>
  The top level of the Caddyfile parser, \<open>caddyfile/parser.rs\<close>: server blocks with their address
  keys, the form with and the form without braces, named routes and snippets, each block's
  interior grouped into segments by the grammar.
\<close>

record server_block =
  sb_keys :: "token list"
  sb_segments :: "token list list"
  sb_has_braces :: bool
  sb_is_named_route :: bool

definition server_block_default :: server_block where
  "server_block_default = \<lparr>sb_keys = [], sb_segments = [], sb_has_braces = False, sb_is_named_route = False\<rparr>"

definition keys_text :: "server_block \<Rightarrow> string list" where
  "keys_text b = map t_text (sb_keys b)"

definition is_snippet :: "token list \<Rightarrow> string option" where
  "is_snippet keys =
     (case keys of
        [k] \<Rightarrow> if starts_with (t_text k) ''('' \<and> ends_with (t_text k) '')'' then Some (butlast (tl (t_text k))) else None
      | _ \<Rightarrow> None)"

definition is_named_route :: "token list \<Rightarrow> string option" where
  "is_named_route keys =
     (case keys of
        [k] \<Rightarrow> if starts_with (t_text k) ''&('' \<and> ends_with (t_text k) '')'' then Some (butlast (drop 2 (t_text k))) else None
      | _ \<Rightarrow> None)"

lemma d_next_ahead: "d_next d = (True, d') \<Longrightarrow> ahead d' < ahead d"
  by (auto simp: d_next_def ahead_def split: if_splits)

subsection \<open>Addresses\<close>

text \<open>One key: the block with the key added and whether another one has to follow.\<close>

definition address_key :: "bool \<Rightarrow> token \<Rightarrow> string \<Rightarrow> server_block \<Rightarrow> caddy_error + bool \<times> server_block" where
  "address_key expecting_another tok value0 b =
     (if value0 = [] then Inr (expecting_another, b)
      else
        (let comma = ends_with value0 '',''; value = (if comma then butlast value0 else value0)
         in if CHR '','' \<in> set value then Inl (AddressComma value)
            else Inr (comma, if value \<noteq> [] then b\<lparr>sb_keys := sb_keys b @ [tok\<lparr>t_text := value\<rparr>]\<rparr> else b)))"

function addresses :: "bool \<Rightarrow> server_block \<Rightarrow> dispenser \<Rightarrow> caddy_error + bool \<times> server_block \<times> dispenser" where
  "addresses expecting_another b d =
     (let value = val d
      in if starts_with value ''@'' then Inl (MatcherOutsideSite value)
         else if value = ''{'' then
           (if expecting_another then Inl (ExtraComma value) else Inr (False, b\<lparr>sb_has_braces := True\<rparr>, d))
         else if ends_with value ''{'' then Inl (AddressBrace value)
         else
           (case address_key expecting_another (d_token d) value b of
              Inl e \<Rightarrow> Inl e
            | Inr (expecting, b') \<Rightarrow>
                (case d_next d of
                   (False, d') \<Rightarrow> if expecting then Inl (eof_err d') else Inr (True, b', d')
                 | (True, d') \<Rightarrow> if \<not> expecting \<and> is_new_line d' then Inr (False, b', d') else addresses expecting b' d')))"
  by pat_completeness auto
termination by (relation "measure (\<lambda>(e, b, d). ahead d)") (auto dest: d_next_ahead [OF sym])

declare addresses.simps [simp del]

subsection \<open>Blocks\<close>

function block_loop :: "bool \<Rightarrow> int \<Rightarrow> token list \<Rightarrow> dispenser \<Rightarrow> int \<times> token list \<times> dispenser" where
  "block_loop retain_curlies nesting tokens d =
     (case d_next d of
        (False, d') \<Rightarrow> (nesting, tokens, d')
      | (True, d') \<Rightarrow>
          (let nesting1 = (if val d' = ''}'' then nesting - 1 else nesting)
           in if val d' = ''}'' \<and> nesting1 = 0 then
                (nesting1, if retain_curlies then tokens @ [d_token d'] else tokens, d')
              else
                (let nesting2 = (if val d' = ''{'' then nesting1 + 1 else nesting1)
                 in block_loop retain_curlies nesting2 (tokens @ [d_token d']) d')))"
  by pat_completeness auto
termination by (relation "measure (\<lambda>(r, n, ts, d). ahead d)") (auto dest: d_next_ahead [OF sym])

declare block_loop.simps [simp del]

definition block_tokens :: "bool \<Rightarrow> dispenser \<Rightarrow> caddy_error + token list \<times> dispenser" where
  "block_tokens retain_curlies d =
     (if val d \<noteq> ''{'' then Inl (syntax_err ''{'' d)
      else
        (case block_loop retain_curlies 1 (if retain_curlies then [d_token d] else []) d of
           (nesting, tokens, d') \<Rightarrow> if nesting \<noteq> 0 then Inl (syntax_err ''}'' d') else Inr (tokens, d')))"

function collect_to_eof :: "dispenser \<Rightarrow> token list \<times> dispenser" where
  "collect_to_eof d =
     (case d_next d of
        (False, d') \<Rightarrow> ([], d')
      | (True, d') \<Rightarrow> (case collect_to_eof d' of (ts, d'') \<Rightarrow> (d_token d' # ts, d'')))"
  by pat_completeness auto
termination by (relation "measure ahead") (auto dest: d_next_ahead [OF sym])

declare collect_to_eof.simps [simp del]

definition collect_to_eof_including_current :: "dispenser \<Rightarrow> token list \<times> dispenser" where
  "collect_to_eof_including_current d = (case collect_to_eof d of (ts, d') \<Rightarrow> (d_token d # ts, d'))"

definition segments_of :: "token list \<Rightarrow> caddy_error + token list list" where
  "segments_of interior = (case parse_segments interior of None \<Rightarrow> Inl GrammarError | Some s \<Rightarrow> Inr s)"

definition block_contents :: "server_block \<Rightarrow> dispenser \<Rightarrow> caddy_error + server_block \<times> dispenser" where
  "block_contents b d =
     and_then (if val d = ''{'' then block_tokens False d else Inr (collect_to_eof_including_current d)) (\<lambda>(interior, d').
     and_then (segments_of interior) (\<lambda>segments. Inr (b\<lparr>sb_segments := segments\<rparr>, d')))"

definition begin_block :: "dispenser \<Rightarrow> caddy_error + server_block option \<times> dispenser" where
  "begin_block d =
     and_then (addresses False server_block_default d) (\<lambda>(eof, b, d1).
       if eof then Inr (Some b, d1)
       else case is_named_route (sb_keys b) of
         Some name \<Rightarrow>
           and_then (block_tokens False d1) (\<lambda>(interior, d2).
           and_then (segments_of interior) (\<lambda>segments.
             Inr (Some (b\<lparr>sb_keys := [(d_token d1)\<lparr>t_text := name\<rparr>], sb_is_named_route := True, sb_segments := segments\<rparr>), d2)))
       | None \<Rightarrow>
           (case is_snippet (sb_keys b) of
              Some _ \<Rightarrow> and_then (block_tokens False d1) (\<lambda>(_, d2). Inr (None, d2))
            | None \<Rightarrow> and_then (block_contents b d1) (\<lambda>(b', d2). Inr (Some b', d2))))"

subsection \<open>The cursor only moves forward\<close>

definition later :: "dispenser \<Rightarrow> dispenser \<Rightarrow> bool" where
  "later d d' \<longleftrightarrow> d_tokens d' = d_tokens d \<and> d_cursor d \<le> d_cursor d'"

lemma later_refl [simp]: "later d d" by (simp add: later_def)

lemma later_trans: "later d d' \<Longrightarrow> later d' d'' \<Longrightarrow> later d d''" by (simp add: later_def)

lemma later_next: "d_next d = (r, d') \<Longrightarrow> later d d'"
  by (auto simp: d_next_def later_def split: if_splits)

lemma addresses_later: "addresses e b d = Inr (eof, b', d') \<Longrightarrow> later d d'"
proof (induction e b d rule: addresses.induct)
  case (1 e b d)
  obtain r d1 where n: "d_next d = (r, d1)" by fastforce
  have l: "later d d1" using later_next [OF n] .
  show ?case
    using "1.prems" l n "1.IH" [OF refl, of _ _ _ r d1]
    by (subst (asm) addresses.simps) (auto simp: Let_def split: if_splits sum.splits bool.splits intro: later_trans [OF l])
qed

lemma block_loop_later: "block_loop rc n ts d = (m, us, d') \<Longrightarrow> later d d'"
proof (induction rc n ts d rule: block_loop.induct)
  case (1 rc n ts d)
  obtain r d1 where n: "d_next d = (r, d1)" by fastforce
  have l: "later d d1" using later_next [OF n] .
  show ?case
    using "1.prems" l n "1.IH" [of r d1]
    by (subst (asm) block_loop.simps) (auto simp: Let_def split: if_splits bool.splits intro: later_trans [OF l])
qed

lemma block_tokens_later: "block_tokens rc d = Inr (ts, d') \<Longrightarrow> later d d'"
  by (auto simp: block_tokens_def split: if_splits prod.splits dest: block_loop_later)

lemma collect_later: "collect_to_eof d = (ts, d') \<Longrightarrow> later d d'"
proof (induction d arbitrary: ts rule: collect_to_eof.induct)
  case (1 d)
  obtain r d1 where n: "d_next d = (r, d1)" by fastforce
  have l: "later d d1" using later_next [OF n] .
  show ?case
    using "1.prems" l n "1.IH" [of r d1]
    by (subst (asm) collect_to_eof.simps) (auto split: bool.splits prod.splits intro: later_trans [OF l])
qed

lemma block_contents_later: "block_contents b d = Inr (b', d') \<Longrightarrow> later d d'"
  by (auto simp: block_contents_def and_then_Inr collect_to_eof_including_current_def split: if_splits prod.splits
      dest: block_tokens_later collect_later)

lemma begin_block_later: "begin_block d = Inr (b, d') \<Longrightarrow> later d d'"
  by (fastforce simp: begin_block_def and_then_Inr split: if_splits option.splits
      dest: addresses_later block_tokens_later block_contents_later intro: later_trans)

lemma begin_block_ahead: "d_next d = (True, d1) \<Longrightarrow> begin_block d1 = Inr (b, d2) \<Longrightarrow> ahead d2 < ahead d"
proof -
  assume n: "d_next d = (True, d1)" and b: "begin_block d1 = Inr (b, d2)"
  have "ahead d2 \<le> ahead d1" using begin_block_later [OF b] by (auto simp: later_def ahead_def d_len_def)
  then show ?thesis using d_next_ahead [OF n] by simp
qed

subsection \<open>The file\<close>

function parse_all :: "dispenser \<Rightarrow> caddy_error + server_block list" where
  "parse_all d =
     (case d_next d of
        (False, _) \<Rightarrow> Inr []
      | (True, d1) \<Rightarrow>
          (case begin_block d1 of
             Inl e \<Rightarrow> Inl e
           | Inr (r, d2) \<Rightarrow>
               and_then (parse_all d2) (\<lambda>blocks.
                 Inr (case r of
                        Some b \<Rightarrow> if sb_keys b \<noteq> [] \<or> sb_segments b \<noteq> [] then b # blocks else blocks
                      | None \<Rightarrow> blocks))))"
  by pat_completeness auto
termination by (relation "measure ahead") (auto dest: begin_block_ahead [OF sym])

declare parse_all.simps [simp del]

definition parse :: "file_system \<Rightarrow> (string \<Rightarrow> string option) \<Rightarrow> string \<Rightarrow> string \<Rightarrow> caddy_error + server_block list" where
  "parse fs env filename input =
     and_then (tokenize env input filename) (\<lambda>tokens.
     and_then (expand fs env tokens filename) (\<lambda>tokens'.
       parse_all (dispenser_new tokens')))"

subsection \<open>Sites as written\<close>

definition key_ok :: "token \<Rightarrow> bool" where
  "key_ok k \<longleftrightarrow> t_text k \<noteq> [] \<and> CHR '','' \<notin> set (t_text k) \<and> \<not> ends_with (t_text k) ''{'' \<and> \<not> starts_with (t_text k) ''@''"

fun key_tokens :: "token list \<Rightarrow> token list" where
  "key_tokens [] = []"
| "key_tokens [k] = [k]"
| "key_tokens (k # ks) = k\<lparr>t_text := t_text k @ '',''\<rparr> # key_tokens ks"

lemma length_key_tokens [simp]: "length (key_tokens ks) = length ks"
  by (induction ks rule: key_tokens.induct) auto

lemma ends_with_snoc: "ends_with (s @ [c]) [d] \<longleftrightarrow> c = d"
  by (simp add: ends_with_def)

lemma ends_with_in: "ends_with s [d] \<Longrightarrow> d \<in> set s"
  by (cases s rule: rev_cases) (auto simp: ends_with_def)

lemma address_key_last: "key_ok k \<Longrightarrow> address_key e k (t_text k) b = Inr (False, b\<lparr>sb_keys := sb_keys b @ [k]\<rparr>)"
  using ends_with_in [of "t_text k" "CHR '',''"] by (auto simp: address_key_def key_ok_def Let_def)

lemma address_key_comma:
  "key_ok k \<Longrightarrow> address_key e (k\<lparr>t_text := t_text k @ '',''\<rparr>) (t_text k @ '','') b = Inr (True, b\<lparr>sb_keys := sb_keys b @ [k]\<rparr>)"
  by (simp add: address_key_def key_ok_def Let_def ends_with_snoc)

lemma next_at: "d_tokens d = pre @ x # y # r \<Longrightarrow> d_cursor d = int (length pre) \<Longrightarrow> d_next d = (True, cursor_at (Suc (length pre)) d)"
  by (simp add: d_next_def d_len_def)

lemma addresses_brace:
  "d_tokens d = pre @ ob # r \<Longrightarrow> d_cursor d = int (length pre) \<Longrightarrow> t_text ob = ''{'' \<Longrightarrow>
     addresses False b d = Inr (False, b\<lparr>sb_has_braces := True\<rparr>, d)"
  using val_at [of d pre ob r] by (simp add: addresses.simps [of False b d] starts_with_def)

lemma addresses_keys:
  assumes "t_text ob = ''{''"
  shows "ks \<noteq> [] \<Longrightarrow> \<forall>k \<in> set ks. key_ok k \<Longrightarrow> \<not> is_next_on_new_line (last ks) ob \<Longrightarrow>
    d_tokens d = pre @ key_tokens ks @ ob # r \<Longrightarrow> d_cursor d = int (length pre) \<Longrightarrow>
    addresses e b d = Inr (False, b\<lparr>sb_keys := sb_keys b @ ks, sb_has_braces := True\<rparr>, cursor_at (length pre + length ks) d)"
proof (induction ks arbitrary: e b d pre rule: key_tokens.induct)
  case (2 k)
  let ?d = "cursor_at (Suc (length pre)) d" and ?b = "b\<lparr>sb_keys := sb_keys b @ [k]\<rparr>"
  have v: "val d = t_text k" "d_token d = k" using val_at [of d pre k "ob # r"] "2.prems"(4,5) by simp_all
  have nl: "\<not> is_new_line ?d"
    using "2.prems"(3,4) by (simp add: is_new_line_def d_len_def nth_append nat_add_distrib)
  have "addresses False ?b ?d = Inr (False, ?b\<lparr>sb_has_braces := True\<rparr>, ?d)"
    using addresses_brace [of ?d "pre @ [k]" ob r ?b] "2.prems"(4) assms by simp
  moreover have "t_text k \<noteq> ''{''" "\<not> ends_with (t_text k) ''{''" "\<not> starts_with (t_text k) ''@''"
    using "2.prems"(2) by (auto simp: key_ok_def ends_with_def)
  ultimately show ?case
    using next_at [of d pre k ob r] v nl address_key_last [of k e b] "2.prems" by (simp add: addresses.simps [of e b d] Let_def)
next
  case (3 k k2 ks)
  let ?d = "cursor_at (Suc (length pre)) d" and ?b = "b\<lparr>sb_keys := sb_keys b @ [k]\<rparr>"
  let ?k = "k\<lparr>t_text := t_text k @ '',''\<rparr>"
  obtain x y where xy: "key_tokens (k2 # ks) = x # y" by (cases "key_tokens (k2 # ks)") (auto simp flip: length_0_conv)
  have v: "val d = t_text k @ '',''" "d_token d = ?k"
    using val_at [of d pre ?k "key_tokens (k2 # ks) @ ob # r"] "3.prems"(4,5) by simp_all
  have nx: "d_next d = (True, ?d)" using next_at [of d pre ?k x "y @ ob # r"] "3.prems"(4,5) xy by simp
  have IH: "addresses True ?b ?d = Inr (False, ?b\<lparr>sb_keys := sb_keys ?b @ k2 # ks, sb_has_braces := True\<rparr>,
      cursor_at (length (pre @ [?k]) + length (k2 # ks)) ?d)"
    using "3.IH" [of ?d "pre @ [?k]" True ?b] "3.prems" by simp
  have "key_ok k" using "3.prems"(2) by simp
  moreover from this have "\<not> starts_with (t_text k @ '','') ''@''" by (cases "t_text k") (auto simp: key_ok_def starts_with_def)
  moreover have "t_text k @ '','' \<noteq> ''{''" "\<not> ends_with (t_text k @ '','') ''{''" by (auto simp: ends_with_snoc)
  ultimately show ?case
    using v nx IH address_key_comma [of k e b] by (simp add: addresses.simps [of e b d] Let_def)
qed simp

lemma block_loop_walk:
  "depth i k = Some 0 \<Longrightarrow> d_tokens d = pre @ p # i @ cb # r \<Longrightarrow> d_cursor d = int (length pre) \<Longrightarrow> t_text cb = ''}'' \<Longrightarrow>
     block_loop False (int k + 1) acc d = (0, acc @ i, cursor_at (length pre + Suc (length i)) d)"
proof (induction i arbitrary: k d pre p acc)
  case Nil
  let ?d = "cursor_at (Suc (length pre)) d"
  have "val ?d = ''}''" using val_at [of ?d "pre @ [p]" cb r] Nil.prems by simp
  then show ?case using next_at [of d pre p cb r] Nil.prems by (simp add: block_loop.simps [of False _ acc d] Let_def)
next
  case (Cons t i)
  let ?d = "cursor_at (Suc (length pre)) d"
  have v: "val ?d = t_text t" "d_token ?d = t" using val_at [of ?d "pre @ [p]" t "i @ cb # r"] Cons.prems(2) by simp_all
  have nx: "d_next d = (True, ?d)" using next_at [of d pre p t "i @ cb # r"] Cons.prems(2,3) by simp
  have IH: "depth i k' = Some 0 \<Longrightarrow> block_loop False (int k' + 1) (acc @ [t]) ?d =
      (0, (acc @ [t]) @ i, cursor_at (length (pre @ [p]) + Suc (length i)) ?d)" for k'
    using Cons.IH [of k' ?d "pre @ [p]" t "acc @ [t]"] Cons.prems(2,4) by simp
  consider "t_text t = ''{''" "depth i (Suc k) = Some 0" | "t_text t = ''}''" "\<exists>k'. k = Suc k' \<and> depth i k' = Some 0"
    | "t_text t \<noteq> ''{''" "t_text t \<noteq> ''}''" "depth i k = Some 0"
    using Cons.prems(1) by (auto split: if_splits nat.splits)
  then show ?case
    using v nx IH [of "Suc k"] IH [of "k - 1"] IH [of k]
    by cases (auto simp: block_loop.simps [of False _ acc d] Let_def ac_simps)
qed

text \<open>A site as written: its keys, the opening brace, the interior and the closing brace.\<close>

record written_site =
  st_keys :: "token list"
  st_open :: token
  st_interior :: "token list"
  st_close :: token

definition site_tokens :: "written_site \<Rightarrow> token list" where
  "site_tokens s = key_tokens (st_keys s) @ st_open s # st_interior s @ [st_close s]"

definition site_segments :: "written_site \<Rightarrow> token list list" where
  "site_segments s = (case parse_segments (st_interior s) of None \<Rightarrow> [] | Some v \<Rightarrow> v)"

definition site_block :: "written_site \<Rightarrow> server_block" where
  "site_block s = \<lparr>sb_keys = st_keys s, sb_segments = site_segments s, sb_has_braces = True, sb_is_named_route = False\<rparr>"

definition site_ok :: "written_site \<Rightarrow> bool" where
  "site_ok s \<longleftrightarrow> (\<forall>k \<in> set (st_keys s). key_ok k) \<and> is_snippet (st_keys s) = None \<and> is_named_route (st_keys s) = None \<and>
     t_text (st_open s) = ''{'' \<and> t_text (st_close s) = ''}'' \<and> depth (st_interior s) 0 = Some 0 \<and>
     parse_segments (st_interior s) \<noteq> None \<and> (st_keys s = [] \<or> \<not> is_next_on_new_line (last (st_keys s)) (st_open s)) \<and>
     (st_keys s \<noteq> [] \<or> st_interior s \<noteq> [])"

lemma segments_nonempty: "parse_segments i = Some v \<Longrightarrow> i \<noteq> [] \<Longrightarrow> v \<noteq> []"
  using parsed_tokens stream_tokens by (fastforce simp: parse_segments_stream)

lemma begin_site:
  assumes ok: "site_ok s" and d: "d_tokens d = pre @ site_tokens s @ r" and c: "d_cursor d = int (length pre)"
  shows "begin_block d = Inr (Some (site_block s), cursor_at (length pre + length (site_tokens s) - 1) d)"
proof -
  let ?d = "cursor_at (length pre + length (st_keys s)) d"
  let ?b = "server_block_default\<lparr>sb_keys := st_keys s, sb_has_braces := True\<rparr>"
  have ob: "t_text (st_open s) = ''{''" using ok by (simp add: site_ok_def)
  have a: "addresses False server_block_default d = Inr (False, ?b, ?d)"
  proof (cases "st_keys s = []")
    case True
    then show ?thesis
      using addresses_brace [of d pre "st_open s" "st_interior s @ st_close s # r"] d c ob
      by (simp add: site_tokens_def server_block_default_def)
  next
    case False
    then show ?thesis
      using addresses_keys [OF ob False, of d pre "st_interior s @ st_close s # r" False server_block_default] ok d c
      by (simp add: site_ok_def site_tokens_def server_block_default_def)
  qed
  have toks: "d_tokens ?d = (pre @ key_tokens (st_keys s)) @ st_open s # st_interior s @ st_close s # r"
    using d by (simp add: site_tokens_def)
  have v: "val ?d = ''{''" using val_at [OF toks] ob by simp
  have "block_loop False 1 [] ?d = (0, st_interior s, cursor_at (length pre + length (st_keys s) + Suc (length (st_interior s))) ?d)"
    using block_loop_walk [of "st_interior s" 0 ?d "pre @ key_tokens (st_keys s)" "st_open s" "st_close s" r "[]"] toks ok
    by (simp add: site_ok_def)
  then have "block_tokens False ?d = Inr (st_interior s, cursor_at (length pre + length (site_tokens s) - 1) d)"
    using v by (simp add: block_tokens_def site_tokens_def)
  moreover obtain segs where "parse_segments (st_interior s) = Some segs" using ok by (auto simp: site_ok_def)
  ultimately have "block_contents ?b ?d = Inr (site_block s, cursor_at (length pre + length (site_tokens s) - 1) d)"
    using v by (simp add: block_contents_def segments_of_def site_block_def site_segments_def server_block_default_def)
  then show ?thesis using a ok by (simp add: begin_block_def site_ok_def server_block_default_def)
qed

lemma parse_sites:
  "\<forall>s \<in> set ss. site_ok s \<Longrightarrow> d_tokens d = pre @ concat (map site_tokens ss) \<Longrightarrow> d_cursor d = int (length pre) - 1 \<Longrightarrow>
     parse_all d = Inr (map site_block ss)"
proof (induction ss arbitrary: d pre)
  case Nil
  then show ?case by (simp add: parse_all.simps [of d] d_next_def d_len_def)
next
  case (Cons s ss)
  let ?d = "cursor_at (length pre) d" and ?e = "cursor_at (length pre + length (site_tokens s) - 1) d"
  have nx: "d_next d = (True, ?d)"
    using Cons.prems(2,3) by (simp add: d_next_def d_len_def site_tokens_def)
  have "begin_block ?d = Inr (Some (site_block s), cursor_at (length pre + length (site_tokens s) - 1) ?d)"
    using begin_site [of s ?d pre "concat (map site_tokens ss)"] Cons.prems(1,2) by simp
  moreover have "parse_all ?e = Inr (map site_block ss)"
    using Cons.IH [of ?e "pre @ site_tokens s"] Cons.prems(1,2) by (simp add: of_nat_diff site_tokens_def)
  moreover have "sb_keys (site_block s) \<noteq> [] \<or> sb_segments (site_block s) \<noteq> []"
    using Cons.prems(1) segments_nonempty by (auto simp: site_block_def site_segments_def site_ok_def)
  ultimately show ?case using nx by (simp add: parse_all.simps [of d])
qed

subsection \<open>Properties\<close>

text \<open>C3. A file of sites is read as these sites: when the words of a laid-out file are the keys, braces
  and directives of a list of sites, with no snippet and no import among them, parsing gives
  exactly one server block per site, in order, with its keys and the segments of its interior.\<close>

theorem parse_sites_document:
  assumes "document_ok d" and "list_all gap_ok gs" and "list_all wf_char (show_gaps gs @ show_document d)"
    and "find_sub ''{$'' (concat (show_gaps gs @ show_document d)) = None"
    and "hd (show_gaps gs @ show_document d) \<noteq> BOM"
    and "document_tokens f (1 + sum_list (map gap_breaks gs)) d = concat (map site_tokens ss)"
    and "\<forall>s \<in> set ss. site_ok s"
    and "\<forall>t \<in> set (concat (map site_tokens ss)). \<not> is_paren_name (t_text t) \<and> t_text t \<noteq> ''import''"
  shows "parse fs env f (concat (show_gaps gs @ show_document d)) = Inr (map site_block ss)"
proof -
  have "tokenize env (concat (show_gaps gs @ show_document d)) f = Inr (concat (map site_tokens ss))"
    using tokenize_chars [OF assms(3,4)] lex_document [OF assms(1) _ assms(2), of f 1] assms(3,5,6) by simp
  moreover have "expand fs env (concat (map site_tokens ss)) f = Inr (concat (map site_tokens ss))"
    using assms(8) by (rule expand_plain)
  moreover have "parse_all (dispenser_new (concat (map site_tokens ss))) = Inr (map site_block ss)"
    using parse_sites [of ss "dispenser_new (concat (map site_tokens ss))" "[]"] assms(7) by (simp add: dispenser_new_def)
  ultimately show ?thesis by (simp add: parse_def)
qed

definition sample_file :: document where
  "sample_file = [(Bare [''a'', '',''], [Blank '' '']), (Bare [''b''], [Blank '' '']), (Bare [''{''], [Break, Blank '' '']),
     (Bare [''r'', ''s''], [Blank '' '']), (Doubled [''h'', ''i''], [Break]), (Bare [''}''], [Break, Remark [''x'']])]"

definition sample_site :: written_site where
  "sample_site = (let w = (\<lambda>l s. word_token ''Caddyfile'' l (Bare s)) in
     \<lparr>st_keys = [w 1 [''a''], w 1 [''b'']], st_open = w 1 [''{''],
      st_interior = [w 2 [''r'', ''s''], word_token ''Caddyfile'' 2 (Doubled [''h'', ''i''])], st_close = w 3 [''}'']\<rparr>)"

lemma sample_file_ok: "document_ok sample_file" "list_all wf_char (show_document sample_file)"
  "find_sub ''{$'' (concat (show_document sample_file)) = None" "hd (show_document sample_file) \<noteq> BOM"
  using whitespace_chars
  by (simp_all add: document_ok_def sample_file_def bare_char_def blank_def starts_with_def byte_val_def show_document_def
      show_gaps_def wf_char_def char_width_def graphic_not_whitespace graphic_def BOM_def)

lemma sample_file_tokens: "document_tokens ''Caddyfile'' 1 sample_file = concat (map site_tokens [sample_site])"
  by (simp add: sample_file_def sample_site_def site_tokens_def make_token_def num_line_breaks_def Let_def)

lemma sample_site_ok: "site_ok sample_site"
  by (simp add: site_ok_def sample_site_def Let_def key_ok_def make_token_def ends_with_def starts_with_def is_snippet_def
      is_named_route_def is_next_on_new_line_def num_line_breaks_def parse_segments_def to_spanned_def terminal_def)

theorem parse_sites_document_witness:
  "parse \<lparr>fs_read_dir = \<lambda>_. None, fs_is_file = \<lambda>_. False, fs_canonicalize = \<lambda>_. None, fs_read = \<lambda>_. None\<rparr> (\<lambda>_. None)
     ''Caddyfile'' (concat (show_document sample_file)) = Inr [site_block sample_site]"
proof -
  have "\<forall>t \<in> set (concat (map site_tokens [sample_site])). \<not> is_paren_name (t_text t) \<and> t_text t \<noteq> ''import''"
    by (simp add: sample_site_def site_tokens_def make_token_def Let_def is_paren_name_def starts_with_def)
  then show ?thesis
    using parse_sites_document [OF sample_file_ok(1), of "[]" "''Caddyfile''" "[sample_site]"
        "\<lparr>fs_read_dir = \<lambda>_. None, fs_is_file = \<lambda>_. False, fs_canonicalize = \<lambda>_. None, fs_read = \<lambda>_. None\<rparr>" "\<lambda>_. None"]
      sample_file_ok sample_file_tokens sample_site_ok by (simp add: show_gaps_def)
qed

end
