(* ===== verification/Caddy_Address.thy ===== *)
theory Caddy_Address
  imports Caddy_Lexer
begin

text \<open>
  Site addresses, \<open>caddyfile/address.rs\<close>: scheme, host, port and path of a key of a server block,
  the canonical form of an address, and the specificity by which sites are sorted.
\<close>

record address =
  ad_original :: string
  ad_scheme :: string
  ad_host :: string
  ad_port :: string
  ad_path :: string

datatype address_error =
    PortRange int
  | InvalidPort string
  | SchemeWss
  | SchemeWs
  | SchemeUnsupported string
  | AddressSlicePanic

definition DEFAULT_HTTP_PORT :: string where "DEFAULT_HTTP_PORT = ''80''"

definition DEFAULT_HTTPS_PORT :: string where "DEFAULT_HTTPS_PORT = ''443''"

definition MAX_LEN :: nat where "MAX_LEN = 4096"

definition split_host_port :: "string \<Rightarrow> string \<times> string" where
  "split_host_port s =
     (if s = [] then ([], [])
      else case strip_prefix s ''['' of
        Some rest \<Rightarrow>
          (case find_sub '']'' rest of
             Some close \<Rightarrow>
               (case strip_prefix (drop (close + 1) rest) '':'' of
                  Some port \<Rightarrow> (take close rest, port)
                | None \<Rightarrow> (take close rest, []))
           | None \<Rightarrow> (s, []))
      | None \<Rightarrow>
          (case (find_sub '':'' s, rposition (CHR '':'') s) of
             (Some i, Some j) \<Rightarrow> if i = j then (take i s, drop (i + 1) s) else (s, [])
           | _ \<Rightarrow> (s, [])))"

definition check_port :: "string \<Rightarrow> address_error + unit" where
  "check_port port =
     (if port = [] then Inr ()
      else case parse_i64 port of
        Some n \<Rightarrow> if 0 \<le> n \<and> n \<le> 65535 then Inr () else Inl (PortRange n)
      | None \<Rightarrow> Inl (InvalidPort port))"

definition check_scheme :: "string \<Rightarrow> address_error + unit" where
  "check_scheme scheme =
     (if scheme = [] \<or> scheme = ''http'' \<or> scheme = ''https'' then Inr ()
      else if scheme = ''wss'' then Inl SchemeWss
      else if scheme = ''ws'' then Inl SchemeWs
      else Inl (SchemeUnsupported scheme))"

definition address_parse :: "string \<Rightarrow> address_error + address" where
  "address_parse s =
     (if length s > MAX_LEN \<and> \<not> is_char_boundary s MAX_LEN then Inl AddressSlicePanic
      else
        (let remaining = str_trim (if length s > MAX_LEN then take MAX_LEN s else s);
             (scheme, rest) = (case split_once_str ''://'' remaining of Some (sc, after) \<Rightarrow> (sc, after) | None \<Rightarrow> ([], remaining));
             (hostport, path) = (case split_once (CHR ''/'') rest of Some (hp, p) \<Rightarrow> (hp, CHR ''/'' # p) | None \<Rightarrow> (rest, []));
             (host, port) = split_host_port hostport
         in and_then (check_port port) (\<lambda>_.
            and_then (check_scheme scheme) (\<lambda>_.
              Inr \<lparr>ad_original = remaining, ad_scheme = scheme, ad_host = host, ad_port = port, ad_path = path\<rparr>))))"

definition join_host_port :: "string \<Rightarrow> string \<Rightarrow> string" where
  "join_host_port host port =
     (if CHR '':'' \<in> set host then ''['' @ host @ '']:'' @ port else host @ '':'' @ port)"

definition to_address_string :: "address \<Rightarrow> string" where
  "to_address_string a =
     (if ad_host a = [] \<and> ad_port a = [] then []
      else
        (let scheme = (if ad_scheme a \<noteq> [] then ad_scheme a
                       else if ad_port a = DEFAULT_HTTPS_PORT then ''https'' else ''http'');
             nonstandard = (scheme = ''https'' \<and> ad_port a \<noteq> DEFAULT_HTTPS_PORT) \<or> (scheme = ''http'' \<and> ad_port a \<noteq> DEFAULT_HTTP_PORT)
         in scheme @ ''://'' @ (if ad_port a \<noteq> [] \<and> nonstandard then join_host_port (ad_host a) (ad_port a) else ad_host a) @ ad_path a))"

function specificity_loop :: "int \<Rightarrow> string \<Rightarrow> int" where
  "specificity_loop l s =
     (if s = [] then l
      else case find_sub ''{'' s of
        None \<Rightarrow> l
      | Some start \<Rightarrow>
          (case find_sub ''}'' (drop start s) of
             None \<Rightarrow> l
           | Some end_rel \<Rightarrow>
               (let end' = end_rel + start + 1
                in specificity_loop (l - int (end' - start)) (drop end' s))))"
  by pat_completeness auto
termination by (relation "measure (\<lambda>(l, s). length s)") auto

declare specificity_loop.simps [simp del]

definition specificity :: "string \<Rightarrow> int" where
  "specificity s = specificity_loop (int (length s) - int (count_list s (CHR ''*''))) s"

subsection \<open>Hosts and ports\<close>

lemma find_sub_single: "find_sub [c] s = None \<longleftrightarrow> c \<notin> set s"
  by (induction s) (auto simp: starts_with_def)

lemma find_sub_single_at: "c \<notin> set a \<Longrightarrow> find_sub [c] (a @ c # b) = Some (length a)"
  by (induction a) (auto simp: starts_with_def)

lemma rposition_none: "c \<notin> set s \<Longrightarrow> rposition c s = None"
  by (induction s) auto

lemma rposition_at: "c \<notin> set b \<Longrightarrow> rposition c (a @ c # b) = Some (length a)"
  by (induction a) (auto simp: rposition_none)

definition host_ok :: "string \<Rightarrow> bool" where
  "host_ok h \<longleftrightarrow> list_all graphic h \<and> CHR ''/'' \<notin> set h \<and> CHR ''['' \<notin> set h \<and> CHR '']'' \<notin> set h \<and> count_list h (CHR '':'') \<noteq> 1"

lemma split_host_only:
  assumes "host_ok h"
  shows "split_host_port h = (h, [])"
proof (cases "CHR '':'' \<in> set h")
  case True
  then obtain a b where h: "h = a @ CHR '':'' # b" "CHR '':'' \<notin> set a" by (meson split_list_first)
  have "CHR '':'' \<in> set b"
    using assms h by (intro ccontr [of "_ \<in> _"]) (simp add: host_ok_def count_list_append)
  then obtain c e where b: "b = c @ CHR '':'' # e" "CHR '':'' \<notin> set e" by (meson split_list_last)
  have "rposition (CHR '':'') h = Some (length (a @ CHR '':'' # c))"
    using rposition_at [OF b(2), of "a @ CHR '':'' # c"] h(1) b(1) by simp
  moreover have "find_sub '':'' h = Some (length a)" using find_sub_single_at h by simp
  moreover have "strip_prefix h ''['' = None" using assms by (cases h) (auto simp: strip_prefix_def starts_with_def host_ok_def)
  ultimately show ?thesis using h(1) by (simp add: split_host_port_def)
next
  case False
  moreover have "strip_prefix h ''['' = None" using assms by (cases h) (auto simp: strip_prefix_def starts_with_def host_ok_def)
  ultimately show ?thesis by (simp add: split_host_port_def find_sub_single [THEN iffD2])
qed

lemma split_joined:
  assumes "host_ok h" and "CHR '':'' \<notin> set p"
  shows "split_host_port (join_host_port h p) = (h, p)"
proof (cases "CHR '':'' \<in> set h")
  case True
  have "find_sub '']'' (h @ '']:'' @ p) = Some (length h)"
    using find_sub_single_at [of "CHR '']''" h "'':'' @ p"] assms(1) by (simp add: host_ok_def)
  moreover have "strip_prefix (''['' @ h @ '']:'' @ p) ''['' = Some (h @ '']:'' @ p)" by simp
  moreover have "strip_prefix ('':'' @ p) '':'' = Some p" by simp
  ultimately show ?thesis using True by (simp add: join_host_port_def split_host_port_def del: strip_prefix_Some)
next
  case False
  have "find_sub '':'' (h @ '':'' @ p) = Some (length h)" "rposition (CHR '':'') (h @ '':'' @ p) = Some (length h)"
    using find_sub_single_at [OF False] rposition_at [OF assms(2)] by simp_all
  moreover have "strip_prefix (h @ '':'' @ p) ''['' = None"
    using assms(1) by (cases h) (auto simp: strip_prefix_def starts_with_def host_ok_def)
  ultimately show ?thesis using False by (simp add: join_host_port_def split_host_port_def)
qed

lemma split_scheme:
  "scheme = ''http'' \<or> scheme = ''https'' \<Longrightarrow> split_once_str ''://'' (scheme @ ''://'' @ r) = Some (scheme, r)"
  by (auto simp: split_once_str_def starts_with_def)

lemma check_port_number:
  assumes "n \<le> 65535"
  shows "check_port (show_base 10 n) = Inr ()" and "show_base 10 n \<noteq> []" and "set (show_base 10 n) \<subseteq> digit_char ` {..<16}"
proof -
  have s: "show_base 10 n \<noteq> []" "set (show_base 10 n) \<subseteq> digit_char ` {..<16}" using show_base_chars [of 10 n] by simp_all
  then show "show_base 10 n \<noteq> []" "set (show_base 10 n) \<subseteq> digit_char ` {..<16}" by simp_all
  have "digit_char d \<noteq> CHR ''-''" if "d < 16" for d
    using digit_chars(1) [OF that] by (auto simp: digit_val_def byte_val_def)
  moreover obtain d where "hd (show_base 10 n) = digit_char d" "d < 16" using s hd_in_set [OF s(1)] by fastforce
  ultimately have "hd (show_base 10 n) \<noteq> CHR ''-'' \<and> hd (show_base 10 n) \<noteq> CHR ''+''"
    using digit_chars(3) by simp
  moreover have "parse_digits 10 (2 ^ 63) 0 (show_base 10 n) = Some n"
    using assms by (intro parse_show_digits) simp_all
  ultimately have "parse_i64 (show_base 10 n) = Some (int n)"
    using s(1) by (cases "show_base 10 n") (simp_all add: parse_i64_def)
  then show "check_port (show_base 10 n) = Inr ()" using assms s(1) by (simp add: check_port_def)
qed

lemma digits_graphic: "c \<in> digit_char ` {..<16} \<Longrightarrow> graphic c \<and> c \<noteq> CHR '':'' \<and> c \<noteq> CHR ''/''"
  using digit_chars(1,2) by (fastforce simp: digit_val_def byte_val_def)

subsection \<open>Properties\<close>

definition address_ok :: "address \<Rightarrow> bool" where
  "address_ok a \<longleftrightarrow> ad_scheme a \<in> {''http'', ''https''} \<and> host_ok (ad_host a) \<and>
     (ad_port a = [] \<and> ad_host a \<noteq> [] \<or> (\<exists>n \<le> 65535. ad_port a = show_base 10 n \<and>
        ad_port a \<noteq> (if ad_scheme a = ''http'' then DEFAULT_HTTP_PORT else DEFAULT_HTTPS_PORT))) \<and>
     list_all graphic (ad_path a) \<and> (ad_path a = [] \<or> hd (ad_path a) = CHR ''/'')"

lemma address_parts:
  assumes "address_ok a"
  obtains hp where "to_address_string a = ad_scheme a @ ''://'' @ hp @ ad_path a"
    and "split_host_port hp = (ad_host a, ad_port a)" and "CHR ''/'' \<notin> set hp" and "list_all graphic hp" and "hp \<noteq> []"
    and "check_port (ad_port a) = Inr ()"
proof (cases "ad_port a = []")
  case True
  have h: "host_ok (ad_host a)" "ad_host a \<noteq> []" "ad_scheme a \<in> {''http'', ''https''}"
    using assms True check_port_number(2) [THEN not_sym] by (auto simp: address_ok_def)
  show ?thesis
    using h split_host_only [OF h(1)] True
    by (intro that [of "ad_host a"]) (auto simp: to_address_string_def host_ok_def check_port_def Let_def)
next
  case False
  then obtain n where n: "n \<le> 65535" "ad_port a = show_base 10 n"
    "ad_port a \<noteq> (if ad_scheme a = ''http'' then DEFAULT_HTTP_PORT else DEFAULT_HTTPS_PORT)"
    using assms by (auto simp: address_ok_def)
  have h: "host_ok (ad_host a)" "ad_scheme a = ''http'' \<or> ad_scheme a = ''https''" using assms by (auto simp: address_ok_def)
  have d: "\<forall>c \<in> set (ad_port a). graphic c \<and> c \<noteq> CHR '':'' \<and> c \<noteq> CHR ''/''"
    using check_port_number(3) [OF n(1)] n(2) digits_graphic by auto
  have "to_address_string a = ad_scheme a @ ''://'' @ join_host_port (ad_host a) (ad_port a) @ ad_path a"
  proof (cases "ad_scheme a = ''http''")
    case True
    then show ?thesis using n(3) False by (simp add: to_address_string_def)
  next
    case https: False
    then have "ad_scheme a = ''https''" using h(2) by simp
    then show ?thesis using n(3) False by (simp add: to_address_string_def)
  qed
  moreover have "split_host_port (join_host_port (ad_host a) (ad_port a)) = (ad_host a, ad_port a)"
    using split_joined [OF h(1)] d by blast
  moreover have "CHR ''/'' \<notin> set (join_host_port (ad_host a) (ad_port a))" "list_all graphic (join_host_port (ad_host a) (ad_port a))"
    using h(1) d by (auto simp: join_host_port_def host_ok_def list_all_iff graphic_def byte_val_def)
  moreover have "join_host_port (ad_host a) (ad_port a) \<noteq> []" by (simp add: join_host_port_def)
  ultimately show ?thesis using that check_port_number(1) [OF n(1)] n(2) by metis
qed


definition sample_address :: address where
  "sample_address = \<lparr>ad_original = [], ad_scheme = ''https'', ad_host = ''::1'', ad_port = ''8443'', ad_path = ''/api''\<rparr>"

lemma sample_address_ok: "address_ok sample_address"
proof -
  have "show_base 10 8443 = ''8443''" by (simp add: show_base.simps digit_char_def)
  then show ?thesis
    by (auto simp: address_ok_def sample_address_def host_ok_def graphic_def byte_val_def DEFAULT_HTTPS_PORT_def intro!: exI [of _ 8443])
qed


text \<open>A parsed address has a valid port and a supported scheme.\<close>

theorem address_parse_valid:
  assumes "address_parse s = Inr a"
  shows "(ad_port a = [] \<or> (\<exists>n. parse_i64 (ad_port a) = Some n \<and> 0 \<le> n \<and> n \<le> 65535)) \<and> ad_scheme a \<in> {[], ''http'', ''https''}"
  using assms
  by (auto simp: address_parse_def Let_def and_then_Inr check_port_def check_scheme_def
      split: if_splits prod.splits option.splits)

theorem address_parse_valid_witness:
  "\<exists>a. address_parse ''http://x'' = Inr a \<and> ad_scheme a \<in> {[], ''http'', ''https''}"
proof -
  have "address_parse ''http://x'' = Inr \<lparr>ad_original = ''http://x'', ad_scheme = ''http'', ad_host = ''x'', ad_port = [], ad_path = []\<rparr>"
    by (simp add: address_parse_def MAX_LEN_def split_once_str_def split_once_def starts_with_def split_host_port_def strip_prefix_def
        check_port_def check_scheme_def graphic_def byte_val_def Let_def)
  then show ?thesis using address_parse_valid by blast
qed

text \<open>An address of more than 4096 bytes is cut at byte 4096 also when a character starts before
  that byte and ends after it; slicing there panics.\<close>

theorem long_address_panics:
  "address_parse (replicate 4095 (CHR ''a'') @ [CHR 0xC3, CHR 0xA9]) = Inl AddressSlicePanic"
  by (simp add: address_parse_def MAX_LEN_def is_char_boundary_def nth_append utf8_cont_def byte_val_def)

end
