(* ===== verification/Conditional.thy ===== *)
theory Conditional
  imports H1_Head Site
begin

text \<open>
  Conditional requests of the static file path, \<open>src/src/server.rs\<close> and
  \<open>src/src/server/caddy.rs\<close>: entity tags, \<open>If-Match\<close>, \<open>If-None-Match\<close>,
  \<open>If-Modified-Since\<close>, \<open>If-Unmodified-Since\<close> and \<open>If-Range\<close>, and the headers of the
  304 and 412 answers.

  Dates are read and printed by \<open>chrono\<close>, a library: what the code uses of it is the
  parameter \<open>date_lib\<close>.
\<close>

record date_lib =
  naive_parse :: "string \<Rightarrow> string \<Rightarrow> int option"
  utc_format :: "string \<Rightarrow> int \<Rightarrow> string option"

definition SERVER_HEADER :: string where
  "SERVER_HEADER = ''zeroserve''"

subsection \<open>Header maps: removal and membership\<close>

definition hm_remove :: "string \<Rightarrow> header_map \<Rightarrow> header_map" where
  "hm_remove name m = store_retain (\<lambda>k _. k \<noteq> name) m"

definition hm_contains :: "header_map \<Rightarrow> string \<Rightarrow> bool" where
  "hm_contains m name = (store_get m name \<noteq> None)"

text \<open>\<open>headers.get(name).and_then(|value| value.to_str().ok())\<close>.\<close>

definition hm_get_str :: "http_lib \<Rightarrow> header_map \<Rightarrow> string \<Rightarrow> string option" where
  "hm_get_str lib m name =
     (case hm_get m name of None \<Rightarrow> None | Some v \<Rightarrow> if value_to_str lib v then Some v else None)"

text \<open>What the library documents: a value of visible ASCII characters and spaces is a header value,
  and such a value is readable as a string.\<close>

definition accepts_visible :: "http_lib \<Rightarrow> bool" where
  "accepts_visible lib = (\<forall>s. list_all visible s \<longrightarrow> value_from_str lib s \<and> value_to_str lib s)"

lemma hm_get_all_simps [simp]:
  "hm_get_all (hm_insert n v m) k = (if k = n then [v] else hm_get_all m k)"
  "hm_get_all (hm_append n v m) k = (if k = n then hm_get_all m n @ [v] else hm_get_all m k)"
  "store_wf m \<Longrightarrow> hm_get_all (hm_remove n m) k = (if k = n then [] else hm_get_all m k)"
  by (auto simp: hm_get_all_def hm_insert_def hm_append_def hm_remove_def st.get_put st.get_retain
      split: option.split)

lemma hm_wf [simp]:
  "store_wf m \<Longrightarrow> store_wf (hm_insert n v m)" "store_wf m \<Longrightarrow> store_wf (hm_append n v m)"
  "store_wf m \<Longrightarrow> store_wf (hm_remove n m)"
  by (simp_all add: hm_insert_def hm_append_def hm_remove_def store_laws)

lemma hm_get_all_get: "hm_get_all m k = hm_get_all m' k \<Longrightarrow> hm_get m k = hm_get m' k"
  by (simp add: hm_get_def)

lemma hm_get_remove [simp]:
  "store_wf m \<Longrightarrow> hm_get (hm_remove n m) k = (if k = n then None else hm_get m k)"
  by (simp add: hm_get_def)

lemma hm_get_append [simp]: "k \<noteq> n \<Longrightarrow> hm_get (hm_append n v m) k = hm_get m k"
  by (simp add: hm_get_def)

lemma hm_get_insert [simp]:
  "hm_get (hm_insert n v m) k = (if k = n then Some v else hm_get m k)"
  by (simp add: hm_get_def hm_get_all_def hm_insert_def st.get_put)

subsection \<open>Entity tags\<close>

definition is_entity_tag_header_value :: "string \<Rightarrow> bool" where
  "is_entity_tag_header_value value =
     ((starts_with value [CHR 0x22] \<or> starts_with value (''W/'' @ [CHR 0x22])) \<and> ends_with value [CHR 0x22])"

definition etag_header_value :: "http_lib \<Rightarrow> string \<Rightarrow> string" where
  "etag_header_value lib etag =
     (let v = (if is_entity_tag_header_value etag then etag else CHR 0x22 # etag @ [CHR 0x22])
      in if value_from_str lib v then v else [CHR 0x22, CHR 0x22])"

definition response_etag_string :: "http_lib \<Rightarrow> string \<Rightarrow> string option" where
  "response_etag_string lib etag =
     (let v = etag_header_value lib etag in if value_to_str lib v then Some v else None)"

definition is_etagc :: "char \<Rightarrow> bool" where
  "is_etagc c =
     (let b = byte_val c in b = 0x21 \<or> (0x23 \<le> b \<and> b \<le> 0x7e) \<or> (0x80 \<le> b))"

text \<open>The loop over the bytes after the opening quote: the bytes passed, and what follows.\<close>

fun scan_tag_body :: "string \<Rightarrow> string \<Rightarrow> (string \<times> string) option" where
  "scan_tag_body seen [] = None"
| "scan_tag_body seen (c # rest) =
     (if is_etagc c then scan_tag_body (seen @ [c]) rest
      else if c = CHR 0x22 then Some (seen @ [c], rest)
      else None)"

definition scan_entity_tag :: "string \<Rightarrow> (string \<times> string) option" where
  "scan_entity_tag value =
     (let value = str_trim value;
          start = (if starts_with value ''W/'' then 2 else 0)
      in if start < length value \<and> value ! start = CHR 0x22
         then scan_tag_body (take (start + 1) value) (drop (start + 1) value) else None)"

definition etag_strong_match :: "string \<Rightarrow> string \<Rightarrow> bool" where
  "etag_strong_match candidate actual = (candidate = actual \<and> starts_with actual [CHR 0x22])"

definition strip_weak :: "string \<Rightarrow> string" where
  "strip_weak t = (case strip_prefix t ''W/'' of None \<Rightarrow> t | Some u \<Rightarrow> u)"

definition etag_weak_match :: "string \<Rightarrow> string \<Rightarrow> bool" where
  "etag_weak_match candidate actual = (strip_weak candidate = strip_weak actual)"

lemma scan_tag_body_SomeD:
  "scan_tag_body seen s = Some (c, r) \<Longrightarrow>
     \<exists>b. c = seen @ b @ [CHR 0x22] \<and> s = b @ [CHR 0x22] @ r \<and> list_all is_etagc b"
proof (induction s arbitrary: seen)
  case (Cons x s)
  show ?case
  proof (cases "is_etagc x")
    case True
    then obtain b where "c = (seen @ [x]) @ b @ [CHR 0x22] \<and> s = b @ [CHR 0x22] @ r \<and> list_all is_etagc b"
      using Cons by fastforce
    with True show ?thesis by (intro exI [of _ "x # b"]) simp
  next
    case False
    then show ?thesis using Cons.prems by (intro exI [of _ "[]"]) (auto split: if_splits)
  qed
qed simp

lemma scan_entity_tag_shorter:
  assumes "scan_entity_tag s = Some (c, r)"
  shows "length r < length s"
proof -
  let ?v = "str_trim s"
  obtain k where k: "scan_tag_body (take k ?v) (drop k ?v) = Some (c, r)"
    using assms by (auto simp: scan_entity_tag_def Let_def split: if_splits)
  obtain b where "drop k ?v = b @ [CHR 0x22] @ r" using scan_tag_body_SomeD [OF k] by blast
  then have "length r < length (drop k ?v)" by simp
  also have "\<dots> \<le> length s" using length_str_trim [of s] by simp
  finally show ?thesis .
qed

text \<open>
  The loop over a list of entity tags shared by \<open>If-None-Match\<close> and \<open>If-Match\<close>: commas are
  skipped, an asterisk matches, and a text that is no entity tag ends the loop.
\<close>

function tag_loop :: "(string \<Rightarrow> bool) \<Rightarrow> string \<Rightarrow> bool" where
  "tag_loop matches value =
     (let rest = str_trim value
      in if rest = [] then False
         else case strip_prefix rest '','' of
                Some after_comma \<Rightarrow> tag_loop matches after_comma
              | None \<Rightarrow>
                  if starts_with rest ''*'' then True
                  else case scan_entity_tag rest of
                         None \<Rightarrow> False
                       | Some (candidate, after_candidate) \<Rightarrow>
                           if matches candidate then True else tag_loop matches after_candidate)"
  by pat_completeness auto
termination
proof (relation "measure (\<lambda>(_, s). length s)", goal_cases)
  case (2 m s rest p candidate after)
  then have "length after < length rest" using scan_entity_tag_shorter [of rest candidate after] by simp
  with 2(1) length_str_trim [of s] show ?case by simp
next
  case (3 m s rest after)
  then have "length after < length rest" by simp
  with 3(1) length_str_trim [of s] show ?case by simp
qed simp

declare tag_loop.simps [simp del]

subsection \<open>The conditions\<close>

definition if_none_match_matches_response :: "http_lib \<Rightarrow> header_map \<Rightarrow> string \<Rightarrow> bool" where
  "if_none_match_matches_response lib headers actual_etag =
     (case hm_get_str lib headers ''if-none-match'' of
        None \<Rightarrow> False
      | Some value \<Rightarrow>
          if str_trim value = ''*'' then True
          else if actual_etag = [] then False
          else tag_loop (\<lambda>candidate. etag_weak_match candidate actual_etag) value)"

definition if_none_match_matches :: "http_lib \<Rightarrow> header_map \<Rightarrow> string \<Rightarrow> bool" where
  "if_none_match_matches lib headers etag =
     (let actual = (if etag = [] then []
                    else case response_etag_string lib etag of None \<Rightarrow> [] | Some v \<Rightarrow> v)
      in if_none_match_matches_response lib headers actual)"

definition if_match_condition_response :: "http_lib \<Rightarrow> header_map \<Rightarrow> string \<Rightarrow> bool option" where
  "if_match_condition_response lib headers actual_etag =
     (case hm_get_str lib headers ''if-match'' of
        None \<Rightarrow> None
      | Some value \<Rightarrow>
          if str_trim value = [] then None
          else Some (tag_loop (\<lambda>candidate. etag_strong_match candidate actual_etag) value))"

text \<open>The three date formats, the weekday before them ignored.\<close>

definition parse_http_date :: "date_lib \<Rightarrow> string \<Rightarrow> int option" where
  "parse_http_date dl value =
     (let value = str_trim value;
          after_comma =
            (case split_once_str '', '' value of
               None \<Rightarrow> None
             | Some (_, rest) \<Rightarrow>
                 (let rest = str_trim rest
                  in case naive_parse dl rest ''%d %b %Y %H:%M:%S GMT'' of
                       Some t \<Rightarrow> Some t
                     | None \<Rightarrow> naive_parse dl rest ''%d-%b-%y %H:%M:%S GMT''))
      in case after_comma of
           Some t \<Rightarrow> Some t
         | None \<Rightarrow>
             (case split_once (CHR '' '') value of
                None \<Rightarrow> None
              | Some (_, rest) \<Rightarrow> naive_parse dl (str_trim_start rest) ''%b %e %H:%M:%S %Y''))"

definition i64_of_u64 :: "u64 \<Rightarrow> int option" where
  "i64_of_u64 w = (if unat w < 2 ^ 63 then Some (int (unat w)) else None)"

definition if_unmodified_since_condition ::
  "http_lib \<Rightarrow> date_lib \<Rightarrow> header_map \<Rightarrow> u64 \<Rightarrow> bool option" where
  "if_unmodified_since_condition lib dl headers last_modified =
     (if last_modified = 0 then None
      else do {
        value \<leftarrow> hm_get_str lib headers ''if-unmodified-since'';
        date \<leftarrow> parse_http_date dl value;
        modified \<leftarrow> i64_of_u64 last_modified;
        Some (modified \<le> date)
      })"

definition if_modified_since_matches ::
  "http_lib \<Rightarrow> date_lib \<Rightarrow> header_map \<Rightarrow> u64 \<Rightarrow> bool" where
  "if_modified_since_matches lib dl headers last_modified =
     (if last_modified = 0 then False
      else case hm_get_str lib headers ''if-modified-since'' of
             None \<Rightarrow> False
           | Some value \<Rightarrow>
               (case parse_http_date dl value of
                  None \<Rightarrow> False
                | Some date \<Rightarrow>
                    (case i64_of_u64 last_modified of None \<Rightarrow> False | Some modified \<Rightarrow> modified \<le> date)))"

definition not_modified_by_request ::
  "http_lib \<Rightarrow> date_lib \<Rightarrow> header_map \<Rightarrow> string \<Rightarrow> u64 \<Rightarrow> bool" where
  "not_modified_by_request lib dl headers etag last_modified =
     (if hm_contains headers ''if-none-match'' then if_none_match_matches lib headers etag
      else if_modified_since_matches lib dl headers last_modified)"

definition if_range_allows_range ::
  "http_lib \<Rightarrow> date_lib \<Rightarrow> header_map \<Rightarrow> string \<Rightarrow> u64 \<Rightarrow> bool" where
  "if_range_allows_range lib dl headers etag last_modified =
     (case hm_get_str lib headers ''if-range'' of
        None \<Rightarrow> True
      | Some value \<Rightarrow>
          (let value = str_trim value; quoted = CHR 0x22 # etag @ [CHR 0x22]
           in if value = [] then False
              else if starts_with value ''W/'' then False
              else if etag \<noteq> [] \<and> (value = etag \<or> value = quoted) then True
              else if last_modified = 0 then False
              else case parse_http_date dl value of
                     None \<Rightarrow> False
                   | Some date \<Rightarrow>
                       (case i64_of_u64 last_modified of None \<Rightarrow> False | Some modified \<Rightarrow> modified = date)))"

subsection \<open>The headers of the answers\<close>

definition http_date :: "date_lib \<Rightarrow> u64 \<Rightarrow> string" where
  "http_date dl secs =
     (case utc_format dl ''%a, %d %b %Y %H:%M:%S GMT'' (sint secs) of
        Some s \<Rightarrow> s
      | None \<Rightarrow> ''Thu, 01 Jan 1970 00:00:00 GMT'')"

definition insert_last_modified ::
  "http_lib \<Rightarrow> date_lib \<Rightarrow> header_map \<Rightarrow> u64 \<Rightarrow> header_map" where
  "insert_last_modified lib dl headers last_modified =
     (if last_modified = 0 then headers
      else if value_from_str lib (http_date dl last_modified)
      then hm_insert ''last-modified'' (http_date dl last_modified) headers else headers)"

definition not_modified_headers :: "http_lib \<Rightarrow> date_lib \<Rightarrow> string \<Rightarrow> u64 \<Rightarrow> header_map" where
  "not_modified_headers lib dl etag last_modified =
     (let h = hm_insert ''server'' SERVER_HEADER [];
          h = (if etag \<noteq> [] then hm_insert ''etag'' (etag_header_value lib etag) h else h);
          h = (if etag = [] then insert_last_modified lib dl h last_modified else h)
      in hm_insert ''content-length'' ''0'' h)"

definition precondition_failed_headers :: "http_lib \<Rightarrow> date_lib \<Rightarrow> string \<Rightarrow> u64 \<Rightarrow> header_map" where
  "precondition_failed_headers lib dl etag last_modified =
     (let h = hm_insert ''server'' SERVER_HEADER [];
          h = (if etag \<noteq> [] then hm_insert ''etag'' (etag_header_value lib etag) h else h);
          h = insert_last_modified lib dl h last_modified
      in hm_insert ''content-length'' ''0'' h)"

subsection \<open>The Caddy file server\<close>

record caddy_etag =
  ce_value :: string
  ce_sidecar :: bool

definition caddy_etag_header_value :: "http_lib \<Rightarrow> caddy_etag \<Rightarrow> string" where
  "caddy_etag_header_value lib e =
     (if ce_sidecar e then (if value_from_str lib (ce_value e) then ce_value e else [CHR 0x22, CHR 0x22])
      else etag_header_value lib (ce_value e))"

definition replace_caddy_validator_etag :: "http_lib \<Rightarrow> header_map \<Rightarrow> caddy_etag \<Rightarrow> header_map" where
  "replace_caddy_validator_etag lib headers e =
     (if ce_value e \<noteq> [] \<and> hm_contains headers ''etag''
      then hm_insert ''etag'' (caddy_etag_header_value lib e) headers else headers)"

definition caddy_not_modified_headers :: "http_lib \<Rightarrow> date_lib \<Rightarrow> caddy_etag \<Rightarrow> u64 \<Rightarrow> header_map" where
  "caddy_not_modified_headers lib dl e last_modified =
     replace_caddy_validator_etag lib (not_modified_headers lib dl (ce_value e) last_modified) e"

definition caddy_precondition_failed_headers :: "http_lib \<Rightarrow> date_lib \<Rightarrow> caddy_etag \<Rightarrow> u64 \<Rightarrow> header_map" where
  "caddy_precondition_failed_headers lib dl e last_modified =
     replace_caddy_validator_etag lib (precondition_failed_headers lib dl (ce_value e) last_modified) e"

definition is_get_or_head :: "string \<Rightarrow> bool" where
  "is_get_or_head m = (m = ''GET'' \<or> m = ''HEAD'')"

text \<open>The first condition that decides, or None when the file is to be sent.\<close>

definition caddy_precondition_response ::
  "http_lib \<Rightarrow> date_lib \<Rightarrow> request_head \<Rightarrow> caddy_etag \<Rightarrow> u64 \<Rightarrow> (nat \<times> header_map) option" where
  "caddy_precondition_response lib dl head e last_modified =
     (let headers = rq_headers head;
          hv = caddy_etag_header_value lib e;
          etag_header = (if value_to_str lib hv then hv else []);
          failed = Some (412, caddy_precondition_failed_headers lib dl e last_modified);
          unchanged = Some (304, caddy_not_modified_headers lib dl e last_modified);
          first = (case if_match_condition_response lib headers etag_header of
                     Some matched \<Rightarrow> matched
                   | None \<Rightarrow>
                       (case if_unmodified_since_condition lib dl headers last_modified of
                          Some matched \<Rightarrow> matched
                        | None \<Rightarrow> True))
      in if \<not> first then failed
         else if hm_contains headers ''if-none-match'' then
           (if if_none_match_matches_response lib headers etag_header
            then (if is_get_or_head (rq_method head) then unchanged else failed)
            else None)
         else if is_get_or_head (rq_method head) \<and> if_modified_since_matches lib dl headers last_modified
         then unchanged else None)"

subsection \<open>Lists of entity tags\<close>

definition entity_tag :: "string \<Rightarrow> bool" where
  "entity_tag t =
     (\<exists>b. list_all is_etagc b \<and> (t = CHR 0x22 # b @ [CHR 0x22] \<or> t = ''W/'' @ CHR 0x22 # b @ [CHR 0x22]))"

lemma tag_loop_trim: "str_trim v = str_trim w \<Longrightarrow> tag_loop m v = tag_loop m w"
  by (simp add: tag_loop.simps [of m v] tag_loop.simps [of m w])

lemma graphic_facts [simp]:
  "graphic (CHR 0x22)" "graphic (CHR ''W'')" "graphic (CHR '','')" "\<not> is_etagc (CHR 0x22)"
  by (simp_all add: graphic_def is_etagc_def byte_val_def)

lemma entity_tagE:
  assumes "entity_tag t"
  shows "t \<noteq> []" and "graphic (hd t)" and "graphic (last t)" and "last t = CHR 0x22"
    and "\<not> starts_with (t @ r) '',''" and "\<not> starts_with (t @ r) ''*''"
  using assms by (auto simp: entity_tag_def starts_with_def)

lemma scan_tag_body_tag:
  "list_all is_etagc b \<Longrightarrow> scan_tag_body seen (b @ CHR 0x22 # r) = Some (seen @ b @ [CHR 0x22], r)"
  by (induction b arbitrary: seen) auto

lemma scan_entity_tag_tag:
  assumes "entity_tag t" and "r = [] \<or> graphic (last r)"
  shows "scan_entity_tag (t @ r) = Some (t, r)"
proof -
  have tr: "str_trim (t @ r) = t @ r"
    using entity_tagE [OF assms(1)] assms(2) by (intro str_trim_graphic) (auto simp: last_append hd_append)
  obtain b where b: "list_all is_etagc b"
    and t: "t = CHR 0x22 # b @ [CHR 0x22] \<or> t = ''W/'' @ CHR 0x22 # b @ [CHR 0x22]"
    using assms(1) by (auto simp: entity_tag_def)
  from t show ?thesis unfolding scan_entity_tag_def Let_def tr
    by (elim disjE) (simp_all add: starts_with_def scan_tag_body_tag [OF b] numeral_2_eq_2)
qed

lemma join_tags_ends:
  "list_all entity_tag ts \<Longrightarrow> ts \<noteq> [] \<Longrightarrow>
     (let j = join_with '', '' ts in j \<noteq> [] \<and> graphic (hd j) \<and> graphic (last j))"
proof (induction ts)
  case (Cons t ts)
  then have "entity_tag t" by simp
  from entity_tagE [OF this] Cons show ?case
    by (cases ts) (auto simp: Let_def hd_append last_append)
qed simp

lemma join_tags:
  assumes "list_all entity_tag ts" and "ts \<noteq> []"
  shows "join_with '', '' ts \<noteq> []" and "graphic (hd (join_with '', '' ts))"
    and "graphic (last (join_with '', '' ts))"
  using join_tags_ends [OF assms] by (simp_all add: Let_def)

lemma tag_loop_join:
  "list_all entity_tag ts \<Longrightarrow> tag_loop m (join_with '', '' ts) \<longleftrightarrow> (\<exists>t \<in> set ts. m t)"
proof (induction ts)
  case Nil
  then show ?case by (simp add: tag_loop.simps [of m "[]"] str_trim_def)
next
  case (Cons t ts)
  have t: "entity_tag t" using Cons.prems by simp
  define j where "j = join_with '', '' ts"
  define r where "r = (if ts = [] then [] else '', '' @ j)"
  have whole: "join_with '', '' (t # ts) = t @ r"
    by (cases ts) (simp_all add: r_def j_def)
  have ts: "list_all entity_tag ts" using Cons.prems by simp
  have r: "r = [] \<or> graphic (last r)"
    using join_tags [OF ts] by (auto simp: r_def j_def last_append)
  have tr: "str_trim (t @ r) = t @ r"
    using entity_tagE [OF t] r by (intro str_trim_graphic) (auto simp: last_append hd_append)
  have "tag_loop m (t @ r) = (m t \<or> tag_loop m r)"
    using entity_tagE [OF t] tr
    by (simp add: tag_loop.simps [of m "t @ r"] strip_prefix_def scan_entity_tag_tag [OF t r])
  also have "tag_loop m r = tag_loop m j"
  proof (cases "ts = []")
    case True
    then show ?thesis by (simp add: r_def j_def)
  next
    case False
    note j = join_tags [OF ts False, folded j_def]
    have "str_trim ('', '' @ j) = '', '' @ j" using j by (intro str_trim_graphic) auto
    then have "tag_loop m ('', '' @ j) = tag_loop m (CHR '' '' # j)"
      by (simp add: tag_loop.simps [of m "CHR '','' # CHR '' '' # j"] strip_prefix_def starts_with_def)
    also have "\<dots> = tag_loop m j" using j by (intro tag_loop_trim) (simp add: str_trim_space)
    finally show ?thesis using False by (simp add: r_def)
  qed
  also have "tag_loop m j = (\<exists>t \<in> set ts. m t)" using Cons.IH ts by (simp add: j_def)
  finally show ?case by (simp add: whole)
qed

lemma hm_get_str_Some:
  "hm_get_str lib headers name = Some v \<longleftrightarrow> hm_get headers name = Some v \<and> value_to_str lib v"
  by (auto simp: hm_get_str_def split: option.splits)

text \<open>
  A list of entity tags, as a client writes it, is evaluated tag by tag whatever the tags
  contain (commas included): \<open>If-None-Match\<close> by the weak comparison, \<open>If-Match\<close> by the strong
  one, and a file without an entity tag matches neither.
\<close>

theorem entity_tag_conditions:
  assumes "list_all entity_tag ts" and "ts \<noteq> []" and "value_to_str lib (join_with '', '' ts)"
  shows "(hm_get headers ''if-none-match'' = Some (join_with '', '' ts) \<longrightarrow>
       if_none_match_matches_response lib headers actual =
         (actual \<noteq> [] \<and> (\<exists>t \<in> set ts. strip_weak t = strip_weak actual)))
     \<and> (hm_get headers ''if-match'' = Some (join_with '', '' ts) \<longrightarrow>
       if_match_condition_response lib headers actual =
         Some (actual \<in> set ts \<and> starts_with actual [CHR 0x22]))"
proof -
  let ?v = "join_with '', '' ts"
  note j = join_tags [OF assms(1,2)]
  have tr: "str_trim ?v = ?v" using j by (intro str_trim_graphic)
  have "last ?v = CHR 0x22" using assms(1,2)
  proof (induction ts)
    case (Cons t ts)
    then show ?case using entity_tagE(1,4) [of t] join_tags(1) [of ts]
      by (cases ts) (auto simp: last_append)
  qed simp
  then have star: "?v \<noteq> ''*''" by auto
  show ?thesis using assms(3) star j(1)
    by (auto simp: if_none_match_matches_response_def if_match_condition_response_def hm_get_str_def tr
        tag_loop_join [OF assms(1)] etag_weak_match_def etag_strong_match_def)
qed

text \<open>A library of headers and dates for the witnesses: visible ASCII values, and dates that
  are printed as digits.\<close>

definition visible_lib :: http_lib where
  "visible_lib = \<lparr>name_from_bytes = Some, value_from_bytes = (\<lambda>_. True),
     value_from_str = list_all visible,
     value_to_str = list_all visible,
     method_from_bytes = (\<lambda>_. True), parse_uri = Some, status_from_u16 = (\<lambda>_. True)\<rparr>"

theorem entity_tag_conditions_witness:
  "\<exists>a b. a = [CHR 0x22, CHR ''a'', CHR '','', CHR 0x22] \<and> b = ''W/'' @ [CHR 0x22, CHR ''b'', CHR 0x22] \<and>
     if_none_match_matches_response visible_lib [(''if-none-match'', [a @ '', '' @ b])] (drop 2 b) \<and>
     if_match_condition_response visible_lib [(''if-match'', [a @ '', '' @ b])] (drop 2 b) = Some False"
proof -
  let ?a = "[CHR 0x22, CHR ''a'', CHR '','', CHR 0x22]" and ?b = "''W/'' @ [CHR 0x22, CHR ''b'', CHR 0x22]"
  have tags: "list_all entity_tag [?a, ?b]"
    by (auto simp: entity_tag_def is_etagc_def byte_val_def Let_def
        intro: exI [of _ "''a,''"] exI [of _ "''b''"])
  have "value_to_str visible_lib (join_with '', '' [?a, ?b])" by code_simp
  from entity_tag_conditions [OF tags _ this, of "[(''if-none-match'', [join_with '', '' [?a, ?b]])]" "drop 2 ?b"]
    entity_tag_conditions [OF tags _ this, of "[(''if-match'', [join_with '', '' [?a, ?b]])]" "drop 2 ?b"]
  show ?thesis
    by (simp add: hm_get_def hm_get_all_def store_get_def strip_weak_def strip_prefix_def starts_with_def)
qed

end
