(* ===== verification/Byte_Range.thy ===== *)
theory Byte_Range
  imports Conditional
begin

text \<open>
  Byte ranges, \<open>src/src/server.rs\<close>: the range handling of the static site
  (\<open>apply_static_range\<close>) and of the Caddy file server (\<open>parse_byte_range_spec\<close>,
  \<open>apply_caddy_range\<close>).  Sizes and positions are 64-bit in the code; here they are natural
  numbers, and the two places where the code can wrap (the sum of the lengths and the signed
  end position) are written with the wrap-around.
\<close>

record byte_range =
  br_start :: nat
  br_len :: nat

text \<open>\<open>if let Ok(value) = HeaderValue::from_str(..) { headers.insert(..) }\<close>.\<close>

definition hm_insert_str :: "http_lib \<Rightarrow> string \<Rightarrow> string \<Rightarrow> header_map \<Rightarrow> header_map" where
  "hm_insert_str lib name v m = (if value_from_str lib v then hm_insert name v m else m)"

definition content_range :: "nat \<Rightarrow> int \<Rightarrow> nat \<Rightarrow> string" where
  "content_range start stop total_len =
     ''bytes '' @ show_nat start @ ''-'' @ show_int stop @ ''/'' @ show_nat total_len"

definition unsatisfied_range :: "nat \<Rightarrow> string" where
  "unsatisfied_range total_len = ''bytes */'' @ show_nat total_len"

subsection \<open>The static site\<close>

definition set_unsatisfiable_range :: "http_lib \<Rightarrow> header_map \<Rightarrow> nat \<Rightarrow> header_map" where
  "set_unsatisfiable_range lib headers total_len =
     hm_insert_str lib ''content-range'' (unsatisfied_range total_len)
       (hm_insert ''content-length'' ''0'' headers)"

definition unsatisfiable_range ::
  "http_lib \<Rightarrow> header_map \<Rightarrow> nat \<Rightarrow> nat \<times> byte_range option \<times> header_map" where
  "unsatisfiable_range lib headers total_len =
     (416, Some \<lparr>br_start = 0, br_len = 0\<rparr>, set_unsatisfiable_range lib headers total_len)"

text \<open>
  The range a specification asks for: None when it is not understood (the file is sent whole),
  \<open>Some None\<close> for an empty suffix, and the first and last position otherwise.
\<close>

definition parse_static_spec :: "string \<Rightarrow> nat \<Rightarrow> (nat \<times> nat) option option" where
  "parse_static_spec spec total_len =
     (case split_once (CHR ''-'') spec of
        None \<Rightarrow> None
      | Some (start, end_text) \<Rightarrow>
          if start = [] then
            (case parse_uint 10 (2 ^ 64) (str_trim end_text) of
               None \<Rightarrow> None
             | Some suffix_len \<Rightarrow>
                 if suffix_len = 0 then Some None
                 else if suffix_len \<ge> total_len then Some (Some (0, total_len - 1))
                 else Some (Some (total_len - suffix_len, total_len - 1)))
          else
            (case parse_uint 10 (2 ^ 64) (str_trim start) of
               None \<Rightarrow> None
             | Some s \<Rightarrow>
                 if str_trim end_text = [] then Some (Some (s, total_len - 1))
                 else case parse_uint 10 (2 ^ 64) (str_trim end_text) of
                        None \<Rightarrow> None
                      | Some e \<Rightarrow> Some (Some (s, e))))"

definition partial_range ::
  "http_lib \<Rightarrow> header_map \<Rightarrow> nat \<Rightarrow> nat \<Rightarrow> nat \<Rightarrow> nat \<times> byte_range option \<times> header_map" where
  "partial_range lib headers total_len start stop =
     (if total_len = 0 \<or> start \<ge> total_len \<or> stop < start then unsatisfiable_range lib headers total_len
      else
        (let stop = min stop (total_len - 1); len = stop - start + 1
         in (206, Some \<lparr>br_start = start, br_len = len\<rparr>,
             hm_insert_str lib ''content-range'' (content_range start (int stop) total_len)
               (hm_insert_str lib ''content-length'' (show_nat len) headers))))"

definition apply_static_range ::
  "http_lib \<Rightarrow> date_lib \<Rightarrow> request_head \<Rightarrow> header_map \<Rightarrow> nat \<Rightarrow> string \<Rightarrow> u64
     \<Rightarrow> nat \<times> byte_range option \<times> header_map" where
  "apply_static_range lib dl head headers total_len etag last_modified =
     (let whole = (200, None, headers)
      in case hm_get (rq_headers head) ''range'' of
           None \<Rightarrow> whole
         | Some value \<Rightarrow>
             if \<not> if_range_allows_range lib dl (rq_headers head) etag last_modified then whole
             else if \<not> value_to_str lib value then whole
             else case strip_prefix (str_trim value) ''bytes='' of
                    None \<Rightarrow> whole
                  | Some spec \<Rightarrow>
                      if CHR '','' \<in> set spec then whole
                      else case parse_static_spec spec total_len of
                             None \<Rightarrow> whole
                           | Some None \<Rightarrow> unsatisfiable_range lib headers total_len
                           | Some (Some (start, stop)) \<Rightarrow> partial_range lib headers total_len start stop)"

subsection \<open>The Caddy file server\<close>

datatype range_parse = Invalid | NoOverlap | Ranges "(nat \<times> nat) list"

datatype caddy_range_outcome = Full | Single byte_range | Unsatisfiable string

text \<open>One specification between commas: skipped, malformed, beyond the end, or a part of the file.\<close>

datatype range_item = Skipped | Malformed | Beyond | Part nat nat

definition parse_range_item :: "nat \<Rightarrow> string \<Rightarrow> range_item" where
  "parse_range_item sz raw =
     (let ra = str_trim raw
      in if ra = [] then Skipped
         else case split_once (CHR ''-'') ra of
                None \<Rightarrow> Malformed
              | Some (a, b) \<Rightarrow>
                  (let start = str_trim a; end_text = str_trim b
                   in if start = [] then
                        (if end_text = [] \<or> starts_with end_text ''-'' then Malformed
                         else case parse_uint 10 (2 ^ 64) end_text of
                                None \<Rightarrow> Malformed
                              | Some i \<Rightarrow>
                                  (let i = (if i > sz then sz else i); r_start = sz - i
                                   in Part r_start (sz - r_start)))
                      else
                        (case parse_uint 10 (2 ^ 64) start of
                           None \<Rightarrow> Malformed
                         | Some i \<Rightarrow>
                             if i \<ge> sz then Beyond
                             else if end_text = [] then Part i (sz - i)
                             else case parse_uint 10 (2 ^ 64) end_text of
                                    None \<Rightarrow> Malformed
                                  | Some j \<Rightarrow>
                                      if i > j then Malformed
                                      else Part i ((if j \<ge> sz then sz - 1 else j) - i + 1))))"

text \<open>The loop over the specifications.\<close>

fun range_specs :: "nat \<Rightarrow> string list \<Rightarrow> (nat \<times> nat) list \<Rightarrow> bool \<Rightarrow> range_parse" where
  "range_specs sz [] ranges no_overlap =
     (if no_overlap \<and> ranges = [] then NoOverlap else Ranges ranges)"
| "range_specs sz (raw # raws) ranges no_overlap =
     (case parse_range_item sz raw of
        Skipped \<Rightarrow> range_specs sz raws ranges no_overlap
      | Malformed \<Rightarrow> Invalid
      | Beyond \<Rightarrow> range_specs sz raws ranges True
      | Part start len \<Rightarrow> range_specs sz raws (ranges @ [(start, len)]) no_overlap)"

definition parse_byte_range_spec :: "string \<Rightarrow> nat \<Rightarrow> range_parse" where
  "parse_byte_range_spec spec sz = range_specs sz (split_on (CHR '','') spec) [] False"

definition make_unsatisfiable ::
  "http_lib \<Rightarrow> header_map \<Rightarrow> string \<Rightarrow> nat option \<Rightarrow> caddy_range_outcome \<times> header_map" where
  "make_unsatisfiable lib headers body content_range_total =
     (let h = hm_remove ''etag'' headers;
          h = hm_remove ''last-modified'' h;
          h = hm_remove ''accept-ranges'' h;
          h = hm_remove ''content-encoding'' h;
          h = hm_remove ''cache-control'' h;
          h = hm_insert ''content-type'' ''text/plain; charset=utf-8'' h;
          h = hm_insert ''x-content-type-options'' ''nosniff'' h;
          h = (case content_range_total of
                 Some total_len \<Rightarrow> hm_insert_str lib ''content-range'' (unsatisfied_range total_len) h
               | None \<Rightarrow> hm_remove ''content-range'' h);
          h = hm_insert_str lib ''content-length'' (show_nat (length body)) h
      in (Unsatisfiable body, h))"

definition invalid_range_body :: string where
  "invalid_range_body = ''invalid range'' @ [CHR 0x0A]"

definition no_overlap_body :: string where
  "no_overlap_body = ''invalid range: failed to overlap'' @ [CHR 0x0A]"

definition signed_end :: "nat \<Rightarrow> nat \<Rightarrow> int" where
  "signed_end start len = sint ((of_nat start :: u64) + of_nat len - 1)"

definition apply_caddy_range ::
  "http_lib \<Rightarrow> date_lib \<Rightarrow> request_head \<Rightarrow> header_map \<Rightarrow> nat \<Rightarrow> string \<Rightarrow> u64
     \<Rightarrow> caddy_range_outcome \<times> header_map" where
  "apply_caddy_range lib dl head headers sz etag last_modified =
     (case hm_get (rq_headers head) ''range'' of
        None \<Rightarrow> (Full, headers)
      | Some value \<Rightarrow>
          if \<not> is_get_or_head (rq_method head) then (Full, headers)
          else if \<not> if_range_allows_range lib dl (rq_headers head) etag last_modified then (Full, headers)
          else if \<not> value_to_str lib value then make_unsatisfiable lib headers invalid_range_body None
          else case strip_prefix (str_trim value) ''bytes='' of
                 None \<Rightarrow> make_unsatisfiable lib headers invalid_range_body None
               | Some spec \<Rightarrow>
                   (case parse_byte_range_spec spec sz of
                      Invalid \<Rightarrow> make_unsatisfiable lib headers invalid_range_body None
                    | NoOverlap \<Rightarrow>
                        if sz = 0 then (Full, headers)
                        else make_unsatisfiable lib headers no_overlap_body (Some sz)
                    | Ranges ranges \<Rightarrow>
                        if ranges = [] then (Full, headers)
                        else if sum_list (map snd ranges) mod 2 ^ 64 > sz then (Full, headers)
                        else case ranges of
                               [(start, len)] \<Rightarrow>
                                 (Single \<lparr>br_start = start, br_len = len\<rparr>,
                                  hm_insert_str lib ''content-range''
                                    (content_range start (signed_end start len) sz)
                                    (hm_insert_str lib ''content-length'' (show_nat len) headers))
                             | _ \<Rightarrow> (Full, headers)))"

subsection \<open>Ranges lie in the file\<close>

lemma insert_range_headers:
  assumes "accepts_visible lib"
  shows "hm_insert_str lib n (show_nat k) m = hm_insert n (show_nat k) m"
    and "hm_insert_str lib n (content_range start i total_len) m = hm_insert n (content_range start i total_len) m"
    and "hm_insert_str lib n (unsatisfied_range k) m = hm_insert n (unsatisfied_range k) m"
  using assms visible_show visible_show_int
  by (auto simp: hm_insert_str_def accepts_visible_def content_range_def unsatisfied_range_def visible_def byte_val_def)

lemma apply_static_range_cases:
  assumes "P (200, None, headers)" and "P (unsatisfiable_range lib headers total_len)"
    and "\<And>start stop. P (partial_range lib headers total_len start stop)"
  shows "P (apply_static_range lib dl head headers total_len etag lm)"
  using assms by (simp add: apply_static_range_def Let_def split: option.split)

text \<open>
  The answers a range request may get: the whole file with the headers unchanged; a part that
  is not empty and lies in the file, announced by its length and its positions; or a refusal
  with an empty body that names the size.
\<close>

definition range_answer :: "nat \<Rightarrow> header_map \<Rightarrow> nat \<times> byte_range option \<times> header_map \<Rightarrow> bool" where
  "range_answer total_len headers answer =
     (case answer of (status, rng, h) \<Rightarrow>
        (status = 200 \<and> rng = None \<and> h = headers)
      \<or> (status = 206 \<and>
          (case rng of None \<Rightarrow> False
           | Some r \<Rightarrow> 0 < br_len r \<and> br_start r + br_len r \<le> total_len \<and>
               hm_get h ''content-length'' = Some (show_nat (br_len r)) \<and>
               hm_get h ''content-range'' =
                 Some (content_range (br_start r) (int (br_start r + br_len r - 1)) total_len)))
      \<or> (status = 416 \<and> rng = Some \<lparr>br_start = 0, br_len = 0\<rparr> \<and>
          hm_get h ''content-length'' = Some ''0'' \<and>
          hm_get h ''content-range'' = Some (unsatisfied_range total_len)))"

lemma range_answer_unsatisfiable:
  "accepts_visible lib \<Longrightarrow> range_answer total_len headers (unsatisfiable_range lib headers total_len)"
  by (simp add: range_answer_def unsatisfiable_range_def set_unsatisfiable_range_def insert_range_headers)

lemma range_answer_partial:
  assumes "accepts_visible lib"
  shows "range_answer total_len headers (partial_range lib headers total_len start stop)"
proof (cases "total_len = 0 \<or> start \<ge> total_len \<or> stop < start")
  case True
  then show ?thesis by (simp add: partial_range_def range_answer_unsatisfiable [OF assms])
next
  case False
  then have "start + (min stop (total_len - 1) - start) = min stop (total_len - 1)" by (auto simp: min_def)
  with False show ?thesis
    by (auto simp: partial_range_def range_answer_def Let_def insert_range_headers [OF assms])
qed

lemma static_range_in_file:
  assumes "accepts_visible lib"
  shows "range_answer total_len headers (apply_static_range lib dl head headers total_len etag lm)"
  using range_answer_unsatisfiable [OF assms] range_answer_partial [OF assms]
  by (intro apply_static_range_cases [where P = "range_answer total_len headers"]) (simp_all add: range_answer_def)

lemma range_item_in_file: "parse_range_item sz raw = Part s l \<Longrightarrow> s + l \<le> sz"
  by (auto simp: parse_range_item_def Let_def split: if_splits option.splits prod.splits)

lemma range_specs_in_file:
  "range_specs sz raws ranges no = Ranges rs \<Longrightarrow> \<forall>(s, l) \<in> set ranges. s + l \<le> sz \<Longrightarrow>
     \<forall>(s, l) \<in> set rs. s + l \<le> sz"
proof (induction sz raws ranges no rule: range_specs.induct)
  case (2 sz raw raws ranges no)
  show ?case
  proof (cases "parse_range_item sz raw")
    case (Part s l)
    then have "\<forall>(s, l) \<in> set (ranges @ [(s, l)]). s + l \<le> sz"
      using 2(5) range_item_in_file [OF Part] by simp
    with 2(3) [OF Part] 2(4) Part show ?thesis by simp
  qed (use 2 in auto)
qed (auto split: if_splits)

lemma apply_caddy_range_Single:
  assumes "apply_caddy_range lib dl head headers sz etag lm = (Single r, h)"
  shows "br_start r + br_len r \<le> sz"
    and "h = hm_insert_str lib ''content-range''
           (content_range (br_start r) (signed_end (br_start r) (br_len r)) sz)
           (hm_insert_str lib ''content-length'' (show_nat (br_len r)) headers)"
proof -
  obtain spec where s: "parse_byte_range_spec spec sz = Ranges [(br_start r, br_len r)]"
    and h: "h = hm_insert_str lib ''content-range''
           (content_range (br_start r) (signed_end (br_start r) (br_len r)) sz)
           (hm_insert_str lib ''content-length'' (show_nat (br_len r)) headers)"
    using assms
    by (auto simp: apply_caddy_range_def make_unsatisfiable_def Let_def
        split: option.splits if_splits range_parse.splits list.splits prod.splits)
  from range_specs_in_file [OF s [unfolded parse_byte_range_spec_def]]
  show "br_start r + br_len r \<le> sz" by simp
  show "h = hm_insert_str lib ''content-range''
           (content_range (br_start r) (signed_end (br_start r) (br_len r)) sz)
           (hm_insert_str lib ''content-length'' (show_nat (br_len r)) headers)"
    by (rule h)
qed

lemma signed_end_small:
  assumes "start + len \<le> sz" and "sz < 2 ^ 63"
  shows "signed_end start len = int start + int len - 1"
proof (cases "start + len")
  case 0
  then show ?thesis by (simp add: signed_end_def)
next
  case (Suc n)
  have "(of_nat start :: u64) + of_nat len - 1 = of_nat n"
    using Suc by (metis add_diff_cancel_right' of_nat_Suc of_nat_add add.commute)
  moreover have "sint (of_nat n :: u64) = int n"
    using Suc assms by (simp add: signed_of_nat signed_take_bit_int_eq_self)
  ultimately show ?thesis using Suc by (simp add: signed_end_def)
qed

subsection \<open>Well-formed requests are honoured\<close>

text \<open>
  The byte ranges of RFC 7233 over a file of a given size: first and last position (the last
  one may lie beyond the end), an open range, and a suffix.
\<close>

inductive asks :: "nat \<Rightarrow> string \<Rightarrow> byte_range \<Rightarrow> bool" for total_len :: nat where
  bounded: "a \<le> b \<Longrightarrow> a < total_len \<Longrightarrow> b < 2 ^ 64 \<Longrightarrow>
    asks total_len (show_nat a @ ''-'' @ show_nat b) \<lparr>br_start = a, br_len = min b (total_len - 1) - a + 1\<rparr>"
| open_ended: "a < total_len \<Longrightarrow> a < 2 ^ 64 \<Longrightarrow>
    asks total_len (show_nat a @ ''-'') \<lparr>br_start = a, br_len = total_len - a\<rparr>"
| from_end: "0 < n \<Longrightarrow> n < 2 ^ 64 \<Longrightarrow> 0 < total_len \<Longrightarrow>
    asks total_len (''-'' @ show_nat n) \<lparr>br_start = total_len - n, br_len = min n total_len\<rparr>"

lemma split_dash: "CHR ''-'' \<notin> set a \<Longrightarrow> split_once (CHR ''-'') (a @ CHR ''-'' # b) = Some (a, b)"
  by (rule split_once_append)

lemma graphic_dash [simp]: "graphic (CHR ''-'')" "graphic (CHR ''b'')"
  by (simp_all add: graphic_def byte_val_def)

lemma str_trim_Nil [simp]: "str_trim [] = []"
  by (simp add: str_trim_def)

lemma asks_text:
  assumes "asks total_len spec r"
  shows "spec \<noteq> []" "graphic (hd spec)" "graphic (last spec)" "CHR '','' \<notin> set spec"
  using assms by (cases; simp add: hd_append last_append)+

lemma asks_static:
  "asks total_len spec r \<Longrightarrow>
     \<exists>h. partial_range lib headers total_len (br_start r) (br_start r + br_len r - 1) = (206, Some r, h) \<and>
       (\<exists>stop. parse_static_spec spec total_len = Some (Some (br_start r, stop)) \<and>
         partial_range lib headers total_len (br_start r) stop =
           partial_range lib headers total_len (br_start r) (br_start r + br_len r - 1))"
proof (induction rule: asks.induct)
  case (bounded a b)
  have "parse_static_spec (show_nat a @ ''-'' @ show_nat b) total_len = Some (Some (a, b))"
    using bounded by (simp add: parse_static_spec_def split_dash)
  moreover have "a + (min b (total_len - 1) - a) = min b (total_len - 1)" using bounded by auto
  ultimately show ?case using bounded by (auto simp: partial_range_def Let_def)
next
  case (open_ended a)
  then show ?case by (auto simp: parse_static_spec_def split_dash partial_range_def Let_def)
next
  case (from_end n)
  then have "parse_static_spec (''-'' @ show_nat n) total_len = Some (Some (total_len - n, total_len - 1))"
    using split_dash [of "[]" "show_nat n"] by (simp add: parse_static_spec_def)
  with from_end show ?case by (auto simp: partial_range_def Let_def min_def)
qed

lemma asks_caddy:
  assumes "asks total_len spec r"
  shows "parse_range_item total_len spec = Part (br_start r) (br_len r)" and "br_len r \<le> total_len"
proof -
  have t: "str_trim spec = spec" using asks_text [OF assms] by simp
  have num: "\<not> starts_with (show_nat n) ''-''" for n
    using show_nat_plain(1) [of n] by (cases "show_nat n") (auto simp: starts_with_def)
  from assms show "parse_range_item total_len spec = Part (br_start r) (br_len r)"
  proof cases
    case (bounded a b)
    then show ?thesis using t by (auto simp: parse_range_item_def Let_def split_dash min_def)
  next
    case (open_ended a)
    then show ?thesis using t by (auto simp: parse_range_item_def Let_def split_dash)
  next
    case (from_end n)
    then show ?thesis using t num split_dash [of "[]" "show_nat n"]
      by (auto simp: parse_range_item_def Let_def min_def)
  qed
  from assms show "br_len r \<le> total_len" by cases auto
qed

text \<open>C29. 
  Every well-formed single range is honoured, and the static site and the Caddy file server
  agree on the part they send.
\<close>

theorem range_request_honoured:
  assumes "asks total_len spec r" and "total_len < 2 ^ 64"
    and "hm_get (rq_headers head) ''range'' = Some (''bytes='' @ spec)"
    and "value_to_str lib (''bytes='' @ spec)" and "hm_get (rq_headers head) ''if-range'' = None"
    and "is_get_or_head (rq_method head)"
  shows "\<exists>h h'. apply_static_range lib dl head headers total_len etag lm = (206, Some r, h) \<and>
     apply_caddy_range lib dl head headers total_len etag lm = (Single r, h')"
proof -
  note txt_facts = asks_text [OF assms(1)]
  have t: "str_trim (''bytes='' @ spec) = ''bytes='' @ spec" using txt_facts by (intro str_trim_graphic) simp_all
  have allows: "if_range_allows_range lib dl (rq_headers head) etag lm"
    using assms(5) by (simp add: if_range_allows_range_def hm_get_str_def)
  have spec: "strip_prefix (str_trim (''bytes='' @ spec)) ''bytes='' = Some spec" by (simp only: t strip_prefix_Some)
  obtain stop where stop: "parse_static_spec spec total_len = Some (Some (br_start r, stop))"
    "\<exists>h. partial_range lib headers total_len (br_start r) stop = (206, Some r, h)"
    using asks_static [OF assms(1), of lib headers] by metis
  have one: "parse_byte_range_spec spec total_len = Ranges [(br_start r, br_len r)]"
    using asks_caddy(1) [OF assms(1)] txt_facts(4) by (simp add: parse_byte_range_spec_def split_on_none)
  have "apply_static_range lib dl head headers total_len etag lm =
      partial_range lib headers total_len (br_start r) stop"
    unfolding apply_static_range_def Let_def assms(3) option.case spec stop(1)
    using allows assms(4) txt_facts(4) by simp
  moreover have "\<exists>h. apply_caddy_range lib dl head headers total_len etag lm = (Single r, h)"
    unfolding apply_caddy_range_def Let_def assms(3) option.case spec one
    using allows assms(2,4,6) asks_caddy(2) [OF assms(1)] by simp
  ultimately show ?thesis using stop(2) by metis
qed

definition no_dates :: date_lib where
  "no_dates = \<lparr>naive_parse = (\<lambda>_ _. None), utc_format = (\<lambda>_ _. None)\<rparr>"

definition get_head :: "header_map \<Rightarrow> request_head" where
  "get_head headers = \<lparr>rq_method = ''GET'', rq_uri = ''/'', rq_version = HTTP_11, rq_headers = headers, rq_tls = False\<rparr>"

theorem range_request_honoured_witness:
  "\<exists>h h'. apply_static_range visible_lib no_dates (get_head [(''range'', [''bytes=2-4''])]) [] 10 [] 0 =
       (206, Some \<lparr>br_start = 2, br_len = 3\<rparr>, h) \<and>
     apply_caddy_range visible_lib no_dates (get_head [(''range'', [''bytes=2-4''])]) [] 10 [] 0 =
       (Single \<lparr>br_start = 2, br_len = 3\<rparr>, h')"
proof -
  have s: "show_nat 2 = ''2''" "show_nat 4 = ''4''" by code_simp+
  have a: "asks 10 ''2-4'' \<lparr>br_start = 2, br_len = 3\<rparr>"
    using asks.bounded [of 2 4 10] s by simp
  have v: "value_to_str visible_lib (''bytes='' @ ''2-4'')" by code_simp
  show ?thesis
    by (rule range_request_honoured [OF a _ _ v])
      (simp_all add: get_head_def hm_get_def hm_get_all_def store_get_def is_get_or_head_def)
qed

lemmas range_eval = parse_byte_range_spec_def parse_range_item_def split_once_def parse_uint_def digit_val_def
  byte_val_def starts_with_def graphic_def Let_def

text \<open>
  A start position between \<open>2^63\<close> and \<open>2^64\<close> is read as beyond the end; Go's parser, which reads
  64-bit signed numbers, calls the header malformed.
\<close>

lemma huge_start_beyond: "parse_byte_range_spec ''9223372036854775808-'' 10 = NoOverlap"
  by (simp add: range_eval)

text \<open>A suffix of length zero is an empty part at the end of the file for the Caddy file server
  and a refusal for the static site.\<close>

lemma empty_suffix:
  "parse_byte_range_spec ''-0'' 10 = Ranges [(10, 0)]" "parse_static_spec ''-0'' 10 = Some None"
  by (simp_all add: range_eval parse_static_spec_def)

end
