(* ===== verification/Rust_Float.thy ===== *)
theory Rust_Float
  imports Complex_Main "HOL-Library.Multiset" Rust_Text
begin

text \<open>
  \<open>parse::<f32>\<close> and \<open>parse::<f64>\<close> of the standard library: the grammar of decimal floats and
  the correctly rounded result (to nearest, ties to even).  A finite value is kept as the
  rational number it denotes; infinities and NaN are one value, the code only ever finds that
  they are in no interval.  Also \<open>slice::sort_by\<close>.
\<close>

datatype float_value = Finite rat | NotFinite

definition digits_value :: "string \<Rightarrow> nat" where
  "digits_value ds = foldl (\<lambda>n c. n * 10 + (byte_val c - 48)) 0 ds"

definition pow_int :: "rat \<Rightarrow> int \<Rightarrow> rat" where
  "pow_int b e = (if 0 \<le> e then b ^ nat e else 1 / b ^ nat (- e))"

definition parse_exponent :: "string \<Rightarrow> int option" where
  "parse_exponent s =
     (case s of
        [] \<Rightarrow> Some 0
      | c # t \<Rightarrow>
          if c = CHR ''e'' \<or> c = CHR ''E'' then
            (let neg = starts_with t ''-'';
                 ds = (if neg \<or> starts_with t ''+'' then tl t else t)
             in if ds = [] \<or> \<not> list_all is_ascii_digit ds then None
                else Some (if neg then - int (digits_value ds) else int (digits_value ds)))
          else None)"

definition parse_decimal :: "string \<Rightarrow> rat option" where
  "parse_decimal s =
     (let ip = takeWhile is_ascii_digit s; r = dropWhile is_ascii_digit s;
          (fp, r) = (if starts_with r ''.''
                     then (takeWhile is_ascii_digit (tl r), dropWhile is_ascii_digit (tl r)) else ([], r))
      in if ip = [] \<and> fp = [] then None
         else map_option (\<lambda>e. of_nat (digits_value (ip @ fp)) * pow_int 10 (e - int (length fp)))
                (parse_exponent r))"

definition round_half_even :: "rat \<Rightarrow> int" where
  "round_half_even x =
     (let f = floor x; d = x - of_int f
      in if d < 1 / 2 then f else if d > 1 / 2 then f + 1 else if even f then f else f + 1)"

text \<open>The exponent of a positive number, not below \<open>- emin\<close> and not above \<open>emax\<close>.\<close>

definition float_exponent :: "nat \<Rightarrow> nat \<Rightarrow> rat \<Rightarrow> int" where
  "float_exponent emin emax x =
     (if 1 \<le> x then (case find (\<lambda>k. x < 2 ^ (k + 1)) [0..<emax] of Some k \<Rightarrow> int k | None \<Rightarrow> int emax)
      else (case find (\<lambda>k. 1 \<le> x * 2 ^ k) [1..<emin] of Some k \<Rightarrow> - int k | None \<Rightarrow> - int emin))"

definition round_float :: "nat \<Rightarrow> nat \<Rightarrow> nat \<Rightarrow> rat \<Rightarrow> float_value" where
  "round_float prec emin emax x =
     (if x = 0 then Finite 0
      else
        (let ulp = pow_int 2 (float_exponent emin emax x - int prec + 1);
             r = of_int (round_half_even (x / ulp)) * ulp
         in if 2 ^ emax \<le> r then NotFinite else Finite r))"

definition neg_float :: "float_value \<Rightarrow> float_value" where
  "neg_float v = (case v of Finite x \<Rightarrow> Finite (- x) | NotFinite \<Rightarrow> NotFinite)"

definition parse_float :: "nat \<Rightarrow> nat \<Rightarrow> nat \<Rightarrow> string \<Rightarrow> float_value option" where
  "parse_float prec emin emax s =
     (let neg = starts_with s ''-''; t = (if neg \<or> starts_with s ''+'' then tl s else s)
      in if to_ascii_lowercase t \<in> {''inf'', ''infinity'', ''nan''} then Some NotFinite
         else map_option (\<lambda>x. let v = round_float prec emin emax x in if neg then neg_float v else v)
                (parse_decimal t))"

definition parse_f32 :: "string \<Rightarrow> float_value option" where
  "parse_f32 s = parse_float 24 126 128 s"

definition parse_f64 :: "string \<Rightarrow> float_value option" where
  "parse_f64 s = parse_float 53 1022 1024 s"

text \<open>
  \<open>sort_by\<close>: the stable sort.  This is the insertion sort the library runs on up to twenty
  elements; for longer slices it gives the same list whenever the comparison is a total order,
  and may panic when it is not.  \<open>lt\<close> is \<open>cmp == Less\<close>.
\<close>

fun insert_tail :: "('a \<Rightarrow> 'a \<Rightarrow> bool) \<Rightarrow> 'a \<Rightarrow> 'a list \<Rightarrow> 'a list" where
  "insert_tail lt x [] = [x]"
| "insert_tail lt x (y # ys) = (if lt x y then y # insert_tail lt x ys else x # y # ys)"

definition sort_by :: "('a \<Rightarrow> 'a \<Rightarrow> bool) \<Rightarrow> 'a list \<Rightarrow> 'a list" where
  "sort_by lt xs = rev (foldl (\<lambda>acc x. insert_tail lt x acc) [] xs)"

lemma mset_insert_tail: "mset (insert_tail lt x ys) = add_mset x (mset ys)"
  by (induction ys) auto

lemma mset_sort_by [simp]: "mset (sort_by lt xs) = mset xs"
proof -
  have "mset (foldl (\<lambda>acc x. insert_tail lt x acc) acc xs) = mset acc + mset xs" for acc
    by (induction xs arbitrary: acc) (auto simp: mset_insert_tail)
  then show ?thesis by (simp add: sort_by_def)
qed

text \<open>With a comparison that is a total preorder on the elements the result is sorted.\<close>

lemma insert_tail_sorted:
  assumes "\<And>a b c. a \<in> insert x (set ys) \<Longrightarrow> b \<in> insert x (set ys) \<Longrightarrow> c \<in> insert x (set ys) \<Longrightarrow>
      \<not> lt b a \<Longrightarrow> \<not> lt c b \<Longrightarrow> \<not> lt c a"
    and "\<And>a b. a \<in> insert x (set ys) \<Longrightarrow> b \<in> insert x (set ys) \<Longrightarrow> lt a b \<Longrightarrow> \<not> lt b a"
    and "sorted_wrt (\<lambda>a b. \<not> lt a b) ys"
  shows "sorted_wrt (\<lambda>a b. \<not> lt a b) (insert_tail lt x ys)"
  using assms
proof (induction ys)
  case Nil
  show ?case by simp
next
  case (Cons y ys)
  have set: "set (insert_tail lt x ys) = insert x (set ys)"
    by (metis mset_insert_tail set_mset_add_mset_insert set_mset_mset)
  show ?case
  proof (cases "lt x y")
    case True
    have "sorted_wrt (\<lambda>a b. \<not> lt a b) (insert_tail lt x ys)"
    proof (rule Cons.IH)
      show "\<not> lt c a" if "a \<in> insert x (set ys)" "b \<in> insert x (set ys)" "c \<in> insert x (set ys)"
          "\<not> lt b a" "\<not> lt c b" for a b c
        using Cons.prems(1) [of a b c] that by auto
      show "\<not> lt b a" if "a \<in> insert x (set ys)" "b \<in> insert x (set ys)" "lt a b" for a b
        using Cons.prems(2) [of a b] that by auto
    qed (use Cons.prems(3) in simp)
    moreover have "\<not> lt y x" using Cons.prems(2) [of x y] True by simp
    ultimately show ?thesis using True Cons.prems(3) set by simp
  next
    case False
    have "\<not> lt x z" if "z \<in> set ys" for z
      using Cons.prems(1) [of z y x] Cons.prems(3) that False by simp
    with False Cons.prems(3) show ?thesis by simp
  qed
qed

lemma sort_by_sorted:
  assumes "\<And>a b c. a \<in> set xs \<Longrightarrow> b \<in> set xs \<Longrightarrow> c \<in> set xs \<Longrightarrow> \<not> lt b a \<Longrightarrow> \<not> lt c b \<Longrightarrow> \<not> lt c a"
    and "\<And>a b. a \<in> set xs \<Longrightarrow> b \<in> set xs \<Longrightarrow> lt a b \<Longrightarrow> \<not> lt b a"
  shows "sorted_wrt (\<lambda>a b. \<not> lt b a) (sort_by lt xs)"
proof -
  have "sorted_wrt (\<lambda>a b. \<not> lt a b) (foldl (\<lambda>acc x. insert_tail lt x acc) acc zs)"
    if "set acc \<union> set zs \<subseteq> set xs" and "sorted_wrt (\<lambda>a b. \<not> lt a b) acc" for acc zs
    using that
  proof (induction zs arbitrary: acc)
    case (Cons z zs)
    have "sorted_wrt (\<lambda>a b. \<not> lt a b) (insert_tail lt z acc)"
    proof (rule insert_tail_sorted)
      have sub: "insert z (set acc) \<subseteq> set xs" using Cons.prems by simp
      show "\<not> lt c a" if "a \<in> insert z (set acc)" "b \<in> insert z (set acc)" "c \<in> insert z (set acc)"
          "\<not> lt b a" "\<not> lt c b" for a b c
        using that sub by (intro assms(1) [of a b c]) blast+
      show "\<not> lt b a" if "a \<in> insert z (set acc)" "b \<in> insert z (set acc)" "lt a b" for a b
        using that sub by (intro assms(2)) blast+
    qed (use Cons.prems in simp)
    moreover have "set (insert_tail lt z acc) = insert z (set acc)"
      by (metis mset_insert_tail set_mset_add_mset_insert set_mset_mset)
    ultimately show ?case using Cons by simp
  qed simp
  then have "sorted_wrt (\<lambda>a b. \<not> lt a b) (foldl (\<lambda>acc x. insert_tail lt x acc) [] xs)" by simp
  then show ?thesis by (simp add: sort_by_def sorted_wrt_rev)
qed

end
