(* ===== verification/Compress.thy ===== *)
theory Compress
  imports Rust_Float Json Conditional
begin

text \<open>
  The Caddy \<open>encode\<close> handler, \<open>src/src/helpers/compress.rs\<close>: the configuration with its
  defaults, the negotiation of \<open>Accept-Encoding\<close>, the decision whether a response is
  compressed, and the headers of a compressed response.  The same negotiation in
  \<open>src/src/server/caddy.rs\<close> chooses a precompressed file.

  The compressors themselves (flate2, zstd) are libraries.  A quality value is the rational
  number its float denotes: the differences the code compares are exact in 64-bit floats, since
  two accepted values lie between \<open>10^-5\<close> and 1 and differ by a multiple of their spacing.
\<close>

definition DEFAULT_MIN_LENGTH :: nat where "DEFAULT_MIN_LENGTH = 512"
definition DEFAULT_GZIP_LEVEL :: int where "DEFAULT_GZIP_LEVEL = 5"
definition DEFAULT_PREFER :: "string list" where "DEFAULT_PREFER = [''zstd'', ''gzip'']"
definition ZSTD_DEFAULT_LEVEL :: int where "ZSTD_DEFAULT_LEVEL = 3"

definition DEFAULT_CONTENT_TYPES :: "string list" where
  "DEFAULT_CONTENT_TYPES = [''application/atom+xml*'', ''application/eot*'', ''application/font*'',
     ''application/geo+json*'', ''application/graphql+json*'', ''application/graphql-response+json*'',
     ''application/javascript*'', ''application/json*'', ''application/ld+json*'',
     ''application/manifest+json*'', ''application/opentype*'', ''application/otf*'',
     ''application/rss+xml*'', ''application/truetype*'', ''application/ttf*'',
     ''application/vnd.api+json*'', ''application/vnd.ms-fontobject*'', ''application/wasm*'',
     ''application/x-httpd-cgi*'', ''application/x-javascript*'', ''application/x-opentype*'',
     ''application/x-otf*'', ''application/x-perl*'', ''application/x-protobuf*'', ''application/x-ttf*'',
     ''application/xhtml+xml*'', ''application/xml*'', ''font/ttf*'', ''font/otf*'', ''image/svg+xml*'',
     ''image/vnd.microsoft.icon*'', ''image/x-icon*'', ''multipart/bag*'', ''multipart/mixed*'', ''text/*'']"

type_synonym header_patterns = "(string \<times> string list option) list"

record response_matcher =
  rm_status_code :: "int list"
  rm_headers :: header_patterns

record encode_config_raw =
  raw_minimum_length :: int
  raw_prefer :: "string list"
  raw_encodings :: "(string \<times> json) list"
  raw_matcher :: "response_matcher option"

datatype encoder_spec = Gzip int | Zstd int bool

record encode_config =
  ec_min_length :: nat
  ec_prefer :: "string list"
  ec_encoders :: "(string, encoder_spec) store"
  ec_matcher :: response_matcher

subsection \<open>Configuration\<close>

definition zstd_level :: "string \<Rightarrow> int" where
  "zstd_level name =
     (if name = ''fastest'' then 1 else if name = ''better'' then 7
      else if name = ''best'' then 11 else ZSTD_DEFAULT_LEVEL)"

text \<open>\<open>l as i32\<close> keeps the low 32 bits.\<close>

definition as_i32 :: "int \<Rightarrow> int" where
  "as_i32 i = sint (word_of_int i :: u32)"

definition resolve_encoder :: "string \<Rightarrow> json \<Rightarrow> encoder_spec option" where
  "resolve_encoder name v =
     (if name = ''gzip'' then
        (let level = (case Option.bind (json_get v ''level'') as_i64 of
                        Some l \<Rightarrow> if as_i32 l \<noteq> 0 then as_i32 l else DEFAULT_GZIP_LEVEL
                      | None \<Rightarrow> DEFAULT_GZIP_LEVEL)
         in Some (Gzip level))
      else if name = ''zstd'' then
        (let level = (case Option.bind (json_get v ''level'') as_str of
                        Some n \<Rightarrow> zstd_level n | None \<Rightarrow> ZSTD_DEFAULT_LEVEL);
             checksum = (case Option.bind (json_get v ''checksum'') as_bool of Some b \<Rightarrow> b | None \<Rightarrow> False)
         in Some (Zstd level checksum))
      else None)"

definition default_text :: response_matcher where
  "default_text = \<lparr>rm_status_code = [], rm_headers = [(''Content-Type'', Some DEFAULT_CONTENT_TYPES)]\<rparr>"

definition resolve_encoders :: "(string \<times> json) list \<Rightarrow> (string, encoder_spec) store" where
  "resolve_encoders encs =
     fold (\<lambda>(name, v) m. case resolve_encoder name v of Some sp \<Rightarrow> store_put name sp m | None \<Rightarrow> m) encs []"

definition resolve_config :: "encode_config_raw \<Rightarrow> encode_config option" where
  "resolve_config raw =
     (let encoders = resolve_encoders (raw_encodings raw)
      in if encoders = [] then None
         else
           (let configured = filter (\<lambda>n. store_get encoders n \<noteq> None) (raw_prefer raw);
                prefer = (if configured = [] then filter (\<lambda>n. store_get encoders n \<noteq> None) DEFAULT_PREFER
                          else configured)
            in Some \<lparr>ec_min_length = (if raw_minimum_length raw \<le> 0 then DEFAULT_MIN_LENGTH
                                       else nat (raw_minimum_length raw)),
                     ec_prefer = prefer, ec_encoders = encoders,
                     ec_matcher = (case raw_matcher raw of Some m \<Rightarrow> m | None \<Rightarrow> default_text)\<rparr>))"

subsection \<open>The response matcher\<close>

text \<open>\<open>i64\<close> multiplication wraps.\<close>

definition i64_wrap :: "int \<Rightarrow> int" where
  "i64_wrap i = sint (word_of_int i :: u64)"

definition status_code_matches :: "int \<Rightarrow> int \<Rightarrow> bool" where
  "status_code_matches actual configured =
     (actual = configured
      \<or> (configured < 100 \<and> actual \<ge> i64_wrap (configured * 100) \<and> actual < i64_wrap ((configured + 1) * 100)))"

definition header_value_matches :: "string \<Rightarrow> string \<Rightarrow> bool" where
  "header_value_matches actual pattern =
     (if pattern = ''*'' then True
      else
        (let starts = starts_with pattern ''*''; ends = ends_with pattern ''*''
         in if starts \<and> ends then
              (let inner = butlast (tl pattern) in inner = [] \<or> str_contains actual inner)
            else if starts then ends_with actual (tl pattern)
            else if ends then starts_with actual (butlast pattern)
            else actual = pattern))"

definition match_status :: "response_matcher \<Rightarrow> int \<Rightarrow> bool" where
  "match_status m status =
     (rm_status_code m = [] \<or> list_ex (status_code_matches status) (rm_status_code m))"

definition field_matches :: "string list option \<Rightarrow> string list \<Rightarrow> bool" where
  "field_matches allowed actual =
     (case allowed of
        Some [] \<Rightarrow> actual \<noteq> []
      | None \<Rightarrow> actual = []
      | Some patterns \<Rightarrow> list_ex (\<lambda>v. list_ex (header_value_matches v) patterns) actual)"

definition matcher_matches :: "response_matcher \<Rightarrow> int \<Rightarrow> (string \<Rightarrow> string list) \<Rightarrow> bool" where
  "matcher_matches m status header_lookup =
     (match_status m status
      \<and> list_all (\<lambda>(field, allowed). field_matches allowed (header_lookup field)) (rm_headers m))"

subsection \<open>Negotiation\<close>

record encoding_preference =
  ep_encoding :: string
  ep_q :: rat
  ep_order :: int

text \<open>The 64-bit float written \<open>0.00001\<close>.\<close>

definition Q_EPSILON :: rat where
  "Q_EPSILON = 5902958103587057 / 2 ^ 69"

text \<open>The quality in the parameters after the encoding; anything unreadable counts as 1.\<close>

definition q_factor :: "(string \<Rightarrow> float_value option) \<Rightarrow> string list \<Rightarrow> rat" where
  "q_factor parse params =
     (case params of
        [] \<Rightarrow> 1
      | p # _ \<Rightarrow>
          (case strip_prefix (to_ascii_lowercase (str_trim p)) ''q='' of
             None \<Rightarrow> 1
           | Some rest \<Rightarrow>
               (case parse rest of
                  Some (Finite x) \<Rightarrow> if 0 \<le> x \<and> x \<le> 1 then x else 1
                | _ \<Rightarrow> 1)))"

fun position :: "'a \<Rightarrow> 'a list \<Rightarrow> nat option" where
  "position x [] = None"
| "position x (y # ys) = (if y = x then Some 0 else map_option Suc (position x ys))"

definition accept_preference :: "string \<Rightarrow> string list \<Rightarrow> string \<Rightarrow> encoding_preference option" where
  "accept_preference sec_websocket_key prefer accepted =
     (let parts = split_on (CHR '';'') accepted;
          enc_name = to_ascii_lowercase (str_trim (hd parts));
          q = q_factor parse_f32 (tl parts)
      in if enc_name = [] then None
         else if q < Q_EPSILON then None
         else if sec_websocket_key \<noteq> [] \<and> enc_name \<noteq> ''identity'' then None
         else Some \<lparr>ep_encoding = enc_name, ep_q = q,
                ep_order = (case position enc_name prefer of
                              Some i \<Rightarrow> int (length prefer) - int i | None \<Rightarrow> -1)\<rparr>)"

text \<open>The comparison \<open>sort_by\<close> is given: does the first argument come strictly before the second?\<close>

definition preferred :: "encoding_preference \<Rightarrow> encoding_preference \<Rightarrow> bool" where
  "preferred a b =
     (if \<bar>ep_q a - ep_q b\<bar> < Q_EPSILON then ep_order b < ep_order a else ep_q b < ep_q a)"

definition accepted_prefs :: "string \<Rightarrow> string \<Rightarrow> string list \<Rightarrow> encoding_preference list" where
  "accepted_prefs accept_encoding sec_websocket_key prefer =
     List.map_filter (accept_preference sec_websocket_key prefer) (split_on (CHR '','') accept_encoding)"

definition accepted_encodings :: "string \<Rightarrow> string \<Rightarrow> string list \<Rightarrow> string list" where
  "accepted_encodings accept_encoding sec_websocket_key prefer =
     (if accept_encoding = [] then []
      else map ep_encoding (sort_by preferred (accepted_prefs accept_encoding sec_websocket_key prefer)))"

definition negotiate :: "encode_config \<Rightarrow> string \<Rightarrow> string \<Rightarrow> (string \<times> encoder_spec) option" where
  "negotiate cfg accept_encoding sec_websocket_key =
     (case find (\<lambda>name. store_get (ec_encoders cfg) name \<noteq> None)
             (accepted_encodings accept_encoding sec_websocket_key (ec_prefer cfg)) of
        None \<Rightarrow> None
      | Some name \<Rightarrow> map_option (Pair name) (store_get (ec_encoders cfg) name))"

definition encode_allowed :: "string option \<Rightarrow> bool" where
  "encode_allowed cache_control =
     (\<not> str_contains (case cache_control of Some v \<Rightarrow> v | None \<Rightarrow> []) ''no-transform'')"

subsection \<open>The decision\<close>

record encode_state =
  es_config :: encode_config
  es_accept_encoding :: string
  es_sec_websocket_key :: string

definition from_request_headers :: "http_lib \<Rightarrow> encode_config \<Rightarrow> header_map \<Rightarrow> encode_state" where
  "from_request_headers lib cfg headers =
     (let get = (\<lambda>name. case hm_get_str lib headers name of Some v \<Rightarrow> v | None \<Rightarrow> [])
      in \<lparr>es_config = cfg, es_accept_encoding = get ''accept-encoding'',
          es_sec_websocket_key = get ''sec-websocket-key''\<rparr>)"

definition header_values :: "http_lib \<Rightarrow> header_map \<Rightarrow> string \<Rightarrow> string list" where
  "header_values lib headers field =
     filter (value_to_str lib) (hm_get_all headers (to_ascii_lowercase field))"

definition decide ::
  "http_lib \<Rightarrow> encode_state \<Rightarrow> nat \<Rightarrow> header_map \<Rightarrow> nat option \<Rightarrow> (string \<times> encoder_spec) option" where
  "decide lib st status headers body_len =
     (if (case hm_get headers ''content-encoding'' of Some ce \<Rightarrow> ce \<noteq> [] | None \<Rightarrow> False) then None
      else if \<not> encode_allowed (hm_get_str lib headers ''cache-control'') then None
      else if \<not> matcher_matches (ec_matcher (es_config st)) (int status) (header_values lib headers) then None
      else case negotiate (es_config st) (es_accept_encoding st) (es_sec_websocket_key st) of
             None \<Rightarrow> None
           | Some chosen \<Rightarrow>
               if (case body_len of Some len \<Rightarrow> len \<le> ec_min_length (es_config st) | None \<Rightarrow> False) then None
               else Some chosen)"

definition vary_has_accept_encoding :: "http_lib \<Rightarrow> header_map \<Rightarrow> bool" where
  "vary_has_accept_encoding lib headers =
     list_ex (\<lambda>v. value_to_str lib v \<and>
         list_ex (\<lambda>tok. eq_ignore_ascii_case (str_trim tok) ''accept-encoding'') (split_on (CHR '','') v))
       (hm_get_all headers ''vary'')"

definition suffixed_etag :: "string \<Rightarrow> string \<Rightarrow> string" where
  "suffixed_etag etag encoding =
     (case strip_suffix etag [CHR 0x22] of Some t \<Rightarrow> t | None \<Rightarrow> etag) @ ''-'' @ encoding @ [CHR 0x22]"

definition apply_encoding_headers :: "http_lib \<Rightarrow> header_map \<Rightarrow> string \<Rightarrow> header_map" where
  "apply_encoding_headers lib headers encoding =
     (let h = hm_remove ''content-length'' headers;
          h = (if value_from_str lib encoding then hm_insert ''content-encoding'' encoding h else h);
          h = (if vary_has_accept_encoding lib h then h else hm_append ''vary'' ''Accept-Encoding'' h);
          h = hm_remove ''accept-ranges'' h
      in case hm_get_str lib h ''etag'' of
           Some etag \<Rightarrow>
             if starts_with etag ''W/'' then h
             else if value_from_str lib (suffixed_etag etag encoding)
             then hm_insert ''etag'' (suffixed_etag etag encoding) h else h
         | None \<Rightarrow> h)"

subsection \<open>The precompressed files of the file server\<close>

text \<open>The same negotiation with 64-bit floats; the encoding may be empty here, and a WebSocket
  handshake accepts nothing.\<close>

definition precompressed_preference :: "string list \<Rightarrow> string \<Rightarrow> encoding_preference option" where
  "precompressed_preference order raw =
     (let parts = split_on (CHR '';'') raw;
          enc = to_ascii_lowercase (str_trim (hd parts));
          q = q_factor parse_f64 (tl parts)
      in if q < Q_EPSILON then None
         else Some \<lparr>ep_encoding = enc, ep_q = q,
                ep_order = (case position enc order of
                              Some i \<Rightarrow> int (length order) - int i | None \<Rightarrow> 0)\<rparr>)"

definition accepted_caddy_precompressed_encodings ::
  "http_lib \<Rightarrow> header_map \<Rightarrow> string list \<Rightarrow> string list" where
  "accepted_caddy_precompressed_encodings lib headers precompressed_order =
     (if (case hm_get headers ''sec-websocket-key'' of Some v \<Rightarrow> v \<noteq> [] | None \<Rightarrow> False) then []
      else case hm_get_str lib headers ''accept-encoding'' of
             None \<Rightarrow> []
           | Some value \<Rightarrow>
               map ep_encoding (sort_by preferred
                 (List.map_filter (precompressed_preference (map to_ascii_lowercase precompressed_order))
                    (split_on (CHR '','') value))))"

text \<open>The first accepted encoding that is configured and has a sidecar file in the site.\<close>

definition sidecar_suffix :: "string \<Rightarrow> string option" where
  "sidecar_suffix encoding =
     (if encoding = ''gzip'' then Some ''.gz'' else if encoding = ''br'' then Some ''.br''
      else if encoding = ''zstd'' then Some ''.zst'' else None)"

definition get_site_entry :: "site \<Rightarrow> string \<Rightarrow> tar_entry option" where
  "get_site_entry s path = (if starts_with path ''.zeroserve/'' then None else store_get (entries s) path)"

fun first_sidecar :: "site \<Rightarrow> string \<Rightarrow> string list \<Rightarrow> string list \<Rightarrow> (tar_entry \<times> string) option" where
  "first_sidecar s path configured [] = None"
| "first_sidecar s path configured (enc # encs) =
     (case sidecar_suffix enc of
        None \<Rightarrow> first_sidecar s path configured encs
      | Some sfx \<Rightarrow>
          if enc \<notin> set configured then first_sidecar s path configured encs
          else case get_site_entry s (path @ sfx) of
                 None \<Rightarrow> first_sidecar s path configured encs
               | Some e \<Rightarrow> Some (e, enc))"

definition select_caddy_precompressed_entry ::
  "http_lib \<Rightarrow> header_map \<Rightarrow> site \<Rightarrow> tar_entry \<Rightarrow> string list \<Rightarrow> string list
     \<Rightarrow> (tar_entry \<times> string) option" where
  "select_caddy_precompressed_entry lib headers s e configured order =
     (if configured = [] then None
      else first_sidecar s (te_path e) configured
             (accepted_caddy_precompressed_encodings lib headers order))"

subsection \<open>The negotiation chooses the best acceptable encoding\<close>

lemma find_split: "find P xs = Some x \<Longrightarrow> \<exists>as bs. xs = as @ x # bs \<and> (\<forall>a \<in> set as. \<not> P a) \<and> P x"
proof (induction xs)
  case (Cons y ys)
  show ?case
  proof (cases "P y")
    case True
    then show ?thesis using Cons.prems by (intro exI [of _ "[]"] exI [of _ ys]) simp
  next
    case False
    then obtain as bs where "ys = as @ x # bs" "\<forall>a \<in> set as. \<not> P a" "P x" using Cons by auto
    then show ?thesis using False by (intro exI [of _ "y # as"] exI [of _ bs]) simp
  qed
qed simp

definition well_separated :: "encoding_preference list \<Rightarrow> bool" where
  "well_separated prefs =
     (\<forall>a \<in> set prefs. \<forall>b \<in> set prefs. ep_q a = ep_q b \<or> Q_EPSILON \<le> \<bar>ep_q a - ep_q b\<bar>)"

lemma preferred_separated:
  assumes "well_separated prefs" and "a \<in> set prefs" and "b \<in> set prefs"
  shows "preferred a b \<longleftrightarrow> (ep_q b < ep_q a \<or> (ep_q a = ep_q b \<and> ep_order b < ep_order a))"
proof -
  have "ep_q a = ep_q b \<or> Q_EPSILON \<le> \<bar>ep_q a - ep_q b\<bar>" using assms by (auto simp: well_separated_def)
  then show ?thesis by (auto simp: preferred_def Q_EPSILON_def)
qed

lemma sort_preferred:
  assumes "well_separated prefs"
  shows "sorted_wrt (\<lambda>a b. \<not> preferred b a) (sort_by preferred prefs)"
  by (rule sort_by_sorted) (auto simp: preferred_separated [OF assms])


text \<open>C23. 
  The negotiation is sound, complete and optimal: the encoding chosen is configured and listed
  by the client with a quality above zero; none is chosen only if no configured encoding is
  listed so; and when the qualities in the header are equal or at least the comparison's
  tolerance apart, no other candidate has a higher quality, or the same quality and a better
  place in the server's order.
\<close>

theorem negotiate_best:
  assumes "accept_encoding \<noteq> []"
  shows "case negotiate cfg accept_encoding key of
      None \<Rightarrow> \<forall>p \<in> set (accepted_prefs accept_encoding key (ec_prefer cfg)).
                store_get (ec_encoders cfg) (ep_encoding p) = None
    | Some (name, spec) \<Rightarrow> store_get (ec_encoders cfg) name = Some spec \<and>
        (\<exists>p \<in> set (accepted_prefs accept_encoding key (ec_prefer cfg)). ep_encoding p = name \<and>
           (well_separated (accepted_prefs accept_encoding key (ec_prefer cfg)) \<longrightarrow>
             (\<forall>r \<in> set (accepted_prefs accept_encoding key (ec_prefer cfg)).
                store_get (ec_encoders cfg) (ep_encoding r) \<noteq> None \<longrightarrow>
                  ep_q r < ep_q p \<or> (ep_q r = ep_q p \<and> ep_order r \<le> ep_order p))))"
proof -
  let ?prefs = "accepted_prefs accept_encoding key (ec_prefer cfg)"
  let ?sorted = "sort_by preferred ?prefs"
  let ?ok = "\<lambda>name. store_get (ec_encoders cfg) name \<noteq> None"
  have set: "set ?sorted = set ?prefs" by (metis mset_sort_by set_mset_mset)
  have neg: "negotiate cfg accept_encoding key = (case find ?ok (map ep_encoding ?sorted) of
      None \<Rightarrow> None | Some name \<Rightarrow> map_option (Pair name) (store_get (ec_encoders cfg) name))"
    using assms by (simp add: negotiate_def accepted_encodings_def)
  show ?thesis
  proof (cases "find ?ok (map ep_encoding ?sorted)")
    case None
    then have "negotiate cfg accept_encoding key = None" by (simp only: neg option.case)
    moreover have "\<forall>p \<in> set ?prefs. \<not> ?ok (ep_encoding p)" using None set by (simp add: find_None_iff)
    ultimately show ?thesis by simp
  next
    case (Some name)
    obtain as bs where split: "map ep_encoding ?sorted = as @ name # bs" "\<forall>a \<in> set as. \<not> ?ok a" "?ok name"
      using find_split [OF Some] by blast
    obtain ps p qs where ps: "?sorted = ps @ p # qs" "map ep_encoding ps = as" "ep_encoding p = name"
      using split(1) by (auto simp: map_eq_append_conv map_eq_Cons_conv)
    have best: "ep_q r < ep_q p \<or> (ep_q r = ep_q p \<and> ep_order r \<le> ep_order p)"
      if sep: "well_separated ?prefs" and r: "r \<in> set ?prefs" "?ok (ep_encoding r)" for r
    proof -
      have p: "p \<in> set ?prefs" using ps(1) set by (metis in_set_conv_decomp)
      have "ep_encoding r \<notin> set as" using r(2) split(2) by blast
      then have "r \<notin> set ps" using ps(2) by auto
      then have "r = p \<or> r \<in> set qs" using r(1) set ps(1) by auto
      then have "\<not> preferred r p" using sort_preferred [OF sep] ps(1)
        by (auto simp: sorted_wrt_append preferred_def Q_EPSILON_def)
      then show ?thesis unfolding preferred_separated [OF sep r(1) p] by auto
    qed
    have p: "p \<in> set ?prefs" using ps(1) set by (metis in_set_conv_decomp)
    obtain spec where spec: "store_get (ec_encoders cfg) name = Some spec" using split(3) by auto
    have n: "negotiate cfg accept_encoding key = Some (name, spec)"
      by (simp only: neg Some option.case spec option.map)
    have "well_separated ?prefs \<longrightarrow> (\<forall>r \<in> set ?prefs. ?ok (ep_encoding r) \<longrightarrow>
        ep_q r < ep_q p \<or> (ep_q r = ep_q p \<and> ep_order r \<le> ep_order p))"
      by (intro impI ballI best)
    then show ?thesis unfolding n option.case prod.case
      by (intro conjI spec bexI [OF _ p] ps(3))
  qed
qed

lemma float_exponent_half: "1 / 2 \<le> x \<Longrightarrow> x < 1 \<Longrightarrow> float_exponent 126 128 x = -1"
  by (simp add: float_exponent_def upt_conv_Cons)

lemma round_f32_half:
  assumes "1 / 2 \<le> x" and "x < 1"
  shows "round_float 24 126 128 x = Finite (of_int (round_half_even (x * 2 ^ 24)) / 2 ^ 24)"
proof -
  have "round_half_even (x * 2 ^ 24) \<le> 2 ^ 24"
    using assms by (auto simp: round_half_even_def Let_def floor_le_iff le_floor_iff floor_less_iff)
  then have "(of_int (round_half_even (x * 2 ^ 24)) :: rat) \<le> 2 ^ 24" 
    by (metis of_int_le_iff of_int_numeral of_int_power)
  then have "(of_int (round_half_even (x * 2 ^ 24)) / 2 ^ 24 :: rat) \<le> 1" by simp
  then have "\<not> (2 ^ 128 \<le> (of_int (round_half_even (x * 2 ^ 24)) / 2 ^ 24 :: rat))" by simp
  with assms show ?thesis
    by (simp add: round_float_def float_exponent_half pow_int_def Let_def)
qed

text \<open>The three entries of one header that prefer each other in a circle.\<close>

definition cyclic_header :: string where
  "cyclic_header = ''zstd;q=0.5,gzip;q=0.500006,x;q=0.500012''"

lemma cyclic_decimals:
  "parse_decimal ''0.5'' = Some (1 / 2)" "parse_decimal ''0.500006'' = Some (500006 / 10 ^ 6)"
  "parse_decimal ''0.500012'' = Some (500012 / 10 ^ 6)"
  by (simp_all add: parse_decimal_def parse_exponent_def is_ascii_digit_def byte_val_def starts_with_def
      digits_value_def pow_int_def)

lemma cyclic_floats:
  "parse_f32 ''0.5'' = Some (Finite (1 / 2))" "parse_f32 ''0.500006'' = Some (Finite (8388709 / 2 ^ 24))"
  "parse_f32 ''0.500012'' = Some (Finite (8388809 / 2 ^ 24))"
proof -
  have "\<lfloor>131073572864 / 15625 :: rat\<rfloor> = 8388708" "\<lfloor>131075145728 / 15625 :: rat\<rfloor> = 8388809"
    by (simp_all add: floor_eq_iff)
  then show "parse_f32 ''0.5'' = Some (Finite (1 / 2))" "parse_f32 ''0.500006'' = Some (Finite (8388709 / 2 ^ 24))"
      "parse_f32 ''0.500012'' = Some (Finite (8388809 / 2 ^ 24))"
    by (simp_all add: parse_f32_def parse_float_def cyclic_decimals starts_with_def to_ascii_lowercase_def
        to_ascii_lowercase1_def byte_val_def round_f32_half round_half_even_def Let_def)
qed

lemma cyclic_prefs:
  "accepted_prefs cyclic_header [] DEFAULT_PREFER =
     [\<lparr>ep_encoding = ''zstd'', ep_q = 1 / 2, ep_order = 2\<rparr>,
      \<lparr>ep_encoding = ''gzip'', ep_q = 8388709 / 2 ^ 24, ep_order = 1\<rparr>,
      \<lparr>ep_encoding = ''x'', ep_q = 8388809 / 2 ^ 24, ep_order = -1\<rparr>]"
  by (simp add: accepted_prefs_def cyclic_header_def accept_preference_def q_factor_def strip_prefix_def
      cyclic_floats DEFAULT_PREFER_def List.map_filter_def starts_with_def to_ascii_lowercase_def
      to_ascii_lowercase1_def byte_val_def graphic_def Q_EPSILON_def Let_def)

text \<open>
  The comparison the negotiation sorts with is not a total order: one short header holds three
  entries each of which comes before the next, the last before the first.  \<open>sort_by\<close> is
  documented to panic or to return any order on such a comparison, and the release profile
  aborts the process on a panic.
\<close>

theorem negotiation_order_cyclic:
  "\<exists>a b c. {a, b, c} \<subseteq> set (accepted_prefs cyclic_header [] DEFAULT_PREFER) \<and>
     preferred a b \<and> preferred b c \<and> preferred c a"
  unfolding cyclic_prefs
  by (intro exI [of _ "\<lparr>ep_encoding = ''zstd'', ep_q = 1 / 2, ep_order = 2\<rparr>"]
      exI [of _ "\<lparr>ep_encoding = ''gzip'', ep_q = 8388709 / 2 ^ 24, ep_order = 1\<rparr>"]
      exI [of _ "\<lparr>ep_encoding = ''x'', ep_q = 8388809 / 2 ^ 24, ep_order = -1\<rparr>"])
    (simp add: preferred_def Q_EPSILON_def)

subsection \<open>A response is compressed once\<close>

lemma resolve_encoders_names: "store_get (resolve_encoders encs) n = Some sp \<Longrightarrow> n \<in> {''gzip'', ''zstd''}"
proof -
  let ?step = "\<lambda>(name, v) m. case resolve_encoder name v of Some sp \<Rightarrow> store_put name sp m | None \<Rightarrow> m"
  have "\<forall>n. store_get (fold ?step encs m) n \<noteq> None \<longrightarrow> n \<in> {''gzip'', ''zstd''}"
    if "\<forall>n. store_get m n \<noteq> None \<longrightarrow> n \<in> {''gzip'', ''zstd''}" for m
    using that
  proof (induction encs arbitrary: m)
    case (Cons e encs)
    obtain name v where e: "e = (name, v)" by fastforce
    show ?case
    proof (cases "resolve_encoder name v")
      case None
      then show ?thesis using Cons e by simp
    next
      case (Some sp)
      then have "name \<in> {''gzip'', ''zstd''}" by (auto simp: resolve_encoder_def split: if_splits)
      then have "\<forall>n. store_get (store_put name sp m) n \<noteq> None \<longrightarrow> n \<in> {''gzip'', ''zstd''}"
        using Cons.prems by (auto simp: st.get_put split: if_splits)
      then show ?thesis using Cons.IH [of "store_put name sp m"] Some e by simp
    qed
  qed simp
  from this [of "[]"] show "store_get (resolve_encoders encs) n = Some sp \<Longrightarrow> n \<in> {''gzip'', ''zstd''}"
    by (simp add: resolve_encoders_def)
qed

lemma negotiate_name: "negotiate cfg ae key = Some (name, spec) \<Longrightarrow> store_get (ec_encoders cfg) name = Some spec"
  by (auto simp: negotiate_def split: option.splits)

lemma resolve_encoders_of: "resolve_config raw = Some cfg \<Longrightarrow> ec_encoders cfg = resolve_encoders (raw_encodings raw)"
  by (auto simp: resolve_config_def Let_def split: if_splits)

lemma decide_name:
  assumes "resolve_config raw = Some (es_config st)" and "decide lib st status headers len = Some (name, spec)"
  shows "name \<in> {''gzip'', ''zstd''}"
proof -
  have "negotiate (es_config st) (es_accept_encoding st) (es_sec_websocket_key st) = Some (name, spec)"
    using assms(2) by (auto simp: decide_def split: if_splits option.splits)
  from negotiate_name [OF this] show ?thesis
    unfolding resolve_encoders_of [OF assms(1)] by (rule resolve_encoders_names)
qed

lemma visible_names: "list_all visible ''gzip''" "list_all visible ''zstd''" "list_all visible ''Accept-Encoding''"
  by (simp_all add: visible_def byte_val_def)

lemma vary_appended:
  assumes "accepts_visible lib"
  shows "vary_has_accept_encoding lib (hm_append ''vary'' ''Accept-Encoding'' h)"
proof -
  have "value_to_str lib ''Accept-Encoding''" using assms visible_names(3) by (simp add: accepts_visible_def)
  moreover have "str_trim ''Accept-Encoding'' = ''Accept-Encoding''" by (simp add: graphic_def byte_val_def)
  moreover have "eq_ignore_ascii_case ''Accept-Encoding'' ''accept-encoding''" by code_simp
  ultimately show ?thesis by (simp add: vary_has_accept_encoding_def)
qed

lemma vary_only: "hm_get_all h ''vary'' = hm_get_all h' ''vary'' \<Longrightarrow>
    vary_has_accept_encoding lib h = vary_has_accept_encoding lib h'"
  by (simp add: vary_has_accept_encoding_def)

text \<open>
  What committing to an encoding does to the headers: the length of the uncompressed body is
  gone, the encoding is named, caches are told that the answer varies with
  \<open>Accept-Encoding\<close>, a strong entity tag is replaced by one of this encoding, and a second
  decision on these headers, with whatever settings, never compresses again.
\<close>

theorem compressed_once:
  assumes "resolve_config raw = Some (es_config st)" and "decide lib st status headers len = Some (name, spec)"
    and "store_wf headers" and "accepts_visible lib"
  shows "let h = apply_encoding_headers lib headers name in
     decide lib st' status' h len' = None \<and>
     hm_get h ''content-length'' = None \<and> hm_get h ''content-encoding'' = Some name \<and>
     hm_get h ''accept-ranges'' = None \<and> vary_has_accept_encoding lib h \<and>
     (\<forall>body. hm_get headers ''etag'' = Some (CHR 0x22 # body @ [CHR 0x22]) \<and> list_all visible body \<longrightarrow>
        hm_get h ''etag'' = Some (CHR 0x22 # body @ ''-'' @ name @ [CHR 0x22]))"
proof -
  have n: "name \<in> {''gzip'', ''zstd''}" by (rule decide_name [OF assms(1,2)])
  have v: "value_from_str lib name" using n visible_names assms(4) by (auto simp: accepts_visible_def)
  define h1 where "h1 = hm_insert ''content-encoding'' name (hm_remove ''content-length'' headers)"
  define h2 where "h2 = (if vary_has_accept_encoding lib h1 then h1 else hm_append ''vary'' ''Accept-Encoding'' h1)"
  define h3 where "h3 = hm_remove ''accept-ranges'' h2"
  define h where "h = apply_encoding_headers lib headers name"
  have wf: "store_wf h2" using assms(3) by (simp add: h2_def h1_def)
  have eq: "h = (case hm_get_str lib h3 ''etag'' of
      Some etag \<Rightarrow>
        if starts_with etag ''W/'' then h3
        else if value_from_str lib (suffixed_etag etag name)
        then hm_insert ''etag'' (suffixed_etag etag name) h3 else h3
    | None \<Rightarrow> h3)"
    unfolding h_def apply_encoding_headers_def h3_def h2_def h1_def Let_def using v by simp
  then have h: "h = h3 \<or> (\<exists>e. h = hm_insert ''etag'' e h3)" by (auto split: option.splits)
  have keep: "hm_get_all h k = hm_get_all h3 k" if "k \<noteq> ''etag''" for k
    using h that by auto
  have h3: "hm_get_all h3 k = (if k = ''accept-ranges'' then [] else hm_get_all h2 k)" for k
    using wf by (simp add: h3_def)
  have "vary_has_accept_encoding lib h2"
    using vary_appended [OF assms(4)] by (simp add: h2_def)
  then have vary: "vary_has_accept_encoding lib h"
    using vary_only [of h h2 lib] keep [of "''vary''"] h3 by simp
  have ce: "hm_get h ''content-encoding'' = Some name" "hm_get h ''content-length'' = None"
      "hm_get h ''accept-ranges'' = None"
    using keep h3 assms(3) by (simp_all add: hm_get_def h2_def h1_def)
  have "decide lib st' status' h len' = None" using ce(1) n by (auto simp: decide_def)
  moreover have "hm_get h ''etag'' = Some (CHR 0x22 # body @ ''-'' @ name @ [CHR 0x22])"
    if e: "hm_get headers ''etag'' = Some (CHR 0x22 # body @ [CHR 0x22])" and b: "list_all visible body" for body
  proof -
    let ?e = "CHR 0x22 # body @ [CHR 0x22]"
    have q: "visible (CHR 0x22)" "visible (CHR ''-'')" by (simp_all add: visible_def byte_val_def)
    then have "value_to_str lib ?e" using b assms(4) by (simp add: accepts_visible_def)
    moreover have "hm_get h3 ''etag'' = Some ?e"
      using e h3 assms(3) by (simp add: hm_get_def h2_def h1_def)
    ultimately have str: "hm_get_str lib h3 ''etag'' = Some ?e" by (simp add: hm_get_str_def)
    have sfx: "suffixed_etag ?e name = CHR 0x22 # body @ ''-'' @ name @ [CHR 0x22]"
      using strip_suffix_append [of "CHR 0x22 # body" "[CHR 0x22]"] by (simp add: suffixed_etag_def)
    have "list_all visible name" using n visible_names by auto
    then have "value_from_str lib (suffixed_etag ?e name)"
      using q b assms(4) by (simp add: accepts_visible_def sfx)
    then have "h = hm_insert ''etag'' (suffixed_etag ?e name) h3"
      by (simp add: eq str starts_with_def)
    then show ?thesis by (simp add: sfx)
  qed
  ultimately show ?thesis using ce vary by (simp add: Let_def h_def)
qed

definition sample_raw :: encode_config_raw where
  "sample_raw = \<lparr>raw_minimum_length = 0, raw_prefer = [], raw_encodings = [(''gzip'', JObj []), (''zstd'', JObj [])],
     raw_matcher = Some \<lparr>rm_status_code = [], rm_headers = []\<rparr>\<rparr>"

definition sample_config :: encode_config where
  "sample_config = \<lparr>ec_min_length = 512, ec_prefer = [''zstd'', ''gzip''],
     ec_encoders = [(''gzip'', Gzip 5), (''zstd'', Zstd 3 False)],
     ec_matcher = \<lparr>rm_status_code = [], rm_headers = []\<rparr>\<rparr>"

lemma accepts_visible_lib: "accepts_visible visible_lib"
  by (simp add: accepts_visible_def visible_lib_def)

lemma sample_resolve: "resolve_config sample_raw = Some sample_config"
  by code_simp

lemma sample_prefs:
  "accepted_prefs ''gzip, zstd'' [] [''zstd'', ''gzip''] =
     [\<lparr>ep_encoding = ''gzip'', ep_q = 1, ep_order = 1\<rparr>, \<lparr>ep_encoding = ''zstd'', ep_q = 1, ep_order = 2\<rparr>]"
  by (simp add: accepted_prefs_def accept_preference_def q_factor_def List.map_filter_def
      to_ascii_lowercase_def to_ascii_lowercase1_def byte_val_def graphic_def str_trim_space
      Q_EPSILON_def Let_def)

lemma sample_negotiate: "negotiate sample_config ''gzip, zstd'' [] = Some (''zstd'', Zstd 3 False)"
  by (simp add: negotiate_def accepted_encodings_def sample_config_def sample_prefs sort_by_def preferred_def
      Q_EPSILON_def store_get_def)

theorem negotiate_best_witness:
  "''gzip, zstd'' \<noteq> [] \<and> negotiate sample_config ''gzip, zstd'' [] = Some (''zstd'', Zstd 3 False) \<and>
     (\<exists>p \<in> set (accepted_prefs ''gzip, zstd'' [] (ec_prefer sample_config)). ep_encoding p = ''zstd'')"
  using negotiate_best [where cfg = sample_config and accept_encoding = "''gzip, zstd''" and key = "[]"] by (auto simp: sample_negotiate)

theorem compressed_once_witness:
  "\<exists>st. resolve_config sample_raw = Some (es_config st) \<and>
     decide visible_lib st 200 [(''content-length'', [''900''])] (Some 900) = Some (''zstd'', Zstd 3 False) \<and>
     decide visible_lib st 200 (apply_encoding_headers visible_lib [(''content-length'', [''900''])] ''zstd'') None = None"
proof -
  let ?st = "\<lparr>es_config = sample_config, es_accept_encoding = ''gzip, zstd'', es_sec_websocket_key = []\<rparr>"
  have r: "resolve_config sample_raw = Some (es_config ?st)" by (simp add: sample_resolve)
  have d: "decide visible_lib ?st 200 [(''content-length'', [''900''])] (Some 900) = Some (''zstd'', Zstd 3 False)"
    by (simp add: decide_def sample_negotiate hm_get_def hm_get_all_def store_get_def encode_allowed_def
        hm_get_str_def str_contains_def matcher_matches_def match_status_def)
      (simp add: sample_config_def)
  have w: "store_wf [(''content-length'', [''900''])]" by (simp add: store_wf_def)
  show ?thesis
    using compressed_once [OF r d w accepts_visible_lib, of ?st 200 None] r d
    by (intro exI [of _ ?st]) (simp add: Let_def)
qed

end
