(* ===== verification/Static_File.thy ===== *)
theory Static_File
  imports Byte_Range Compress H1_Stream
begin

text \<open>
  Serving a file of the site, \<open>src/src/server.rs\<close>, \<open>src/src/server/caddy.rs\<close> and
  \<open>src/src/shared.rs\<close>: the response prepared for a request (template, conditional requests,
  ranges), the headers a script adds to it, and the bytes written to the client over HTTP/1.1.

  A file is read in pieces: each read returns at most what the kernel gives, and may fail.
  A socket accepts bytes until it fails.  The reason phrases of the \<open>http\<close> crate, the
  compressors and the response hooks of a script are parameters.
\<close>

subsection \<open>Files and sockets\<close>

datatype io_kind = ConnectionReset | BrokenPipe | InvalidData | UnexpectedEofKind | OtherIo

text \<open>The answer to one read: an error, or at most \<open>n + 1\<close> bytes.\<close>

datatype read_answer = ReadFails io_kind | AtMost nat

definition read_at :: "string \<Rightarrow> read_answer \<Rightarrow> nat \<Rightarrow> nat \<Rightarrow> io_kind + string" where
  "read_at file ans offset len =
     (case ans of
        ReadFails k \<Rightarrow> Inl k
      | AtMost n \<Rightarrow> Inr (take (min (Suc n) len) (drop offset file)))"

text \<open>The bytes written, and what is left before the socket fails.\<close>

record sock =
  sk_sent :: string
  sk_fails :: "(nat \<times> io_kind) option"

definition write_all :: "string \<Rightarrow> sock \<Rightarrow> (io_kind + unit) \<times> sock" where
  "write_all s sk =
     (case sk_fails sk of
        None \<Rightarrow> (Inr (), sk\<lparr>sk_sent := sk_sent sk @ s\<rparr>)
      | Some (n, k) \<Rightarrow>
          if length s \<le> n then (Inr (), sk\<lparr>sk_sent := sk_sent sk @ s, sk_fails := Some (n - length s, k)\<rparr>)
          else (Inl k, sk\<lparr>sk_sent := sk_sent sk @ take n s, sk_fails := Some (0, k)\<rparr>))"

text \<open>The loop of \<open>stream_tar_entry\<close>, \<open>stream_tar_entry_range\<close> and \<open>stream_fs_file\<close>;
  \<open>reads i\<close> answers the i-th read.\<close>

function stream_loop ::
  "string \<Rightarrow> nat \<Rightarrow> (nat \<Rightarrow> read_answer) \<Rightarrow> nat \<Rightarrow> nat \<Rightarrow> nat \<Rightarrow> sock \<Rightarrow> (io_kind + unit) \<times> sock" where
  "stream_loop file chunk_size reads i offset remaining sk =
     (if remaining = 0 then (Inr (), sk)
      else
        (case read_at file (reads i) offset (min remaining chunk_size) of
           Inl k \<Rightarrow> (Inl k, sk)
         | Inr data \<Rightarrow>
             if data = [] then (Inl InvalidData, sk)
             else
               (case write_all data sk of
                  (Inl k, sk) \<Rightarrow> (Inl k, sk)
                | (Inr _, sk) \<Rightarrow>
                    stream_loop file chunk_size reads (Suc i) (offset + length data) (remaining - length data) sk)))"
  by pat_completeness auto
termination
  by (relation "measure (\<lambda>(_, _, _, _, _, remaining, _). remaining)") auto

declare stream_loop.simps [simp del]

definition stream_tar_entry ::
  "string \<Rightarrow> tar_entry \<Rightarrow> nat \<Rightarrow> (nat \<Rightarrow> read_answer) \<Rightarrow> sock \<Rightarrow> (io_kind + unit) \<times> sock" where
  "stream_tar_entry file e chunk_size reads sk =
     stream_loop file chunk_size reads 0 (unat (te_offset e)) (unat (te_size e)) sk"

definition stream_tar_entry_range ::
  "string \<Rightarrow> tar_entry \<Rightarrow> nat \<Rightarrow> nat \<Rightarrow> nat \<Rightarrow> (nat \<Rightarrow> read_answer) \<Rightarrow> sock \<Rightarrow> (io_kind + unit) \<times> sock" where
  "stream_tar_entry_range file e start len chunk_size reads sk =
     stream_loop file chunk_size reads 0 (unat (te_offset e + of_nat start)) len sk"

definition read_tar_entry :: "string \<Rightarrow> tar_entry \<Rightarrow> read_answer \<Rightarrow> io_kind + string" where
  "read_tar_entry file e ans =
     (case ans of
        ReadFails k \<Rightarrow> Inl k
      | AtMost _ \<Rightarrow>
          (let off = unat (te_offset e); n = unat (te_size e)
           in if off + n \<le> length file then Inr (take n (drop off file)) else Inl UnexpectedEofKind))"

text \<open>A file of the file system; \<open>fs path\<close> is what opening it gives.\<close>

definition stream_fs_file ::
  "(string \<Rightarrow> io_kind + string) \<Rightarrow> string \<Rightarrow> nat \<Rightarrow> nat \<Rightarrow> nat \<Rightarrow> (nat \<Rightarrow> read_answer) \<Rightarrow> sock
     \<Rightarrow> (io_kind + unit) \<times> sock" where
  "stream_fs_file fs path start len chunk_size reads sk =
     (case fs path of
        Inl k \<Rightarrow> (Inl k, sk)
      | Inr content \<Rightarrow> stream_loop content chunk_size reads 0 start len sk)"

subsection \<open>Templates\<close>

definition START_TAG :: string where "START_TAG = ''<zs-meta>''"
definition END_TAG :: string where "END_TAG = ''</zs-meta>''"

definition should_template_replace :: "string \<Rightarrow> (string, string) store \<Rightarrow> bool" where
  "should_template_replace content_type metadata =
     (metadata \<noteq> [] \<and>
      (content_type = ''text/html'' \<or> starts_with content_type ''text/html;'' \<or> content_type = ''application/xml''))"

function apply_template :: "(string, string) store \<Rightarrow> string \<Rightarrow> string" where
  "apply_template metadata rest =
     (case find_sub START_TAG rest of
        None \<Rightarrow> rest
      | Some start \<Rightarrow>
          (let before = take start rest; after_start = drop (start + length START_TAG) rest
           in case find_sub END_TAG after_start of
                Some stop \<Rightarrow>
                  before
                  @ (case store_get metadata (str_trim (take stop after_start)) of Some v \<Rightarrow> v | None \<Rightarrow> [])
                  @ apply_template metadata (drop (stop + length END_TAG) after_start)
              | None \<Rightarrow> before @ START_TAG @ after_start))"
  by pat_completeness auto
termination
proof (relation "measure (\<lambda>(_, s). length s)", goal_cases)
  case (2 metadata rest start before after_start stop)
  have "start + length START_TAG \<le> length rest" using find_sub_SomeD [OF 2(1)] by simp
  then show ?case using 2(3) by (simp add: START_TAG_def)
qed simp

declare apply_template.simps [simp del]

subsection \<open>The response to a request\<close>

datatype static_body =
    EmptyBody
  | BytesBody string
  | FileBody tar_entry "byte_range option"
  | FsFileBody string nat "byte_range option"

record static_response =
  sr_status :: nat
  sr_headers :: header_map
  sr_body :: static_body
  sr_head_only :: bool

record static_config =
  cfg_index_file :: string
  cfg_try_html :: bool
  cfg_chunk_size :: nat

definition build_base_headers :: "http_lib \<Rightarrow> nat \<Rightarrow> string \<Rightarrow> header_map" where
  "build_base_headers lib len content_type =
     (let h = hm_insert ''content-length'' (if value_from_str lib (show_nat len) then show_nat len else ''0'') [];
          h = hm_insert ''server'' SERVER_HEADER h
      in hm_insert ''content-type''
           (if value_from_str lib content_type then content_type else ''application/octet-stream'') h)"

text \<open>The answer for a file, rendered as a template or checked against the conditions and the
  range of the request; \<open>file\<close> is the archive and \<open>ans\<close> the outcome of reading a template.\<close>

definition prepare_static_response ::
  "http_lib \<Rightarrow> date_lib \<Rightarrow> string \<Rightarrow> read_answer \<Rightarrow> request_head \<Rightarrow> site \<Rightarrow> static_config \<Rightarrow> bool
     \<Rightarrow> (string, string) store \<Rightarrow> normalized_path \<Rightarrow> static_response option" where
  "prepare_static_response lib dl file ans head st cfg head_only metadata np =
     (case lookup st np (cfg_index_file cfg) (cfg_try_html cfg) of
        None \<Rightarrow> None
      | Some e \<Rightarrow>
          (let mime = guess_mime (te_path e)
           in if should_template_replace mime metadata then
                (case read_tar_entry file e ans of
                   Inr body \<Rightarrow>
                     (let rendered = (case from_utf8 body of Some t \<Rightarrow> apply_template metadata t | None \<Rightarrow> body)
                      in Some \<lparr>sr_status = 200, sr_headers = build_base_headers lib (length rendered) mime,
                               sr_body = BytesBody rendered, sr_head_only = head_only\<rparr>)
                 | Inl _ \<Rightarrow>
                     Some \<lparr>sr_status = 500,
                       sr_headers = build_base_headers lib (length ''Internal Server Error'') ''text/plain; charset=utf-8'',
                       sr_body = BytesBody ''Internal Server Error'', sr_head_only = head_only\<rparr>)
              else if not_modified_by_request lib dl (rq_headers head) (te_etag e) (te_mtime e) then
                Some \<lparr>sr_status = 304, sr_headers = not_modified_headers lib dl (te_etag e) (te_mtime e),
                      sr_body = EmptyBody, sr_head_only = True\<rparr>
              else
                (let h = build_base_headers lib (unat (te_size e)) mime;
                     h = hm_insert ''etag'' (etag_header_value lib (te_etag e)) h;
                     h = insert_last_modified lib dl h (te_mtime e);
                     h = hm_insert ''accept-ranges'' ''bytes'' h
                 in case apply_static_range lib dl head h (unat (te_size e)) (te_etag e) (te_mtime e) of
                      (status, range_opt, h) \<Rightarrow>
                        Some \<lparr>sr_status = status, sr_headers = h, sr_body = FileBody e range_opt,
                              sr_head_only = head_only\<rparr>)))"

definition static_body_len :: "static_body \<Rightarrow> nat" where
  "static_body_len body =
     (case body of
        EmptyBody \<Rightarrow> 0
      | BytesBody b \<Rightarrow> length b
      | FileBody e None \<Rightarrow> unat (te_size e)
      | FileBody e (Some r) \<Rightarrow> br_len r
      | FsFileBody path len None \<Rightarrow> len
      | FsFileBody path len (Some r) \<Rightarrow> br_len r)"

definition ensure_static_content_length :: "http_lib \<Rightarrow> static_response \<Rightarrow> static_response" where
  "ensure_static_content_length lib response =
     (if hm_contains (sr_headers response) ''content-length'' \<or> hm_contains (sr_headers response) ''transfer-encoding''
      then response
      else
        (let v = show_nat (static_body_len (sr_body response))
         in response\<lparr>sr_headers := hm_insert ''content-length'' (if value_from_str lib v then v else ''0'')
              (sr_headers response)\<rparr>))"

subsection \<open>Headers a script adds\<close>

datatype early_header_merge = Overlay | PreserveStaticValidators | Prepend

definition hm_append_all :: "string \<Rightarrow> string list \<Rightarrow> header_map \<Rightarrow> header_map" where
  "hm_append_all name vs m = fold (\<lambda>v m. hm_append name v m) vs m"

definition prepend_values :: "string \<Rightarrow> string list \<Rightarrow> header_map \<Rightarrow> header_map" where
  "prepend_values name values headers =
     (let existing = hm_get_all headers name
      in hm_append_all name existing (hm_append_all name values (hm_remove name headers)))"

text \<open>One header of the early headers.\<close>

definition apply_early_header ::
  "early_header_merge \<Rightarrow> string \<times> string list \<Rightarrow> header_map \<Rightarrow> header_map" where
  "apply_early_header mode nv headers =
     (let (name, values) = nv
      in if values = [] \<or> name = ''content-length'' then headers
         else case mode of
                Overlay \<Rightarrow>
                  (let h = (if name = ''content-type'' \<or> name = ''etag'' \<or> \<not> hm_contains headers name
                            then hm_remove name headers else headers)
                   in hm_append_all name values h)
              | PreserveStaticValidators \<Rightarrow>
                  if hm_contains headers name
                     \<and> name \<in> {''etag'', ''last-modified'', ''accept-ranges'', ''content-range''} then headers
                  else
                    (let h = (if name = ''content-type'' \<or> \<not> hm_contains headers name
                              then hm_remove name headers else headers)
                     in if name = ''vary'' then prepend_values name values h else hm_append_all name values h)
              | Prepend \<Rightarrow> prepend_values name values headers)"

definition apply_early_response_headers_with_mode ::
  "header_map \<Rightarrow> header_map \<Rightarrow> early_header_merge \<Rightarrow> header_map" where
  "apply_early_response_headers_with_mode headers early mode = fold (apply_early_header mode) early headers"

definition RESPONSE_HEADER_PREFIX :: string where
  "RESPONSE_HEADER_PREFIX = ''zs.response.header.''"

definition apply_metadata_header :: "http_lib \<Rightarrow> string \<times> string \<Rightarrow> header_map \<Rightarrow> header_map" where
  "apply_metadata_header lib kv headers =
     (case strip_prefix (fst kv) RESPONSE_HEADER_PREFIX of
        None \<Rightarrow> headers
      | Some raw \<Rightarrow>
          (let name = str_trim raw
           in if name = [] then headers
              else case name_from_bytes lib name of
                     None \<Rightarrow> headers
                   | Some n \<Rightarrow> if value_from_str lib (snd kv) then hm_insert n (snd kv) headers else headers))"

definition apply_metadata_response_headers :: "http_lib \<Rightarrow> header_map \<Rightarrow> (string, string) store \<Rightarrow> header_map" where
  "apply_metadata_response_headers lib headers metadata = fold (apply_metadata_header lib) metadata headers"

definition apply_response_headers_with_mode ::
  "http_lib \<Rightarrow> header_map \<Rightarrow> header_map option \<Rightarrow> (string, string) store \<Rightarrow> early_header_merge \<Rightarrow> header_map" where
  "apply_response_headers_with_mode lib headers early metadata mode =
     apply_metadata_response_headers lib
       (case early of Some h \<Rightarrow> apply_early_response_headers_with_mode headers h mode | None \<Rightarrow> headers) metadata"

subsection \<open>Writing the response\<close>

definition pad3 :: "nat \<Rightarrow> string" where
  "pad3 n = replicate (3 - length (show_nat n)) (CHR ''0'') @ show_nat n"

definition encode_response_head_raw :: "(nat \<Rightarrow> string option) \<Rightarrow> nat \<Rightarrow> header_map \<Rightarrow> string" where
  "encode_response_head_raw canonical_reason status headers =
     ''HTTP/1.1 '' @ pad3 status @ '' ''
     @ (case canonical_reason status of Some reason \<Rightarrow> reason | None \<Rightarrow> ''status code '' @ show_nat status) @ CRLF
     @ concat (map (\<lambda>(name, v). name @ '': '' @ v @ CRLF) (hm_iter headers)) @ CRLF"

definition connection_has_close :: "http_lib \<Rightarrow> header_map \<Rightarrow> bool" where
  "connection_has_close lib headers =
     (case hm_get_str lib headers ''connection'' of
        None \<Rightarrow> False
      | Some v \<Rightarrow> list_ex (\<lambda>tok. eq_ignore_ascii_case (str_trim tok) ''close'') (split_on (CHR '','') v))"

text \<open>The head and a short body are written together, a long one after the head; the bytes are
  the same.  Errors are returned to the caller, which ignores them.\<close>

definition COALESCE_LIMIT :: nat where "COALESCE_LIMIT = 16 * 1024"

definition write_response_head_and_body_raw ::
  "(nat \<Rightarrow> string option) \<Rightarrow> nat \<Rightarrow> header_map \<Rightarrow> string \<Rightarrow> sock \<Rightarrow> (io_kind + unit) \<times> sock" where
  "write_response_head_and_body_raw canonical_reason status headers body sk =
     (let buf = encode_response_head_raw canonical_reason status headers
      in if length buf + length body \<le> COALESCE_LIMIT then write_all (buf @ body) sk
         else case write_all buf sk of
                (Inl k, sk) \<Rightarrow> (Inl k, sk)
              | (Inr _, sk) \<Rightarrow> write_all body sk)"

text \<open>A compressor: its start, the output for a piece, and the output at the end.\<close>

record 's codec =
  cd_new :: "encoder_spec \<Rightarrow> io_kind + 's"
  cd_push :: "'s \<Rightarrow> string \<Rightarrow> io_kind + (string \<times> 's)"
  cd_finish :: "'s \<Rightarrow> io_kind + string"

text \<open>An error of a chunk's write is wrapped by \<open>map_io\<close>, which loses its kind.\<close>

definition push_chunk :: "'s codec \<Rightarrow> 's \<Rightarrow> string \<Rightarrow> sock \<Rightarrow> (io_kind + 's) \<times> sock" where
  "push_chunk cd enc data sk =
     (case cd_push cd enc data of
        Inl k \<Rightarrow> (Inl k, sk)
      | Inr (out, enc) \<Rightarrow>
          (case write_all (write_chunk out) sk of
             (Inl _, sk) \<Rightarrow> (Inl OtherIo, sk)
           | (Inr _, sk) \<Rightarrow> (Inr enc, sk)))"

function compress_loop ::
  "'s codec \<Rightarrow> 's \<Rightarrow> string \<Rightarrow> nat \<Rightarrow> (nat \<Rightarrow> read_answer) \<Rightarrow> nat \<Rightarrow> nat \<Rightarrow> nat \<Rightarrow> sock
     \<Rightarrow> (io_kind + 's) \<times> sock" where
  "compress_loop cd enc file chunk_size reads i offset remaining sk =
     (if remaining = 0 then (Inr enc, sk)
      else
        (case read_at file (reads i) offset (min remaining chunk_size) of
           Inl k \<Rightarrow> (Inl k, sk)
         | Inr data \<Rightarrow>
             if data = [] then (Inl InvalidData, sk)
             else
               (case push_chunk cd enc data sk of
                  (Inl k, sk) \<Rightarrow> (Inl k, sk)
                | (Inr enc, sk) \<Rightarrow>
                    compress_loop cd enc file chunk_size reads (Suc i) (offset + length data)
                      (remaining - length data) sk)))"
  by pat_completeness auto
termination
  by (relation "measure (\<lambda>(_, _, _, _, _, _, _, remaining, _). remaining)") auto

declare compress_loop.simps [simp del]

definition compress_body ::
  "'s codec \<Rightarrow> 's \<Rightarrow> string \<Rightarrow> (string \<Rightarrow> io_kind + string) \<Rightarrow> nat \<Rightarrow> (nat \<Rightarrow> read_answer) \<Rightarrow> static_body
     \<Rightarrow> sock \<Rightarrow> (io_kind + 's) \<times> sock" where
  "compress_body cd enc file fs chunk_size reads body sk =
     (case body of
        EmptyBody \<Rightarrow> (Inr enc, sk)
      | BytesBody b \<Rightarrow> push_chunk cd enc b sk
      | FileBody e _ \<Rightarrow>
          (case read_tar_entry file e (reads 0) of
             Inl k \<Rightarrow> (Inl k, sk)
           | Inr b \<Rightarrow> push_chunk cd enc b sk)
      | FsFileBody path len _ \<Rightarrow>
          (case fs path of
             Inl k \<Rightarrow> (Inl k, sk)
           | Inr content \<Rightarrow> compress_loop cd enc content chunk_size reads 0 0 len sk))"

definition write_static_body_compressed_h1 ::
  "'s codec \<Rightarrow> string \<Rightarrow> (string \<Rightarrow> io_kind + string) \<Rightarrow> nat \<Rightarrow> (nat \<Rightarrow> read_answer) \<Rightarrow> static_body
     \<Rightarrow> encoder_spec \<Rightarrow> sock \<Rightarrow> (io_kind + unit) \<times> sock" where
  "write_static_body_compressed_h1 cd file fs chunk_size reads body spec sk =
     (case cd_new cd spec of
        Inl k \<Rightarrow> (Inl k, sk)
      | Inr enc \<Rightarrow>
          (case compress_body cd enc file fs chunk_size reads body sk of
             (Inl k, sk) \<Rightarrow> (Inl k, sk)
           | (Inr enc, sk) \<Rightarrow>
               (case cd_finish cd enc of
                  Inl k \<Rightarrow> (Inl k, sk)
                | Inr tail \<Rightarrow>
                    (case write_all (write_chunk tail) sk of
                       (Inl _, sk) \<Rightarrow> (Inl OtherIo, sk)
                     | (Inr _, sk) \<Rightarrow>
                         (case write_all write_chunk_end sk of
                            (Inl _, sk) \<Rightarrow> (Inl OtherIo, sk)
                          | (Inr u, sk) \<Rightarrow> (Inr u, sk))))))"

record send_outcome =
  so_keep_client :: bool
  so_status :: nat

text \<open>After a failure that is not the client's, the socket is shut down and not kept.\<close>

definition finish_stream ::
  "bool \<Rightarrow> nat \<Rightarrow> (io_kind + unit) \<times> sock \<Rightarrow> send_outcome \<times> sock" where
  "finish_stream continue_conn status res =
     (case res of
        (Inr _, sk) \<Rightarrow> (\<lparr>so_keep_client = continue_conn, so_status = status\<rparr>, sk)
      | (Inl k, sk) \<Rightarrow>
          (\<lparr>so_keep_client = continue_conn \<and> k \<in> {ConnectionReset, BrokenPipe}, so_status = status\<rparr>, sk))"

definition has_range :: "static_body \<Rightarrow> bool" where
  "has_range body =
     (case body of FileBody _ (Some _) \<Rightarrow> True | FsFileBody _ _ (Some _) \<Rightarrow> True | _ \<Rightarrow> False)"

definition send_prepared_static_response_h1 ::
  "http_lib \<Rightarrow> (nat \<Rightarrow> string option) \<Rightarrow> 's codec \<Rightarrow> string \<Rightarrow> (string \<Rightarrow> io_kind + string) \<Rightarrow> nat
     \<Rightarrow> (nat \<Rightarrow> read_answer) \<Rightarrow> static_response \<Rightarrow> nat \<Rightarrow> bool \<Rightarrow> encode_state option \<Rightarrow> sock
     \<Rightarrow> send_outcome \<times> sock" where
  "send_prepared_static_response_h1 lib canonical_reason cd file fs chunk_size reads response status send_body encode sk =
     (let chosen = (if send_body \<and> \<not> has_range (sr_body response) then
                      (case encode of None \<Rightarrow> None
                       | Some st \<Rightarrow> decide lib st status (sr_headers response)
                                       (Some (static_body_len (sr_body response))))
                    else None)
      in case chosen of
           Some (name, spec) \<Rightarrow>
             (let h = apply_encoding_headers lib (sr_headers response) name
              in if sr_head_only response then
                   (let sk = snd (write_all (encode_response_head_raw canonical_reason status h) sk)
                    in (\<lparr>so_keep_client = \<not> connection_has_close lib h, so_status = status\<rparr>, sk))
                 else
                   (let h = hm_insert ''transfer-encoding'' ''chunked'' h;
                        sk = snd (write_all (encode_response_head_raw canonical_reason status h) sk)
                    in finish_stream (\<not> connection_has_close lib h) status
                         (write_static_body_compressed_h1 cd file fs chunk_size reads (sr_body response) spec sk)))
         | None \<Rightarrow>
             (let h = sr_headers response;
                  continue_conn = (\<not> connection_has_close lib h);
                  head_sk = snd (write_all (encode_response_head_raw canonical_reason status h) sk);
                  done = (\<lambda>sk. (\<lparr>so_keep_client = continue_conn, so_status = status\<rparr>, sk))
              in if sr_head_only response \<or> \<not> send_body then done head_sk
                 else case sr_body response of
                        EmptyBody \<Rightarrow> done head_sk
                      | BytesBody b \<Rightarrow>
                          done (if b \<noteq> [] then snd (write_response_head_and_body_raw canonical_reason status h b sk)
                                else head_sk)
                      | FileBody e (Some r) \<Rightarrow>
                          finish_stream continue_conn status
                            (stream_tar_entry_range file e (br_start r) (br_len r) chunk_size reads head_sk)
                      | FileBody e None \<Rightarrow>
                          finish_stream continue_conn status (stream_tar_entry file e chunk_size reads head_sk)
                      | FsFileBody path len rng \<Rightarrow>
                          finish_stream continue_conn status
                            (stream_fs_file fs path (case rng of Some r \<Rightarrow> br_start r | None \<Rightarrow> 0)
                               (case rng of Some r \<Rightarrow> br_len r | None \<Rightarrow> len) chunk_size reads head_sk)))"

definition server_status_allows_body :: "nat \<Rightarrow> bool" where
  "server_status_allows_body status = (\<not> (100 \<le> status \<and> status < 200) \<and> status \<noteq> 204 \<and> status \<noteq> 304)"

definition strip_no_body_headers :: "header_map \<Rightarrow> header_map" where
  "strip_no_body_headers headers = hm_remove ''transfer-encoding'' (hm_remove ''content-length'' headers)"

text \<open>
  The response hooks of the scripts are a parameter: they see the status and the headers and
  may change both.
\<close>

type_synonym response_hooks = "nat \<Rightarrow> header_map \<Rightarrow> nat \<times> header_map"

definition send_static_response_h1 ::
  "http_lib \<Rightarrow> (nat \<Rightarrow> string option) \<Rightarrow> 's codec \<Rightarrow> string \<Rightarrow> (string \<Rightarrow> io_kind + string) \<Rightarrow> nat
     \<Rightarrow> (nat \<Rightarrow> read_answer) \<Rightarrow> static_response \<Rightarrow> header_map option \<Rightarrow> (string, string) store
     \<Rightarrow> response_hooks \<Rightarrow> sock \<Rightarrow> send_outcome \<times> sock" where
  "send_static_response_h1 lib canonical_reason cd file fs chunk_size reads response early metadata hooks sk =
     (let response = response\<lparr>sr_headers := apply_response_headers_with_mode lib (sr_headers response) early metadata Overlay\<rparr>;
          response = ensure_static_content_length lib response;
          (status, h) = hooks (sr_status response) (sr_headers response);
          send_body = server_status_allows_body status;
          h = (if send_body then h else strip_no_body_headers h)
      in send_prepared_static_response_h1 lib canonical_reason cd file fs chunk_size reads
           (response\<lparr>sr_headers := h\<rparr>) status send_body None sk)"

definition serve_static ::
  "http_lib \<Rightarrow> date_lib \<Rightarrow> (nat \<Rightarrow> string option) \<Rightarrow> 's codec \<Rightarrow> string \<Rightarrow> (string \<Rightarrow> io_kind + string)
     \<Rightarrow> (nat \<Rightarrow> read_answer) \<Rightarrow> read_answer \<Rightarrow> request_head \<Rightarrow> site \<Rightarrow> static_config \<Rightarrow> bool
     \<Rightarrow> header_map option \<Rightarrow> (string, string) store \<Rightarrow> response_hooks \<Rightarrow> normalized_path \<Rightarrow> sock
     \<Rightarrow> (send_outcome \<times> sock) option" where
  "serve_static lib dl canonical_reason cd file fs reads ans head st cfg head_only early metadata hooks np sk =
     (case prepare_static_response lib dl file ans head st cfg head_only metadata np of
        None \<Rightarrow> None
      | Some response \<Rightarrow>
          Some (send_static_response_h1 lib canonical_reason cd file fs (cfg_chunk_size cfg) reads response early
                  metadata hooks sk))"

subsection \<open>Streams deliver the bytes of the file\<close>

lemma read_at_SomeD:
  assumes "read_at file ans off n = Inr data"
  shows "data = take (length data) (drop off file)" and "length data \<le> n"
    and "off < length file \<Longrightarrow> 0 < n \<Longrightarrow> data \<noteq> []"
proof -
  obtain m where d: "data = take (min (Suc m) n) (drop off file)"
    using assms by (auto simp: read_at_def split: read_answer.splits)
  show "data = take (length data) (drop off file)"
    unfolding d by (metis length_take min.commute take_all_iff take_take nle_le)
  show "length data \<le> n" "off < length file \<Longrightarrow> 0 < n \<Longrightarrow> data \<noteq> []" by (auto simp: d)
qed

lemma write_all_ok: "sk_fails sk = None \<Longrightarrow> write_all s sk = (Inr (), sk\<lparr>sk_sent := sk_sent sk @ s\<rparr>)"
  by (simp add: write_all_def)

lemma write_all_prefix:
  assumes "write_all s sk = (r, sk')"
  shows "\<exists>p. sk_sent sk' = sk_sent sk @ p \<and> prefix p s \<and> (r = Inr () \<longrightarrow> p = s)"
  using assms by (auto simp: write_all_def take_is_prefix split: option.splits if_splits)

text \<open>Whatever the reads and the socket do, what was sent is a prefix of the part asked for, and
  all of it when the stream reports success.\<close>

lemma stream_loop_prefix:
  "stream_loop f c rd i off n sk = (r, sk') \<Longrightarrow>
     \<exists>p. sk_sent sk' = sk_sent sk @ p \<and> prefix p (take n (drop off f)) \<and>
       (r = Inr () \<longrightarrow> p = take n (drop off f) \<and> length p = n)"
proof (induction f c rd i off n sk rule: stream_loop.induct)
  case (1 f c rd i off n sk)
  show ?case
  proof (cases "n = 0 \<or> (\<exists>k. read_at f (rd i) off (min n c) = Inl k)
      \<or> read_at f (rd i) off (min n c) = Inr []")
    case True
    then show ?thesis using 1(2) by (subst (asm) stream_loop.simps) (auto split: if_splits)
  next
    case False
    then obtain data where d: "read_at f (rd i) off (min n c) = Inr data" "data \<noteq> []" "n \<noteq> 0"
      by (cases "read_at f (rd i) off (min n c)") auto
    note rd = read_at_SomeD [OF d(1)]
    obtain w sk1 where w: "write_all data sk = (w, sk1)" by fastforce
    obtain p where p: "sk_sent sk1 = sk_sent sk @ p" "prefix p data" "w = Inr () \<longrightarrow> p = data"
      using write_all_prefix [OF w] by blast
    have rest: "take n (drop off f) = data @ take (n - length data) (drop (off + length data) f)"
      using rd(1,2) by (metis add.commute drop_drop le_add_diff_inverse min.boundedE take_add)
    show ?thesis
    proof (cases w)
      case (Inl k)
      then have "r = Inl k" "sk' = sk1" using 1(2) d w by (subst (asm) stream_loop.simps, simp)+
      then show ?thesis using p rest by (auto simp: prefix_append)
    next
      case (Inr u)
      then have go: "stream_loop f c rd (Suc i) (off + length data) (n - length data) sk1 = (r, sk')"
        using 1(2) d w by (subst (asm) stream_loop.simps) simp
      obtain q where q: "sk_sent sk' = sk_sent sk1 @ q"
          "prefix q (take (n - length data) (drop (off + length data) f))"
          "r = Inr () \<longrightarrow> q = take (n - length data) (drop (off + length data) f) \<and> length q = n - length data"
        using 1(1) [OF d(3) d(1) d(2) w [unfolded Inr, symmetric] refl go] by blast
      have "p = data" using p(3) Inr by simp
      then show ?thesis using p(1) q rest rd(2)
        by (intro exI [of _ "data @ q"]) auto
    qed
  qed
qed

lemma stream_loop_complete:
  "sk_fails sk = None \<Longrightarrow> 0 < c \<Longrightarrow> off + n \<le> length f \<Longrightarrow> (\<forall>i. \<exists>m. rd i = AtMost m) \<Longrightarrow>
     stream_loop f c rd i off n sk = (Inr (), sk\<lparr>sk_sent := sk_sent sk @ take n (drop off f)\<rparr>)"
proof (induction f c rd i off n sk rule: stream_loop.induct)
  case (1 f c rd i off n sk)
  show ?case
  proof (cases "n = 0")
    case True
    then show ?thesis by (simp add: stream_loop.simps)
  next
    case False
    obtain m where m: "rd i = AtMost m" using 1(5) by blast
    then obtain data where d: "read_at f (rd i) off (min n c) = Inr data" by (simp add: read_at_def)
    note rd = read_at_SomeD [OF d]
    have ne: "data \<noteq> []" using rd(3) False 1(3,4) by simp
    have rest: "take n (drop off f) = data @ take (n - length data) (drop (off + length data) f)"
      using rd(1,2) by (metis add.commute drop_drop le_add_diff_inverse min.boundedE take_add)
    let ?sk1 = "sk\<lparr>sk_sent := sk_sent sk @ data\<rparr>"
    have "stream_loop f c rd (Suc i) (off + length data) (n - length data) ?sk1 =
        (Inr (), ?sk1\<lparr>sk_sent := sk_sent ?sk1 @ take (n - length data) (drop (off + length data) f)\<rparr>)"
      using 1(2-5) rd(2) by (intro 1(1) [OF False d ne write_all_ok [symmetric]]) auto
    with False d ne show ?thesis
      by (subst stream_loop.simps) (simp add: write_all_ok 1(2) rest)
  qed
qed

subsection \<open>A file is delivered as its headers announce\<close>

definition entry_content :: "string \<Rightarrow> tar_entry \<Rightarrow> string" where
  "entry_content f e = take (unat (te_size e)) (drop (unat (te_offset e)) f)"

definition entry_in :: "string \<Rightarrow> tar_entry \<Rightarrow> bool" where
  "entry_in f e = (unat (te_offset e) + unat (te_size e) \<le> length f \<and> length f < 2 ^ 64)"

lemma length_entry_content: "entry_in f e \<Longrightarrow> length (entry_content f e) = unat (te_size e)"
  by (auto simp: entry_content_def entry_in_def min_def)

lemma hm_contains_get: "hm_get m k = Some v \<Longrightarrow> hm_contains m k"
  by (auto simp: hm_get_def hm_get_all_def hm_contains_def split: option.splits list.splits)

lemma stream_entry:
  assumes "entry_in f e" and "sk_fails sk = None" and "0 < c" and "\<forall>i. \<exists>m. rd i = AtMost m"
  shows "stream_tar_entry f e c rd sk = (Inr (), sk\<lparr>sk_sent := sk_sent sk @ entry_content f e\<rparr>)"
  using assms stream_loop_complete [of sk c "unat (te_offset e)" "unat (te_size e)" f rd 0]
  by (simp add: stream_tar_entry_def entry_content_def entry_in_def)

lemma stream_entry_range:
  assumes "entry_in f e" and "sk_fails sk = None" and "0 < c" and "\<forall>i. \<exists>m. rd i = AtMost m"
    and "s + n \<le> unat (te_size e)"
  shows "stream_tar_entry_range f e s n c rd sk =
    (Inr (), sk\<lparr>sk_sent := sk_sent sk @ take n (drop s (entry_content f e))\<rparr>)"
proof -
  have "unat (te_offset e) + s < 2 ^ 64" using assms(1,5) by (simp add: entry_in_def)
  then have off: "unat (te_offset e + of_nat s) = unat (te_offset e) + s"
    by (simp add: unat_word_ariths unat_of_nat)
  have "take n (drop s (entry_content f e)) = take n (drop (unat (te_offset e) + s) f)"
    using assms(5) by (simp add: entry_content_def drop_take add.commute)
  then show ?thesis
    using assms stream_loop_complete [of sk c "unat (te_offset e) + s" n f rd 0]
    by (simp add: stream_tar_entry_range_def off entry_in_def)
qed

text \<open>The answers to a request for a file: the whole file, a part of it, a refused range or the
  confirmation that the client's copy is current, with the body that follows the head.\<close>

definition framed_answer :: "string \<Rightarrow> nat \<Rightarrow> header_map \<Rightarrow> string \<Rightarrow> bool" where
  "framed_answer content status h body =
     ((status = 304 \<and> body = [] \<and> hm_get h ''content-length'' = None)
      \<or> (hm_get h ''content-length'' = Some (show_nat (length body))
         \<and> ((status = 200 \<and> body = content)
            \<or> (status = 206 \<and> body \<noteq> [] \<and>
                (\<exists>start. start + length body \<le> length content \<and> body = take (length body) (drop start content) \<and>
                   hm_get h ''content-range'' =
                     Some (content_range start (int (start + length body - 1)) (length content))))
            \<or> (status = 416 \<and> body = []))))"

lemma prepare_file_cases:
  assumes "lookup st np (cfg_index_file cfg) (cfg_try_html cfg) = Some e" and "accepts_visible lib"
    and "prepare_static_response lib dl f ans head st cfg False [] np = Some resp"
  obtains "resp = \<lparr>sr_status = 304, sr_headers = not_modified_headers lib dl (te_etag e) (te_mtime e),
      sr_body = EmptyBody, sr_head_only = True\<rparr>"
  | h0 where "hm_get h0 ''content-length'' = Some (show_nat (unat (te_size e)))" "sr_head_only resp = False"
      "range_answer (unat (te_size e)) h0 (sr_status resp, (case sr_body resp of FileBody _ r \<Rightarrow> r), sr_headers resp)"
      "\<exists>r. sr_body resp = FileBody e r"
proof -
  have vis: "value_from_str lib (show_nat k)" for k
    using assms(2) visible_show by (simp add: accepts_visible_def)
  define h0 where "h0 = hm_insert ''accept-ranges'' ''bytes'' (insert_last_modified lib dl
      (hm_insert ''etag'' (etag_header_value lib (te_etag e))
        (build_base_headers lib (unat (te_size e)) (guess_mime (te_path e)))) (te_mtime e))"
  have cl: "hm_get h0 ''content-length'' = Some (show_nat (unat (te_size e)))"
    by (simp add: h0_def insert_last_modified_def build_base_headers_def vis Let_def)
  obtain status r h where a: "apply_static_range lib dl head h0 (unat (te_size e)) (te_etag e) (te_mtime e) = (status, r, h)"
    by (metis prod_cases3)
  have ra: "range_answer (unat (te_size e)) h0 (status, r, h)"
    using static_range_in_file [OF assms(2), of "unat (te_size e)" h0 dl head "te_etag e" "te_mtime e"] a by simp
  have "resp = \<lparr>sr_status = 304, sr_headers = not_modified_headers lib dl (te_etag e) (te_mtime e),
      sr_body = EmptyBody, sr_head_only = True\<rparr>
    \<or> resp = \<lparr>sr_status = status, sr_headers = h, sr_body = FileBody e r, sr_head_only = False\<rparr>"
    using assms(1,3) a
    by (auto simp: prepare_static_response_def should_template_replace_def Let_def h0_def split: if_splits)
  then show thesis using that cl ra by fastforce
qed

lemma show_zero: "show_nat 0 = ''0''"
  by code_simp

definition no_hooks :: response_hooks where
  "no_hooks status headers = (status, headers)"

text \<open>Without a script the prepared response is sent as it is, less the headers of a body where
  the status has none.\<close>

lemma send_unchanged:
  assumes "hm_get (sr_headers resp) ''content-length'' = Some v"
  shows "send_static_response_h1 lib cr cd f fs c rd resp None [] no_hooks sk =
    send_prepared_static_response_h1 lib cr cd f fs c rd
      (if server_status_allows_body (sr_status resp) then resp
       else resp\<lparr>sr_headers := strip_no_body_headers (sr_headers resp)\<rparr>)
      (sr_status resp) (server_status_allows_body (sr_status resp)) None sk"
proof -
  have ensure: "ensure_static_content_length lib resp = resp"
    using hm_contains_get [OF assms] by (simp add: ensure_static_content_length_def)
  have headers: "apply_response_headers_with_mode lib (sr_headers resp) None [] Overlay = sr_headers resp"
    by (simp add: apply_response_headers_with_mode_def apply_metadata_response_headers_def)
  show ?thesis by (simp add: send_static_response_h1_def headers ensure no_hooks_def Let_def)
qed

lemma send_file:
  assumes "entry_in f e" and "sk_fails sk = None" and "0 < c" and "\<forall>i. \<exists>m. rd i = AtMost m"
    and "hm_get (sr_headers resp) ''content-length'' = Some v"
    and "sr_body resp = FileBody e r" and "\<not> sr_head_only resp" and "server_status_allows_body (sr_status resp)"
    and "case r of None \<Rightarrow> True | Some b \<Rightarrow> br_start b + br_len b \<le> unat (te_size e)"
  shows "\<exists>out. send_static_response_h1 lib cr cd f fs c rd resp None [] no_hooks sk =
    (out, sk\<lparr>sk_sent := sk_sent sk @ encode_response_head_raw cr (sr_status resp) (sr_headers resp) @
      (case r of None \<Rightarrow> entry_content f e | Some b \<Rightarrow> take (br_len b) (drop (br_start b) (entry_content f e)))\<rparr>)"
proof -
  have send: "send_static_response_h1 lib cr cd f fs c rd resp None [] no_hooks sk =
      send_prepared_static_response_h1 lib cr cd f fs c rd resp (sr_status resp) True None sk"
    using assms(8) send_unchanged [OF assms(5)] by simp
  show ?thesis
  proof (cases r)
    case None
    then show ?thesis unfolding send using assms(2,6,7) stream_entry [OF assms(1) _ assms(3,4)]
      by (simp add: send_prepared_static_response_h1_def Let_def write_all_ok finish_stream_def)
  next
    case (Some b)
    then show ?thesis unfolding send using assms(2,6,7,9) stream_entry_range [OF assms(1) _ assms(3,4)]
      by (simp add: send_prepared_static_response_h1_def Let_def write_all_ok finish_stream_def)
  qed
qed

lemma not_modified_headers_wf: "store_wf (not_modified_headers lib dl etag lm)"
  by (simp add: not_modified_headers_def insert_last_modified_def Let_def)

lemma prepare_some:
  "lookup st np (cfg_index_file cfg) (cfg_try_html cfg) = Some e \<Longrightarrow>
   \<exists>resp. prepare_static_response lib dl f ans head st cfg ho [] np = Some resp"
  unfolding prepare_static_response_def should_template_replace_def Let_def by (simp split: prod.split)

lemma send_not_modified:
  assumes "sk_fails sk = None"
    and "resp = \<lparr>sr_status = 304, sr_headers = not_modified_headers lib dl etag lm, sr_body = EmptyBody, sr_head_only = True\<rparr>"
  shows "\<exists>out. send_static_response_h1 lib cr cd f fs c rd resp None [] no_hooks sk =
    (out, sk\<lparr>sk_sent := sk_sent sk @ encode_response_head_raw cr 304 (strip_no_body_headers (sr_headers resp))\<rparr>)"
proof -
  have cl: "hm_get (sr_headers resp) ''content-length'' = Some ''0''"
    using assms(2) by (simp add: not_modified_headers_def Let_def)
  show ?thesis unfolding send_unchanged [OF cl] using assms
    by (simp add: server_status_allows_body_def send_prepared_static_response_h1_def write_all_ok Let_def)
qed

text \<open>C2. 
  Serving a file over HTTP/1.1, from the request to the bytes on the wire: with the archive
  readable and the client connected, the response is one head followed by a body that is the
  file, the part of it the head announces, or nothing; the announced length is the number of
  body bytes, so the next response starts where the client expects it.
\<close>

theorem static_delivery:
  assumes "lookup st np (cfg_index_file cfg) (cfg_try_html cfg) = Some e" and "entry_in f e"
    and "accepts_visible lib" and "0 < cfg_chunk_size cfg" and "\<forall>i. \<exists>m. rd i = AtMost m"
    and "sk_fails sk = None"
  shows "\<exists>out status h body.
    serve_static lib dl cr cd f fs rd ans head st cfg False None [] no_hooks np sk =
      Some (out, sk\<lparr>sk_sent := sk_sent sk @ encode_response_head_raw cr status h @ body\<rparr>) \<and>
    framed_answer (entry_content f e) status h body"
proof -
  obtain resp where resp: "prepare_static_response lib dl f ans head st cfg False [] np = Some resp"
    using prepare_some [OF assms(1)] by blast
  let ?serve = "serve_static lib dl cr cd f fs rd ans head st cfg False None [] no_hooks np sk"
  have serve: "?serve = Some (send_static_response_h1 lib cr cd f fs (cfg_chunk_size cfg) rd resp None [] no_hooks sk)"
    by (simp add: serve_static_def resp)
  note len = length_entry_content [OF assms(2)]
  from assms(1,3) resp show ?thesis
  proof (cases rule: prepare_file_cases)
    case 1
    obtain out where "send_static_response_h1 lib cr cd f fs (cfg_chunk_size cfg) rd resp None [] no_hooks sk =
        (out, sk\<lparr>sk_sent := sk_sent sk @ encode_response_head_raw cr 304 (strip_no_body_headers (sr_headers resp))\<rparr>)"
      using send_not_modified [OF assms(6) 1] by blast
    then have "?serve = Some (out, sk\<lparr>sk_sent := sk_sent sk @
        encode_response_head_raw cr 304 (strip_no_body_headers (sr_headers resp))\<rparr>)"
      by (simp only: serve)
    moreover have "hm_get (strip_no_body_headers (sr_headers resp)) ''content-length'' = None"
      using 1 not_modified_headers_wf by (simp add: strip_no_body_headers_def)
    ultimately show ?thesis
      by (intro exI [of _ out] exI [of _ 304] exI [of _ "strip_no_body_headers (sr_headers resp)"] exI [of _ "[]"])
        (simp add: framed_answer_def)
  next
    case (2 h0)
    then obtain r where r: "sr_body resp = FileBody e r" by blast
    let ?body = "case r of None \<Rightarrow> entry_content f e | Some b \<Rightarrow> take (br_len b) (drop (br_start b) (entry_content f e))"
    have ra: "range_answer (unat (te_size e)) h0 (sr_status resp, r, sr_headers resp)" using 2(3) r by simp
    have fr: "framed_answer (entry_content f e) (sr_status resp) (sr_headers resp) ?body"
      using ra 2(1) len
      by (auto simp: range_answer_def framed_answer_def show_zero split: option.splits)
    have in_file: "case r of None \<Rightarrow> True | Some b \<Rightarrow> br_start b + br_len b \<le> unat (te_size e)"
      and ok: "server_status_allows_body (sr_status resp)"
      and cl: "\<exists>v. hm_get (sr_headers resp) ''content-length'' = Some v"
      using ra 2(1) by (auto simp: range_answer_def server_status_allows_body_def split: option.splits)
    obtain v where v: "hm_get (sr_headers resp) ''content-length'' = Some v" using cl by blast
    have head: "\<not> sr_head_only resp" using 2(2) by simp
    obtain out where "send_static_response_h1 lib cr cd f fs (cfg_chunk_size cfg) rd resp None [] no_hooks sk =
        (out, sk\<lparr>sk_sent := sk_sent sk @ encode_response_head_raw cr (sr_status resp) (sr_headers resp) @ ?body\<rparr>)"
      using send_file [OF assms(2,6,4,5) v r head ok in_file] by blast
    with serve fr show ?thesis by (intro exI conjI) (simp_all only:)
  qed
qed

definition no_codec :: "unit codec" where
  "no_codec = \<lparr>cd_new = \<lambda>_. Inl OtherIo, cd_push = \<lambda>_ _. Inl OtherIo, cd_finish = \<lambda>_. Inl OtherIo\<rparr>"

theorem static_delivery_witness:
  "\<exists>st out status h body.
     serve_static visible_lib no_dates (\<lambda>_. None) no_codec
       (replicate 512 (CHR 0x00) @ ''x'') (\<lambda>_. Inl OtherIo) (\<lambda>_. AtMost 0) (AtMost 0) (get_head []) st
       \<lparr>cfg_index_file = ''b'', cfg_try_html = False, cfg_chunk_size = 4\<rparr> False None [] no_hooks
       \<lparr>relative = ''a'', encoded_relative = ''a'', dir_hint = False\<rparr> \<lparr>sk_sent = [], sk_fails = None\<rparr> =
       Some (out, \<lparr>sk_sent = encode_response_head_raw (\<lambda>_. None) status h @ body, sk_fails = None\<rparr>) \<and>
     framed_answer ''x'' status h body"
proof -
  let ?load = "load_from_file (\<lambda>_. ''0123456789abcdef'') sample_archive 4096 1"
  let ?cfg = "\<lparr>cfg_index_file = ''b'', cfg_try_html = False, cfg_chunk_size = 4\<rparr>"
  let ?np = "\<lparr>relative = ''a'', encoded_relative = ''a'', dir_hint = False\<rparr>"
  let ?f = "replicate 512 (CHR 0x00) @ ''x''"
  let ?look = "lookup (projr ?load) ?np (cfg_index_file ?cfg) (cfg_try_html ?cfg)"
  have "map_option (\<lambda>e. (te_offset e, te_size e)) ?look = Some (512, 1)" by code_simp
  then obtain e where e: "?look = Some e" and p: "te_offset e = 512" "te_size e = 1" by auto
  have i: "entry_in ?f e" and c: "entry_content ?f e = ''x''" by (simp_all add: entry_in_def entry_content_def p)
  show ?thesis
    by (rule exI [of _ "projr ?load"])
      (use static_delivery [OF e i accepts_visible_lib, of "\<lambda>_. AtMost 0" "\<lparr>sk_sent = [], sk_fails = None\<rparr>" no_dates "\<lambda>_. None"
      no_codec "\<lambda>_. Inl OtherIo" "AtMost 0" "get_head []"] in \<open>simp add: c\<close>)
qed

subsection \<open>Revalidation\<close>

lemma hex_digit_plain: "n < 16 \<Longrightarrow> visible (hex_digit n) \<and> is_etagc (hex_digit n) \<and> hex_digit n \<noteq> CHR ''W''"
proof -
  have "list_all (\<lambda>n. visible (hex_digit n) \<and> is_etagc (hex_digit n) \<and> hex_digit n \<noteq> CHR ''W'') [0..<16]"
    by code_simp
  then show "n < 16 \<Longrightarrow> ?thesis" by (simp add: list_all_iff)
qed

lemma hex_encode_plain: "c \<in> set (hex_encode_prefix bs) \<Longrightarrow> visible c \<and> is_etagc c \<and> c \<noteq> CHR ''W''"
proof -
  assume "c \<in> set (hex_encode_prefix bs)"
  then obtain b where "c = hex_digit (byte_val b div 16) \<or> c = hex_digit (byte_val b mod 16)"
    by (auto simp: hex_encode_prefix_def)
  moreover have "byte_val b div 16 < 16" using byte_val_less [of b] by linarith
  ultimately show ?thesis using hex_digit_plain by fastforce
qed

lemma index_items_etags:
  "index_items blake3 its ix = Inr ix' \<Longrightarrow>
   (\<forall>k e. store_get (ix_entries ix) k = Some e \<longrightarrow> te_etag e \<in> range (entry_etag blake3)) \<Longrightarrow>
   (\<forall>k e. store_get (ix_entries ix') k = Some e \<longrightarrow> te_etag e \<in> range (entry_etag blake3))"
proof (induction its arbitrary: ix)
  case (Cons it its)
  obtain ix1 where ix1: "index_item blake3 it ix = Inr ix1" "index_items blake3 its ix1 = Inr ix'"
    using Cons.prems(1) by (auto split: sum.splits)
  have "\<forall>k e. store_get (ix_entries ix1) k = Some e \<longrightarrow> te_etag e \<in> range (entry_etag blake3)"
    using ix1(1) Cons.prems(2)
    by (auto simp: index_item_def Let_def st.get_put split: option.splits if_splits)
  with Cons.IH [OF ix1(2)] show ?case by blast
qed simp

lemma loaded_etag:
  assumes "load_from_file blake3 items n m = Inr st" and "lookup st np idx th = Some e"
  shows "te_etag e \<in> range (entry_etag blake3)"
proof -
  obtain ix where ix: "index_items blake3 items \<lparr>ix_entries = [], ix_directories = {}, ix_mtimes = []\<rparr> = Inr ix"
    and s: "entries st = ix_entries ix"
    using assms(1) by (auto simp: load_from_file_def split: sum.splits if_splits)
  obtain key where "store_get (entries st) key = Some e"
    using lookup_key [OF assms(2)] by (metis get_entry_safe_def option.distinct(1))
  then show ?thesis using index_items_etags [OF ix] s by auto
qed

lemma plain_etag_header:
  assumes "accepts_visible lib" and "etag \<noteq> []" and "\<forall>c \<in> set etag. visible c \<and> is_etagc c \<and> c \<noteq> CHR ''W''"
  shows "etag_header_value lib etag = CHR 0x22 # etag @ [CHR 0x22]"
    and "entity_tag (etag_header_value lib etag)" and "value_to_str lib (etag_header_value lib etag)"
proof -
  have "is_etagc (hd etag)" and w: "hd etag \<noteq> CHR ''W''" using assms(3) hd_in_set [OF assms(2)] by blast+
  then have "hd etag \<noteq> CHR 0x22" using graphic_facts(4) by metis
  with w have "\<not> is_entity_tag_header_value etag"
    using assms(2) by (cases etag) (auto simp: is_entity_tag_header_value_def starts_with_def)
  moreover have "list_all visible (CHR 0x22 # etag @ [CHR 0x22])"
    using assms(3) graphic_visible [OF graphic_facts(1)] by (simp add: list_all_iff)
  ultimately show v: "etag_header_value lib etag = CHR 0x22 # etag @ [CHR 0x22]"
    and "value_to_str lib (etag_header_value lib etag)"
    using assms(1) by (simp_all add: etag_header_value_def accepts_visible_def)
  show "entity_tag (etag_header_value lib etag)"
    unfolding v entity_tag_def using assms(3) by (intro exI [of _ etag]) (simp add: list_all_iff)
qed

lemma range_keeps_etag:
  "hm_get (snd (snd (apply_static_range lib dl head h n etag lm))) ''etag'' = hm_get h ''etag''"
  by (rule apply_static_range_cases [where P = "\<lambda>x. hm_get (snd (snd x)) ''etag'' = hm_get h ''etag''"])
    (simp_all add: unsatisfiable_range_def set_unsatisfiable_range_def partial_range_def hm_insert_str_def Let_def)

lemma prepared_etag:
  assumes "lookup st np (cfg_index_file cfg) (cfg_try_html cfg) = Some e" and "te_etag e \<noteq> []"
    and "prepare_static_response lib dl f ans head st cfg ho [] np = Some resp"
  shows "hm_get (sr_headers resp) ''etag'' = Some (etag_header_value lib (te_etag e))"
proof -
  define h0 where "h0 = hm_insert ''accept-ranges'' ''bytes'' (insert_last_modified lib dl
      (hm_insert ''etag'' (etag_header_value lib (te_etag e))
        (build_base_headers lib (unat (te_size e)) (guess_mime (te_path e)))) (te_mtime e))"
  have e0: "hm_get h0 ''etag'' = Some (etag_header_value lib (te_etag e))"
    by (simp add: h0_def insert_last_modified_def)
  obtain status r h where a: "apply_static_range lib dl head h0 (unat (te_size e)) (te_etag e) (te_mtime e) = (status, r, h)"
    by (metis prod_cases3)
  then have h: "hm_get h ''etag'' = Some (etag_header_value lib (te_etag e))"
    using range_keeps_etag [of lib dl head h0 "unat (te_size e)" "te_etag e" "te_mtime e"] e0 by simp
  have "sr_headers resp = not_modified_headers lib dl (te_etag e) (te_mtime e) \<or> sr_headers resp = h"
    using assms(1,3) a
    by (auto simp: prepare_static_response_def should_template_replace_def Let_def h0_def split: if_splits)
  then show ?thesis
    using h assms(2) by (auto simp: not_modified_headers_def insert_last_modified_def Let_def)
qed

text \<open>C18. 
  Revalidation: every answer with a file of a loaded site carries its entity tag, and a client
  that sends this tag back in \<open>If-None-Match\<close> gets the answer 304 with the same tag.
\<close>

theorem revalidation:
  assumes "load_from_file blake3 items n m = Inr st" and "\<forall>c. blake3 c \<noteq> []" and "accepts_visible lib"
    and "lookup st np (cfg_index_file cfg) (cfg_try_html cfg) = Some e"
    and "prepare_static_response lib dl f ans head st cfg ho [] np = Some resp"
    and "hm_get (rq_headers head') ''if-none-match'' = hm_get (sr_headers resp) ''etag''"
  shows "\<exists>resp' t. prepare_static_response lib dl f ans' head' st cfg ho' [] np = Some resp' \<and>
     hm_get (sr_headers resp) ''etag'' = Some t \<and> sr_status resp' = 304 \<and>
     hm_get (sr_headers resp') ''etag'' = Some t \<and> sr_body resp' = EmptyBody"
proof -
  let ?t = "etag_header_value lib (te_etag e)"
  obtain c where c: "te_etag e = hex_encode_prefix (take 16 (blake3 c))"
    using loaded_etag [OF assms(1,4)] by (auto simp: entry_etag_def)
  have ne: "te_etag e \<noteq> []" using assms(2) by (cases "blake3 c") (auto simp: c hex_encode_prefix_def)
  have plain: "\<forall>x \<in> set (te_etag e). visible x \<and> is_etagc x \<and> x \<noteq> CHR ''W''"
    unfolding c using hex_encode_plain by blast
  note tag = plain_etag_header [OF assms(3) ne plain]
  have t: "hm_get (sr_headers resp) ''etag'' = Some ?t"
    by (rule prepared_etag [OF assms(4) ne assms(5)])
  have "if_none_match_matches_response lib (rq_headers head') ?t"
  proof -
    have "tag_loop (\<lambda>x. etag_weak_match x ?t) ?t"
      using tag_loop_join [of "[?t]" "\<lambda>x. etag_weak_match x ?t"] tag(2) by (simp add: etag_weak_match_def)
    moreover have "hm_get_str lib (rq_headers head') ''if-none-match'' = Some ?t"
      using assms(6) tag(3) t by (simp add: hm_get_str_def)
    ultimately show ?thesis using entity_tagE(1) [OF tag(2)] by (simp add: if_none_match_matches_response_def)
  qed
  then show ?thesis
    using t assms(4,6) ne tag(3) hm_contains_get [of "rq_headers head'" "''if-none-match''" ?t]
    by (simp add: prepare_static_response_def should_template_replace_def not_modified_by_request_def
        if_none_match_matches_def response_etag_string_def not_modified_headers_def Let_def)
qed

theorem revalidation_witness:
  "\<exists>st resp resp'. load_from_file (\<lambda>_. ''0123456789abcdef'') sample_archive 4096 1 = Inr st \<and>
     prepare_static_response visible_lib no_dates [] (AtMost 0) (get_head []) st
       \<lparr>cfg_index_file = ''b'', cfg_try_html = False, cfg_chunk_size = 4\<rparr> False []
       \<lparr>relative = ''a'', encoded_relative = ''a'', dir_hint = False\<rparr> = Some resp \<and>
     prepare_static_response visible_lib no_dates [] (AtMost 0)
       (get_head [(''if-none-match'', [the (hm_get (sr_headers resp) ''etag'')])]) st
       \<lparr>cfg_index_file = ''b'', cfg_try_html = False, cfg_chunk_size = 4\<rparr> False []
       \<lparr>relative = ''a'', encoded_relative = ''a'', dir_hint = False\<rparr> = Some resp' \<and>
     sr_status resp' = 304"
proof -
  let ?load = "load_from_file (\<lambda>_. ''0123456789abcdef'') sample_archive 4096 1"
  let ?cfg = "\<lparr>cfg_index_file = ''b'', cfg_try_html = False, cfg_chunk_size = 4\<rparr>"
  let ?np = "\<lparr>relative = ''a'', encoded_relative = ''a'', dir_hint = False\<rparr>"
  let ?look = "lookup (projr ?load) ?np (cfg_index_file ?cfg) (cfg_try_html ?cfg)"
  let ?prep = "\<lambda>h. prepare_static_response visible_lib no_dates [] (AtMost 0) (get_head h) (projr ?load) ?cfg False [] ?np"
  have "\<not> isl ?load" by code_simp
  then have l: "?load = Inr (projr ?load)" by (simp add: sum.expand)
  have "map_option te_path ?look = Some ''a/b''" by code_simp
  then obtain e where e: "?look = Some e" by auto
  then obtain resp where r: "?prep [] = Some resp"
    using prepare_some [OF e] by blast
  let ?h = "[(''if-none-match'', [the (hm_get (sr_headers resp) ''etag'')])]"
  have "te_etag e \<noteq> []"
    using loaded_etag [OF l e] by (auto simp: entry_etag_def hex_encode_prefix_def)
  then have t: "hm_get (sr_headers resp) ''etag'' = Some (etag_header_value visible_lib (te_etag e))"
    by (rule prepared_etag [OF e _ r])
  have "hm_get (rq_headers (get_head ?h)) ''if-none-match'' = hm_get (sr_headers resp) ''etag''"
    unfolding t by (simp add: hm_get_def hm_get_all_def get_head_def store_get_def)
  from revalidation [OF l _ accepts_visible_lib e r this, of "AtMost 0" False]
  obtain resp' where "?prep ?h = Some resp'" "sr_status resp' = 304" by auto
  then show ?thesis using l r by blast
qed

subsection \<open>A compressed body decodes to the content\<close>

text \<open>What a compressor makes of a list of pieces: its outputs, the last one at the end.\<close>

fun codec_feed :: "'s codec \<Rightarrow> 's \<Rightarrow> string list \<Rightarrow> io_kind + (string list \<times> 's)" where
  "codec_feed cd enc [] = Inr ([], enc)"
| "codec_feed cd enc (x # xs) =
     (case cd_push cd enc x of
        Inl k \<Rightarrow> Inl k
      | Inr (out, enc) \<Rightarrow>
          (case codec_feed cd enc xs of Inl k \<Rightarrow> Inl k | Inr (outs, enc) \<Rightarrow> Inr (out # outs, enc)))"

definition codec_run :: "'s codec \<Rightarrow> encoder_spec \<Rightarrow> string list \<Rightarrow> io_kind + string list" where
  "codec_run cd spec xs =
     (case cd_new cd spec of
        Inl k \<Rightarrow> Inl k
      | Inr enc \<Rightarrow>
          (case codec_feed cd enc xs of
             Inl k \<Rightarrow> Inl k
           | Inr (outs, enc) \<Rightarrow>
               (case cd_finish cd enc of Inl k \<Rightarrow> Inl k | Inr tail \<Rightarrow> Inr (outs @ [tail]))))"

text \<open>
  What the code relies on in \<open>flate2\<close> and \<open>zstd\<close>: compressing into memory succeeds, and
  the decompressor gives back the input, however it was cut into pieces.
\<close>

definition lossless :: "'s codec \<Rightarrow> (string \<Rightarrow> string) \<Rightarrow> bool" where
  "lossless cd unpack =
     (\<forall>spec xs. length (concat xs) < 2 ^ 63 \<longrightarrow>
        (\<exists>outs. codec_run cd spec xs = Inr outs \<and> unpack (concat outs) = concat xs \<and>
                length (concat outs) < 2 ^ 64))"

text \<open>The bytes a body stands for, where there are such bytes.\<close>

definition body_content :: "string \<Rightarrow> (string \<Rightarrow> io_kind + string) \<Rightarrow> static_body \<Rightarrow> string option" where
  "body_content f fs body =
     (case body of
        EmptyBody \<Rightarrow> Some []
      | BytesBody b \<Rightarrow> Some b
      | FileBody e None \<Rightarrow> if entry_in f e then Some (entry_content f e) else None
      | FsFileBody path len None \<Rightarrow>
          (case fs path of Inl _ \<Rightarrow> None | Inr c \<Rightarrow> if len \<le> length c then Some (take len c) else None)
      | _ \<Rightarrow> None)"

lemma push_chunk_ok:
  "sk_fails sk = None \<Longrightarrow> cd_push cd enc x = Inr (out, enc') \<Longrightarrow>
   push_chunk cd enc x sk = (Inr enc', sk\<lparr>sk_sent := sk_sent sk @ write_chunk out\<rparr>)"
  by (simp add: push_chunk_def write_all_ok)

lemma compress_loop_pieces:
  "0 < c \<Longrightarrow> off + n \<le> length f \<Longrightarrow> (\<forall>i. \<exists>m. rd i = AtMost m) \<Longrightarrow>
   \<exists>xs. concat xs = take n (drop off f) \<and>
     (\<forall>(cd :: 's codec) enc outs enc' (sk :: sock). sk_fails sk = None \<longrightarrow> codec_feed cd enc xs = Inr (outs, enc') \<longrightarrow>
        compress_loop cd enc f c rd i off n sk =
          (Inr enc', sk\<lparr>sk_sent := sk_sent sk @ concat (map write_chunk outs)\<rparr>))"
proof (induction n arbitrary: i off rule: less_induct)
  case (less n)
  show ?case
  proof (cases "n = 0")
    case True
    then show ?thesis by (intro exI [of _ "[]"]) (simp add: compress_loop.simps)
  next
    case False
    obtain m where m: "rd i = AtMost m" using less(4) by blast
    then obtain data where d: "read_at f (rd i) off (min n c) = Inr data" by (simp add: read_at_def)
    note rd = read_at_SomeD [OF d]
    have ne: "data \<noteq> []" using rd(3) False less(2,3) by simp
    have rest: "take n (drop off f) = data @ take (n - length data) (drop (off + length data) f)"
      using rd(1,2) by (metis add.commute drop_drop le_add_diff_inverse min.boundedE take_add)
    have "n - length data < n" and "off + length data + (n - length data) \<le> length f"
      using ne False rd(2) less(3) by auto
    from less(1) [OF this(1) less(2) this(2) less(4), of "Suc i"] obtain xs where
      xs: "concat xs = take (n - length data) (drop (off + length data) f)"
      "\<forall>(cd :: 's codec) enc outs enc' (sk :: sock). sk_fails sk = None \<longrightarrow> codec_feed cd enc xs = Inr (outs, enc') \<longrightarrow>
        compress_loop cd enc f c rd (Suc i) (off + length data) (n - length data) sk =
          (Inr enc', sk\<lparr>sk_sent := sk_sent sk @ concat (map write_chunk outs)\<rparr>)"
      by blast
    show ?thesis
    proof (intro exI [of _ "data # xs"] conjI allI impI)
      show "concat (data # xs) = take n (drop off f)" using xs(1) rest by simp
    next
      fix cd :: "'s codec" and enc outs enc' and sk :: sock
      assume sk: "sk_fails sk = None" and feed: "codec_feed cd enc (data # xs) = Inr (outs, enc')"
      obtain out enc1 outs1 where o: "cd_push cd enc data = Inr (out, enc1)"
        "codec_feed cd enc1 xs = Inr (outs1, enc')" "outs = out # outs1"
        using feed by (auto split: sum.splits)
      show "compress_loop cd enc f c rd i off n sk =
          (Inr enc', sk\<lparr>sk_sent := sk_sent sk @ concat (map write_chunk outs)\<rparr>)"
        using False d ne xs(2) [rule_format, OF _ o(2), of "sk\<lparr>sk_sent := sk_sent sk @ write_chunk out\<rparr>"] sk o(3)
        by (subst compress_loop.simps) (simp add: push_chunk_ok [OF sk o(1)])
    qed
  qed
qed

lemma read_tar_entry_ok:
  assumes "entry_in f e"
  shows "read_tar_entry f e (AtMost m) = Inr (entry_content f e)"
  using assms length_entry_content [OF assms] by (simp add: read_tar_entry_def entry_content_def entry_in_def)

lemma compress_body_pieces:
  assumes "body_content f fs body = Some d" and "0 < c" and "\<forall>i. \<exists>m. rd i = AtMost m"
  shows "\<exists>xs. concat xs = d \<and>
     (\<forall>(cd :: 's codec) enc outs enc' (sk :: sock). sk_fails sk = None \<longrightarrow> codec_feed cd enc xs = Inr (outs, enc') \<longrightarrow>
        compress_body cd enc f fs c rd body sk =
          (Inr enc', sk\<lparr>sk_sent := sk_sent sk @ concat (map write_chunk outs)\<rparr>))"
proof -
  obtain m where m: "rd 0 = AtMost m" using assms(3) by blast
  have one: "?thesis" if "\<And>(cd :: 's codec) enc (sk :: sock). compress_body cd enc f fs c rd body sk = push_chunk cd enc d sk"
    using that by (intro exI [of _ "[d]"]) (auto simp: push_chunk_ok split: sum.splits)
  show ?thesis
  proof (cases body)
    case EmptyBody
    then show ?thesis using assms(1) by (intro exI [of _ "[]"]) (simp add: body_content_def compress_body_def)
  next
    case (BytesBody b)
    then show ?thesis using assms(1) by (intro one) (simp add: body_content_def compress_body_def)
  next
    case (FileBody e r)
    then show ?thesis using assms(1) m
      by (intro one) (auto simp: body_content_def compress_body_def read_tar_entry_ok split: option.splits if_splits)
  next
    case (FsFileBody path len r)
    then obtain content where "fs path = Inr content" "len \<le> length content" "d = take len content"
      using assms(1) by (auto simp: body_content_def split: option.splits sum.splits if_splits)
    with FsFileBody compress_loop_pieces [OF assms(2) _ assms(3), of 0 len content 0] show ?thesis
      by (simp add: compress_body_def)
  qed
qed

lemma body_stream_chunks:
  assumes "\<forall>x \<in> set outs. length x < 2 ^ 64"
  shows "body_stream (BChunked 0 False False False) (concat (map write_chunk outs) @ write_chunk_end @ rest) (concat outs) rest"
  using assms
proof (induction outs)
  case Nil
  then show ?case using body_stream_end [of rest] by (simp add: write_chunk_end_def)
next
  case (Cons x xs)
  then have "body_stream (BChunked 0 False False False) (concat (map write_chunk xs) @ write_chunk_end @ rest) (concat xs) rest"
    by simp
  from body_stream_frame [OF _ _ this, of x] this Cons(2) show ?case
    by (cases "x = []") (simp_all add: write_chunk_def [of x] write_chunk_def [of "[]"] chunk_frame_def)
qed

lemma compressed_body:
  fixes cd :: "'s codec"
  assumes "lossless cd unpack" and "body_content f fs body = Some d" and "length d < 2 ^ 63"
    and "0 < c" and "\<forall>i. \<exists>m. rd i = AtMost m" and "sk_fails sk = None"
  shows "\<exists>z packed. write_static_body_compressed_h1 cd f fs c rd body spec sk =
       (Inr (), sk\<lparr>sk_sent := sk_sent sk @ z\<rparr>) \<and> unpack packed = d \<and>
     (\<forall>rest. body_stream (BChunked 0 False False False) (z @ rest) packed rest)"
proof -
  obtain xs where xs: "concat xs = d"
    "\<forall>(cd :: 's codec) enc outs enc' (sk :: sock). sk_fails sk = None \<longrightarrow> codec_feed cd enc xs = Inr (outs, enc') \<longrightarrow>
        compress_body cd enc f fs c rd body sk =
          (Inr enc', sk\<lparr>sk_sent := sk_sent sk @ concat (map write_chunk outs)\<rparr>)"
    using compress_body_pieces [OF assms(2,4,5)] by blast
  obtain outs where outs: "codec_run cd spec xs = Inr outs" "unpack (concat outs) = d" "length (concat outs) < 2 ^ 64"
    using assms(1,3) xs(1) unfolding lossless_def by blast
  obtain enc os enc' tail where run: "cd_new cd spec = Inr enc" "codec_feed cd enc xs = Inr (os, enc')"
    "cd_finish cd enc' = Inr tail" "outs = os @ [tail]"
    using outs(1) by (auto simp: codec_run_def split: sum.splits)
  have "\<forall>x \<in> set outs. length x < 2 ^ 64"
  proof
    fix x assume "x \<in> set outs"
    then have "length x \<le> length (concat outs)" by (auto simp: length_concat intro: member_le_sum_list)
    with outs(3) show "length x < 2 ^ 64" by simp
  qed
  note stream = body_stream_chunks [OF this]
  have "write_static_body_compressed_h1 cd f fs c rd body spec sk =
      (Inr (), sk\<lparr>sk_sent := sk_sent sk @ concat (map write_chunk outs) @ write_chunk_end\<rparr>)"
    using run xs(2) [rule_format, OF assms(6) run(2)] assms(6)
    by (simp add: write_static_body_compressed_h1_def write_all_ok)
  then show ?thesis using stream outs(2) by (intro exI) auto
qed

lemma encoding_named:
  assumes "value_from_str lib name" and "store_wf headers"
  shows "hm_get (apply_encoding_headers lib headers name) ''content-encoding'' = Some name"
    and "hm_get (apply_encoding_headers lib headers name) ''content-length'' = None"
  using assms by (simp_all add: apply_encoding_headers_def Let_def split: option.split)


text \<open>The codec that stores its input, for the witness.\<close>

definition stored :: "unit codec" where
  "stored = \<lparr>cd_new = \<lambda>_. Inr (), cd_push = \<lambda>_ x. Inr (x, ()), cd_finish = \<lambda>_. Inr []\<rparr>"

lemma lossless_stored: "lossless stored id"
proof -
  have "codec_feed stored u xs = Inr (xs, ())" for u xs by (induction xs arbitrary: u) (simp_all add: stored_def)
  then have "codec_run stored spec xs = Inr (xs @ [[]])" for spec xs by (simp add: codec_run_def stored_def)
  then show ?thesis by (simp add: lossless_def)
qed

lemma sample_decide:
  "decide visible_lib \<lparr>es_config = sample_config, es_accept_encoding = ''gzip, zstd'', es_sec_websocket_key = []\<rparr>
     200 [(''content-length'', [''900''])] (Some 900) = Some (''zstd'', Zstd 3 False)"
  by (simp add: decide_def sample_negotiate hm_get_def hm_get_all_def store_get_def encode_allowed_def
      hm_get_str_def str_contains_def matcher_matches_def match_status_def)
    (simp add: sample_config_def)


end
