(* ===== verification/Btree.thy ===== *)
theory Btree
  imports Rust_Text
begin

text \<open>
  The order of Rust strings, which compares bytes, and \<open>BTreeMap\<close> with string keys: an
  association list in the order of its keys, under the contract of a keyed store.
\<close>

fun str_less :: "string \<Rightarrow> string \<Rightarrow> bool" where
  "str_less xs [] = False"
| "str_less [] (y # ys) = True"
| "str_less (x # xs) (y # ys) = (byte_val x < byte_val y \<or> x = y \<and> str_less xs ys)"

lemma str_less_irrefl [simp]: "\<not> str_less s s"
  by (induction s) simp_all

lemma str_less_trans: "str_less a b \<Longrightarrow> str_less b c \<Longrightarrow> str_less a c"
proof (induction a b arbitrary: c rule: str_less.induct)
  case (3 x xs y ys)
  then show ?case by (cases c) auto
next
  case (2 y ys)
  then show ?case by (cases c) auto
qed simp

lemma str_less_total: "a \<noteq> b \<Longrightarrow> str_less a b \<or> str_less b a"
proof (induction a b rule: str_less.induct)
  case (1 xs)
  then show ?case by (cases xs) simp_all
next
  case (3 x xs y ys)
  then show ?case using byte_val_inject [of x y] by (cases "x = y") auto
qed simp

lemma str_less_asym: "str_less a b \<Longrightarrow> \<not> str_less b a"
  using str_less_trans str_less_irrefl by blast

type_synonym 'v btree = "(string \<times> 'v) list"

fun btree_put :: "string \<Rightarrow> 'v \<Rightarrow> 'v btree \<Rightarrow> 'v btree" where
  "btree_put k v [] = [(k, v)]"
| "btree_put k v ((a, b) # m) =
     (if k = a then (k, v) # m
      else if str_less k a then (k, v) # (a, b) # m
      else (a, b) # btree_put k v m)"

definition btree_wf :: "'v btree \<Rightarrow> bool" where
  "btree_wf m = sorted_wrt str_less (map fst m)"

lemma btree_put_keys: "fst ` set (btree_put k v m) = insert k (fst ` set m)"
  by (induction k v m rule: btree_put.induct) auto

lemma btree_wf_put: "btree_wf m \<Longrightarrow> btree_wf (btree_put k v m)"
proof (induction k v m rule: btree_put.induct)
  case (2 k v a b m)
  have "str_less a k" if "k \<noteq> a" "\<not> str_less k a" using str_less_total [of a k] that by blast
  with 2 show ?case
    by (auto simp: btree_wf_def btree_put_keys intro: str_less_trans)
qed (simp add: btree_wf_def)

lemma btree_wf_distinct: "btree_wf m \<Longrightarrow> distinct (map fst m)"
  by (induction m) (auto simp: btree_wf_def)

text \<open>A new largest key goes to the end.\<close>

lemma btree_put_last:
  "\<forall>x \<in> set m. str_less (fst x) k \<Longrightarrow> btree_put k v m = m @ [(k, v)]"
  by (induction k v m rule: btree_put.induct) (auto dest: str_less_asym)

interpretation bt: keyed_store store_get btree_put store_retain length btree_wf
proof (unfold_locales, goal_cases)
  case (1 k v m k')
  show ?case by (induction k v m rule: btree_put.induct) (auto simp: store_get_def)
next
  case (2 m p k)
  then show ?case
    by (simp add: store_get_def store_retain_def map_of_filter_distinct btree_wf_distinct)
next
  case (3 m k v)
  then show ?case
  proof (induction k v m rule: btree_put.induct)
    case (2 k v a b m)
    have "map_of m k = None" if "str_less k a"
      using 2(2) that str_less_trans [of k a k]
      by (force simp: btree_wf_def map_of_eq_None_iff)
    with 2 show ?case by (auto simp: store_get_def btree_wf_def)
  qed (simp add: store_get_def)
next
  case (4 p m)
  show ?case by (simp add: store_retain_def)
next
  case (5 m k v)
  then show ?case by (rule btree_wf_put)
next
  case (6 m p)
  then show ?case
    by (induction m) (auto simp: btree_wf_def store_retain_def)
qed

lemma btree_wf_Nil [simp]: "btree_wf []"
  by (simp add: btree_wf_def)

end
