(* ===== verification/Expression.thy ===== *)
theory Expression
  imports Btree Wire
begin

text \<open>
  The expressions of Caddy's \<open>expression\<close> matcher, \<open>src/src/caddy_compile.rs\<close>: the tokenizer and
  the recursive-descent parser.  The parser's position is the list of tokens not yet read.  Text
  is the list of its UTF-8 bytes; every character the tokenizer distinguishes outside
  whitespace is ASCII.
\<close>

subsection \<open>Syntax\<close>

datatype expression_arg = ArgString string | ArgMap "string list btree"

datatype numeric_compare_op = OpGt | OpGe | OpLt | OpLe

datatype expression_ast =
    EBool bool
  | EAnd expression_ast expression_ast
  | EOr expression_ast expression_ast
  | ENot expression_ast
  | EEq string string
  | ENe string string
  | EMatches string string
  | EIn string "string list"
  | ECompare string numeric_compare_op string
  | ECall string "expression_arg list"

datatype expression_token =
    XIdent string | XString string | XLParen | XRParen | XLBrace | XRBrace | XLBracket | XRBracket
  | XColon | XComma | XDot | XPlus | XEq | XNe | XGt | XGe | XLt | XLe | XIn | XAnd | XOr | XNot
  | XNumber string

datatype expression_error =
    TrailingTokens
  | MethodNameRequired
  | UnsupportedMethod string
  | ValueNotCompared
  | ExpectedCall
  | ExpectedArgument
  | KeyNotString
  | ArrayValueNotString
  | ExpectedString
  | Expected expression_token
  | ExpectedPair string nat
  | UnterminatedEscape
  | UnterminatedString nat
  | NestedPlaceholder nat
  | UnterminatedPlaceholder nat
  | UnsupportedCharacter nat

subsection \<open>The tokenizer\<close>

text \<open>\<open>n\<close> is the length of the whole expression, so that the suffix \<open>s\<close> begins at byte
  \<open>n - length s\<close>.\<close>

definition unescape :: "char \<Rightarrow> string" where
  "unescape e =
     (if e \<in> {CHR 0x5C, CHR 0x27, CHR 0x22, CHR ''{''} then [e]
      else if e = CHR ''n'' then [CHR 0x0A]
      else if e = CHR ''r'' then [CHR 0x0D]
      else if e = CHR ''t'' then [CHR 0x09]
      else [CHR 0x5C, e])"

fun read_expression_string :: "nat \<Rightarrow> char \<Rightarrow> string \<Rightarrow> string \<Rightarrow> expression_error + (string \<times> string)" where
  "read_expression_string start quote out [] = Inl (UnterminatedString start)"
| "read_expression_string start quote out (c # cs) =
     (if c = quote then Inr (out, cs)
      else if quote = CHR 0x60 then read_expression_string start quote (out @ [c]) cs
      else if c = CHR 0x5C then
        (case cs of
           [] \<Rightarrow> Inl UnterminatedEscape
         | e # cs' \<Rightarrow>
             read_expression_string start quote (out @ unescape e) cs')
      else read_expression_string start quote (out @ [c]) cs)"

definition leading_ws :: "string \<Rightarrow> string option" where
  "leading_ws s = find (starts_with s) ws_prefix"

definition expression_brace_starts_map :: "string \<Rightarrow> bool" where
  "expression_brace_starts_map s =
     (case s of
        [] \<Rightarrow> True
      | c # _ \<Rightarrow> leading_ws s \<noteq> None \<or> c \<in> {CHR 0x27, CHR 0x22, CHR ''}'', CHR ''{''})"

fun read_expression_placeholder :: "nat \<Rightarrow> nat \<Rightarrow> string \<Rightarrow> string \<Rightarrow> expression_error + (string \<times> string)" where
  "read_expression_placeholder n start out [] = Inl (UnterminatedPlaceholder start)"
| "read_expression_placeholder n start out (c # cs) =
     (if c = CHR ''}'' then Inr (out @ [c], cs)
      else if c = CHR ''{'' then Inl (NestedPlaceholder (n - length (c # cs)))
      else read_expression_placeholder n start (out @ [c]) cs)"

definition ident_char :: "char \<Rightarrow> bool" where
  "ident_char c = (c = CHR ''_'' \<or> is_ascii_alphabetic c \<or> is_ascii_digit c)"

definition punctuation :: "char \<Rightarrow> expression_token option" where
  "punctuation c =
     (if c = CHR ''('' then Some XLParen else if c = CHR '')'' then Some XRParen
      else if c = CHR ''}'' then Some XRBrace else if c = CHR ''['' then Some XLBracket
      else if c = CHR '']'' then Some XRBracket else if c = CHR '':'' then Some XColon
      else if c = CHR '','' then Some XComma else if c = CHR ''.'' then Some XDot
      else if c = CHR ''+'' then Some XPlus else None)"

text \<open>One token, or None for whitespace, at the front of a text, with what follows it.\<close>

definition next_expr_token :: "nat \<Rightarrow> char \<Rightarrow> string \<Rightarrow> expression_error + (expression_token \<times> string)" where
  "next_expr_token n c cs =
     (let idx = n - Suc (length cs);
          longer = (\<lambda>yes no. if starts_with cs ''='' then Inr (yes, tl cs) else Inr (no, cs));
          pair = (\<lambda>d tok. if starts_with cs [d] then Inr (tok, tl cs) else Inl (ExpectedPair [c, d] idx))
      in case punctuation c of
           Some tok \<Rightarrow> Inr (tok, cs)
         | None \<Rightarrow>
             if c = CHR ''{'' then
               (if expression_brace_starts_map cs then Inr (XLBrace, cs)
                else map_sum id (\<lambda>(s, r). (XString s, r)) (read_expression_placeholder n idx [c] cs))
             else if c = CHR ''='' then pair (CHR ''='') XEq
             else if c = CHR ''!'' then longer XNe XNot
             else if c = CHR ''>'' then longer XGe XGt
             else if c = CHR ''<'' then longer XLe XLt
             else if c = CHR ''&'' then pair (CHR ''&'') XAnd
             else if c = CHR ''|'' then pair (CHR ''|'') XOr
             else if c \<in> {CHR 0x27, CHR 0x22, CHR 0x60} then
               map_sum id (\<lambda>(s, r). (XString s, r)) (read_expression_string idx c [] cs)
             else if c = CHR ''_'' \<or> is_ascii_alphabetic c then
               (let ident = c # takeWhile ident_char cs
                in Inr (if ident = ''in'' then XIn else XIdent ident, dropWhile ident_char cs))
             else if is_ascii_digit c then
               Inr (XNumber (c # takeWhile is_ascii_digit cs), dropWhile is_ascii_digit cs)
             else Inl (UnsupportedCharacter idx))"

lemma read_string_shorter:
  "read_expression_string start quote out s = Inr (t, r) \<Longrightarrow> length r < length s"
proof (induction start quote out s rule: read_expression_string.induct)
  case (2 start quote out c cs)
  show ?case
  proof (cases "c = CHR 0x5C \<and> c \<noteq> quote \<and> quote \<noteq> CHR 0x60")
    case True
    then show ?thesis using 2 by (cases cs) (auto simp: less_Suc_eq)
  next
    case False
    then show ?thesis using 2 by (auto simp: less_Suc_eq split: if_splits)
  qed
qed simp

lemma read_placeholder_shorter:
  "read_expression_placeholder n start out s = Inr (t, r) \<Longrightarrow> length r < length s"
  by (induction n start out s rule: read_expression_placeholder.induct) (auto split: if_splits)

definition reads_within :: "string \<Rightarrow> expression_error + ('t \<times> string) \<Rightarrow> bool" where
  "reads_within cs x = (\<forall>t r. x = Inr (t, r) \<longrightarrow> length r \<le> length cs)"

lemma reads_within_simps:
  "reads_within cs (Inl e)" "reads_within cs (Inr (t, r)) \<longleftrightarrow> length r \<le> length cs"
  "reads_within cs (if b then x else y) \<longleftrightarrow> (if b then reads_within cs x else reads_within cs y)"
  "reads_within cs (map_sum id (\<lambda>(s, r). (f s, r)) x) \<longleftrightarrow> reads_within cs x"
  "reads_within cs (read_expression_string start quote out cs)"
  "reads_within cs (read_expression_placeholder n start out cs)"
  by (auto simp: reads_within_def dest: read_string_shorter read_placeholder_shorter)
    (cases x; force)+

lemma next_expr_token_shorter: "next_expr_token n c cs = Inr (t, r) \<Longrightarrow> length r \<le> length cs"
proof -
  have "reads_within cs (next_expr_token n c cs)"
    unfolding next_expr_token_def Let_def
    by (cases "punctuation c")
      (simp_all only: option.case reads_within_simps length_tl length_dropWhile_le if_cancel diff_le_self
        order_refl simp_thms)
  then show "next_expr_token n c cs = Inr (t, r) \<Longrightarrow> ?thesis" by (simp add: reads_within_def)
qed

lemma leading_ws_ne: "leading_ws s = Some w \<Longrightarrow> w \<noteq> []"
  using ws_not_graphic [of w] by (force simp: leading_ws_def find_Some_iff in_set_conv_nth)

function tokenize_loop :: "nat \<Rightarrow> string \<Rightarrow> expression_error + expression_token list" where
  "tokenize_loop n [] = Inr []"
| "tokenize_loop n (c # cs) =
     (case leading_ws (c # cs) of
        Some w \<Rightarrow> tokenize_loop n (drop (length w) (c # cs))
      | None \<Rightarrow>
          (case next_expr_token n c cs of
             Inl e \<Rightarrow> Inl e
           | Inr (tok, r) \<Rightarrow>
               (case tokenize_loop n r of Inl e \<Rightarrow> Inl e | Inr toks \<Rightarrow> Inr (tok # toks))))"
  by pat_completeness auto
termination
proof (relation "measure (\<lambda>(_, s). length s)", goal_cases)
  case (2 n c cs tr t r)
  then show ?case using next_expr_token_shorter [of n c cs t r] by simp
next
  case (3 n c cs w)
  then show ?case using leading_ws_ne [of "c # cs" w] by (cases w) auto
qed simp

declare tokenize_loop.simps [simp del]

definition tokenize_expression :: "string \<Rightarrow> expression_error + expression_token list" where
  "tokenize_expression expr = tokenize_loop (length expr) expr"

subsection \<open>The parser\<close>

type_synonym 'a parse_result = "expression_error + ('a \<times> expression_token list)"

definition consumes :: "expression_token \<Rightarrow> expression_token list \<Rightarrow> bool" where
  "consumes tok toks = (case toks of [] \<Rightarrow> False | t # _ \<Rightarrow> t = tok)"

definition expect :: "expression_token \<Rightarrow> expression_token list \<Rightarrow> expression_error + expression_token list" where
  "expect tok toks = (if consumes tok toks then Inr (tl toks) else Inl (Expected tok))"

definition peek_string :: "expression_token list \<Rightarrow> bool" where
  "peek_string toks = (case toks of XString _ # _ \<Rightarrow> True | _ \<Rightarrow> False)"

definition parse_string_atom :: "expression_token list \<Rightarrow> string parse_result" where
  "parse_string_atom toks = (case toks of XString s # r \<Rightarrow> Inr (s, r) | _ \<Rightarrow> Inl ExpectedString)"

lemma parse_string_atom_Inr [simp]: "parse_string_atom toks = Inr (s, r) \<longleftrightarrow> toks = XString s # r"
  by (auto simp: parse_string_atom_def split: list.splits expression_token.splits)

lemma consumes_iff: "consumes tok toks \<longleftrightarrow> (\<exists>r. toks = tok # r)"
  by (auto simp: consumes_def split: list.splits)

lemma consumes_Cons [simp]: "consumes tok (t # r) \<longleftrightarrow> t = tok"
  by (simp add: consumes_def)

lemma expect_Inr [simp]: "expect tok toks = Inr r \<longleftrightarrow> toks = tok # r"
  by (auto simp: expect_def consumes_iff)

text \<open>The loop over \<open>+\<close>.\<close>

function string_sum :: "string \<Rightarrow> expression_token list \<Rightarrow> string parse_result" where
  "string_sum out toks =
     (if consumes XPlus toks then
        (case parse_string_atom (tl toks) of
           Inl e \<Rightarrow> Inl e
         | Inr (s, r) \<Rightarrow> string_sum (out @ s) r)
      else Inr (out, toks))"
  by pat_completeness auto
termination
  by (relation "measure (\<lambda>(_, toks). length toks)") (auto simp: consumes_iff)

declare string_sum.simps [simp del]

definition parse_string_expr :: "expression_token list \<Rightarrow> string parse_result" where
  "parse_string_expr toks =
     (case parse_string_atom toks of Inl e \<Rightarrow> Inl e | Inr (s, r) \<Rightarrow> string_sum s r)"

definition parse_numeric_expr :: "expression_token list \<Rightarrow> string parse_result" where
  "parse_numeric_expr toks = (case toks of XNumber v # r \<Rightarrow> Inr (v, r) | _ \<Rightarrow> parse_string_expr toks)"

lemma string_sum_shorter: "string_sum out toks = Inr (s, r) \<Longrightarrow> length r \<le> length toks"
proof (induction out toks rule: string_sum.induct)
  case (1 out toks)
  note step = 1(2) [unfolded string_sum.simps [of out toks]]
  show ?case
    using step 1(1) by (fastforce simp: consumes_iff split: if_splits sum.splits)
qed

lemma parse_string_expr_shorter: "parse_string_expr toks = Inr (s, r) \<Longrightarrow> length r < length toks"
  by (auto simp: parse_string_expr_def dest: string_sum_shorter split: sum.splits)

lemma parse_numeric_expr_shorter: "parse_numeric_expr toks = Inr (s, r) \<Longrightarrow> length r < length toks"
  by (auto simp: parse_numeric_expr_def dest: parse_string_expr_shorter
      split: list.splits expression_token.splits)

function numeric_list_loop :: "string list \<Rightarrow> expression_token list \<Rightarrow> string list parse_result" where
  "numeric_list_loop values toks =
     (case parse_numeric_expr toks of
        Inl e \<Rightarrow> Inl e
      | Inr (v, r) \<Rightarrow>
          if consumes XRBracket r then Inr (values @ [v], tl r)
          else (case expect XComma r of
                  Inl e \<Rightarrow> Inl e
                | Inr r' \<Rightarrow> numeric_list_loop (values @ [v]) r'))"
  by pat_completeness auto
termination
  by (relation "measure (\<lambda>(_, toks). length toks)") (auto dest: parse_numeric_expr_shorter)

definition parse_numeric_list :: "expression_token list \<Rightarrow> string list parse_result" where
  "parse_numeric_list toks =
     (case expect XLBracket toks of
        Inl e \<Rightarrow> Inl e
      | Inr r \<Rightarrow> if consumes XRBracket r then Inr ([], tl r) else numeric_list_loop [] r)"

function string_array_loop :: "string list \<Rightarrow> expression_token list \<Rightarrow> string list parse_result" where
  "string_array_loop values toks =
     (if \<not> peek_string toks then Inl ArrayValueNotString
      else
        (case parse_string_expr toks of
           Inl e \<Rightarrow> Inl e
         | Inr (v, r) \<Rightarrow>
             if consumes XRBracket r then Inr (values @ [v], tl r)
             else (case expect XComma r of
                     Inl e \<Rightarrow> Inl e
                   | Inr r' \<Rightarrow> string_array_loop (values @ [v]) r')))"
  by pat_completeness auto
termination
  by (relation "measure (\<lambda>(_, toks). length toks)") (auto dest: parse_string_expr_shorter)

text \<open>The value of one key: a string, or an array of strings.\<close>

definition parse_map_value :: "expression_token list \<Rightarrow> string list parse_result" where
  "parse_map_value toks =
     (if peek_string toks then map_sum id (\<lambda>(v, r). ([v], r)) (parse_string_expr toks)
      else
        (case expect XLBracket toks of
           Inl e \<Rightarrow> Inl e
         | Inr r \<Rightarrow> if consumes XRBracket r then Inr ([], tl r) else string_array_loop [] r))"

declare numeric_list_loop.simps [simp del] string_array_loop.simps [simp del]

lemma numeric_list_loop_shorter: "numeric_list_loop vs toks = Inr (x, r) \<Longrightarrow> length r < length toks"
proof (induction vs toks rule: numeric_list_loop.induct)
  case (1 vs toks)
  note step = 1(2) [unfolded numeric_list_loop.simps [of vs toks]]
  show ?case
    using step 1(1)
    by (fastforce simp: consumes_iff dest: parse_numeric_expr_shorter split: if_splits sum.splits)
qed

lemma string_array_loop_shorter: "string_array_loop vs toks = Inr (x, r) \<Longrightarrow> length r < length toks"
proof (induction vs toks rule: string_array_loop.induct)
  case (1 vs toks)
  note step = 1(2) [unfolded string_array_loop.simps [of vs toks]]
  show ?case
    using step 1(1)
    by (fastforce simp: consumes_iff dest: parse_string_expr_shorter split: if_splits sum.splits)
qed

lemma map_value_string_Inr:
  "map_sum id (\<lambda>(v, r). (f v, r)) x = Inr (y, r) \<longleftrightarrow> (\<exists>v. x = Inr (v, r) \<and> y = f v)"
  by (cases x) auto

lemma parse_map_value_shorter: "parse_map_value toks = Inr (x, r) \<Longrightarrow> length r < length toks"
  by (auto simp: parse_map_value_def consumes_iff map_value_string_Inr
      dest: parse_string_expr_shorter string_array_loop_shorter split: if_splits sum.splits)

lemma parse_numeric_list_shorter: "parse_numeric_list toks = Inr (x, r) \<Longrightarrow> length r < length toks"
  by (auto simp: parse_numeric_list_def consumes_iff
      dest: numeric_list_loop_shorter split: if_splits sum.splits)

function map_loop :: "string list btree \<Rightarrow> expression_token list \<Rightarrow> string list btree parse_result" where
  "map_loop m toks =
     (if \<not> peek_string toks then Inl KeyNotString
      else
        (case parse_string_expr toks of
           Inl e \<Rightarrow> Inl e
         | Inr (key, r) \<Rightarrow>
             (case expect XColon r of
                Inl e \<Rightarrow> Inl e
              | Inr r1 \<Rightarrow>
                  (case parse_map_value r1 of
                     Inl e \<Rightarrow> Inl e
                   | Inr (values, r2) \<Rightarrow>
                       (let m = btree_put key values m
                        in if consumes XRBrace r2 then Inr (m, tl r2)
                           else (case expect XComma r2 of
                                   Inl e \<Rightarrow> Inl e
                                 | Inr r3 \<Rightarrow> map_loop m r3))))))"
  by pat_completeness auto
termination
  by (relation "measure (\<lambda>(_, toks). length toks)")
    (fastforce dest: parse_string_expr_shorter parse_map_value_shorter)+

declare map_loop.simps [simp del]

definition parse_map :: "expression_token list \<Rightarrow> expression_arg parse_result" where
  "parse_map toks =
     (if consumes XRBrace toks then Inr (ArgMap [], tl toks)
      else map_sum id (\<lambda>(m, r). (ArgMap m, r)) (map_loop [] toks))"

definition parse_arg :: "expression_token list \<Rightarrow> expression_arg parse_result" where
  "parse_arg toks =
     (if peek_string toks then map_sum id (\<lambda>(s, r). (ArgString s, r)) (parse_string_expr toks)
      else if consumes XLBrace toks then parse_map (tl toks)
      else Inl ExpectedArgument)"

lemma map_loop_shorter: "map_loop m toks = Inr (x, r) \<Longrightarrow> length r < length toks"
proof (induction m toks rule: map_loop.induct)
  case (1 m toks)
  note step = 1(2) [unfolded map_loop.simps [of m toks] Let_def]
  obtain key r0 r1 vs r2 where p: "peek_string toks" "parse_string_expr toks = Inr (key, r0)" "r0 = XColon # r1"
    "parse_map_value r1 = Inr (vs, r2)"
    using step by (auto split: if_splits sum.splits)
  then have "length r2 < length toks"
    using parse_string_expr_shorter [OF p(2)] parse_map_value_shorter [OF p(4)] by simp
  moreover have "r2 = XRBrace # r \<or> (\<exists>r3. r2 = XComma # r3 \<and> length r < length r3)"
    using step p 1(1) [OF _ p(2) _ _ p(4)] by (auto simp: consumes_iff split: if_splits sum.splits)
  ultimately show ?case by auto
qed

lemma parse_arg_shorter: "parse_arg toks = Inr (x, r) \<Longrightarrow> length r < length toks"
  by (auto simp: parse_arg_def parse_map_def consumes_iff map_value_string_Inr
      dest: parse_string_expr_shorter map_loop_shorter split: if_splits)

function args_loop :: "expression_arg list \<Rightarrow> expression_token list \<Rightarrow> expression_arg list parse_result" where
  "args_loop args toks =
     (case parse_arg toks of
        Inl e \<Rightarrow> Inl e
      | Inr (a, r) \<Rightarrow>
          if consumes XRParen r then Inr (args @ [a], tl r)
          else (case expect XComma r of
                  Inl e \<Rightarrow> Inl e
                | Inr r' \<Rightarrow> args_loop (args @ [a]) r'))"
  by pat_completeness auto
termination
  by (relation "measure (\<lambda>(_, toks). length toks)") (auto dest: parse_arg_shorter)

declare args_loop.simps [simp del]

lemma args_loop_shorter: "args_loop vs toks = Inr (x, r) \<Longrightarrow> length r < length toks"
proof (induction vs toks rule: args_loop.induct)
  case (1 vs toks)
  note step = 1(2) [unfolded args_loop.simps [of vs toks]]
  show ?case
    using step 1(1)
    by (fastforce simp: consumes_iff dest: parse_arg_shorter split: if_splits sum.splits)
qed

definition map_result :: "('a \<Rightarrow> 'b) \<Rightarrow> 'a parse_result \<Rightarrow> 'b parse_result" where
  "map_result f x = map_sum id (\<lambda>(a, r). (f a, r)) x"

lemma map_result_Inr [simp]: "map_result f x = Inr (b, r) \<longleftrightarrow> (\<exists>a. x = Inr (a, r) \<and> b = f a)"
  by (cases x) (auto simp: map_result_def)

definition peek_value :: "expression_token list \<Rightarrow> bool" where
  "peek_value toks = (case toks of XString _ # _ \<Rightarrow> True | XNumber _ # _ \<Rightarrow> True | _ \<Rightarrow> False)"

text \<open>The method call after a dot, and a comparison, which begins with a value.\<close>

definition parse_matches :: "string \<Rightarrow> expression_token list \<Rightarrow> expression_ast parse_result" where
  "parse_matches left toks =
     (case toks of
        XIdent m # r \<Rightarrow>
          if m \<noteq> ''matches'' then Inl (UnsupportedMethod m)
          else
            (case expect XLParen r of
               Inl e \<Rightarrow> Inl e
             | Inr r1 \<Rightarrow>
                 (case parse_string_expr r1 of
                    Inl e \<Rightarrow> Inl e
                  | Inr (pattern, r2) \<Rightarrow>
                      (case expect XRParen r2 of
                         Inl e \<Rightarrow> Inl e
                       | Inr r3 \<Rightarrow> Inr (EMatches left pattern, r3))))
      | _ \<Rightarrow> Inl MethodNameRequired)"

definition parse_compare_value :: "expression_token list \<Rightarrow> expression_ast parse_result" where
  "parse_compare_value toks =
     (case parse_numeric_expr toks of
        Inl e \<Rightarrow> Inl e
      | Inr (left, r) \<Rightarrow>
          if consumes XEq r then map_result (EEq left) (parse_numeric_expr (tl r))
          else if consumes XNe r then map_result (ENe left) (parse_numeric_expr (tl r))
          else if consumes XDot r then parse_matches left (tl r)
          else if consumes XIn r then map_result (EIn left) (parse_numeric_list (tl r))
          else if consumes XGt r then map_result (ECompare left OpGt) (parse_numeric_expr (tl r))
          else if consumes XGe r then map_result (ECompare left OpGe) (parse_numeric_expr (tl r))
          else if consumes XLt r then map_result (ECompare left OpLt) (parse_numeric_expr (tl r))
          else if consumes XLe r then map_result (ECompare left OpLe) (parse_numeric_expr (tl r))
          else Inl ValueNotCompared)"

definition parse_call :: "string \<Rightarrow> expression_token list \<Rightarrow> expression_ast parse_result" where
  "parse_call name toks =
     (if name = ''true'' then Inr (EBool True, toks)
      else if name = ''false'' then Inr (EBool False, toks)
      else
        (case expect XLParen toks of
           Inl e \<Rightarrow> Inl e
         | Inr r \<Rightarrow>
             if consumes XRParen r then Inr (ECall name [], tl r)
             else map_result (ECall name) (args_loop [] r)))"

lemma parse_matches_shorter: "parse_matches left toks = Inr (x, r) \<Longrightarrow> length r < length toks"
  by (auto simp: parse_matches_def dest!: parse_string_expr_shorter
      split: list.splits expression_token.splits if_splits sum.splits)

lemma parse_compare_value_shorter: "parse_compare_value toks = Inr (x, r) \<Longrightarrow> length r < length toks"
  by (auto simp: parse_compare_value_def consumes_iff
      dest!: parse_numeric_expr_shorter parse_matches_shorter parse_numeric_list_shorter
      split: sum.splits if_splits)

lemma parse_call_shorter: "parse_call name toks = Inr (x, r) \<Longrightarrow> length r \<le> length toks"
  by (auto simp: parse_call_def consumes_iff dest!: args_loop_shorter split: if_splits sum.splits)

function parse_or :: "expression_token list \<Rightarrow> expression_ast parse_result"
  and or_loop :: "expression_ast \<Rightarrow> expression_token list \<Rightarrow> expression_ast parse_result"
  and parse_and :: "expression_token list \<Rightarrow> expression_ast parse_result"
  and and_loop :: "expression_ast \<Rightarrow> expression_token list \<Rightarrow> expression_ast parse_result"
  and parse_compare :: "expression_token list \<Rightarrow> expression_ast parse_result"
  and parse_not :: "expression_token list \<Rightarrow> expression_ast parse_result"
  and parse_primary :: "expression_token list \<Rightarrow> expression_ast parse_result"
where
  "parse_or toks = (case parse_and toks of Inl e \<Rightarrow> Inl e | Inr (x, r) \<Rightarrow> or_loop x r)"
| "or_loop x toks =
     (if consumes XOr toks then
        (case parse_and (tl toks) of Inl e \<Rightarrow> Inl e | Inr (y, r) \<Rightarrow> or_loop (EOr x y) r)
      else Inr (x, toks))"
| "parse_and toks = (case parse_compare toks of Inl e \<Rightarrow> Inl e | Inr (x, r) \<Rightarrow> and_loop x r)"
| "and_loop x toks =
     (if consumes XAnd toks then
        (case parse_compare (tl toks) of Inl e \<Rightarrow> Inl e | Inr (y, r) \<Rightarrow> and_loop (EAnd x y) r)
      else Inr (x, toks))"
| "parse_compare toks = (if peek_value toks then parse_compare_value toks else parse_not toks)"
| "parse_not toks =
     (if consumes XNot toks then map_result ENot (parse_compare (tl toks)) else parse_primary toks)"
| "parse_primary toks =
     (if consumes XLParen toks then
        (case parse_or (tl toks) of
           Inl e \<Rightarrow> Inl e
         | Inr (x, r) \<Rightarrow> (case expect XRParen r of Inl e \<Rightarrow> Inl e | Inr r' \<Rightarrow> Inr (x, r')))
      else
        (case toks of
           XIdent name # r \<Rightarrow> parse_call name r
         | _ \<Rightarrow> Inl ExpectedCall))"
  by pat_completeness auto

abbreviation parser_dom where
  "parser_dom \<equiv> parse_or_or_loop_parse_and_and_loop_parse_compare_parse_not_parse_primary_dom"

text \<open>Where the parser is defined, it leaves less than it was given.\<close>

lemma parser_shorter:
  "parser_dom (Inl (Inl t1)) \<Longrightarrow> parse_or t1 = Inr (x1, r1) \<Longrightarrow> length r1 < length t1"
  "parser_dom (Inl (Inr (Inl (y2, t2)))) \<Longrightarrow> or_loop y2 t2 = Inr (x2, r2) \<Longrightarrow> length r2 \<le> length t2"
  "parser_dom (Inl (Inr (Inr t3))) \<Longrightarrow> parse_and t3 = Inr (x3, r3) \<Longrightarrow> length r3 < length t3"
  "parser_dom (Inr (Inl (Inl (y4, t4)))) \<Longrightarrow> and_loop y4 t4 = Inr (x4, r4) \<Longrightarrow> length r4 \<le> length t4"
  "parser_dom (Inr (Inl (Inr t5))) \<Longrightarrow> parse_compare t5 = Inr (x5, r5) \<Longrightarrow> length r5 < length t5"
  "parser_dom (Inr (Inr (Inl t6))) \<Longrightarrow> parse_not t6 = Inr (x6, r6) \<Longrightarrow> length r6 < length t6"
  "parser_dom (Inr (Inr (Inr t7))) \<Longrightarrow> parse_primary t7 = Inr (x7, r7) \<Longrightarrow> length r7 < length t7"
proof (induction t1 and y2 t2 and t3 and y4 t4 and t5 and t6 and t7
    arbitrary: x1 r1 and x2 r2 and x3 r3 and x4 r4 and x5 r5 and x6 r6 and x7 r7
    rule: parse_or_or_loop_parse_and_and_loop_parse_compare_parse_not_parse_primary.pinduct)
  case (1 toks)
  then show ?case by (fastforce simp: parse_or.psimps split: sum.splits)
next
  case (2 x toks)
  then show ?case by (fastforce simp: or_loop.psimps consumes_iff split: sum.splits if_splits)
next
  case (3 toks)
  then show ?case by (fastforce simp: parse_and.psimps split: sum.splits)
next
  case (4 x toks)
  then show ?case by (fastforce simp: and_loop.psimps consumes_iff split: sum.splits if_splits)
next
  case (5 toks)
  then show ?case by (auto simp: parse_compare.psimps dest: parse_compare_value_shorter split: if_splits)
next
  case (6 toks)
  then show ?case by (fastforce simp: parse_not.psimps consumes_iff split: if_splits)
next
  case (7 toks)
  then show ?case
    by (fastforce simp: parse_primary.psimps consumes_iff dest: parse_call_shorter
        split: if_splits sum.splits list.splits expression_token.splits)
qed

fun parser_level where
  "parser_level (Inl (Inl toks)) = (length toks, 5 :: nat)"
| "parser_level (Inl (Inr (Inl (x, toks)))) = (length toks, 0)"
| "parser_level (Inl (Inr (Inr toks))) = (length toks, 4)"
| "parser_level (Inr (Inl (Inl (x, toks)))) = (length toks, 0)"
| "parser_level (Inr (Inl (Inr toks))) = (length toks, 3)"
| "parser_level (Inr (Inr (Inl toks))) = (length toks, 2)"
| "parser_level (Inr (Inr (Inr toks))) = (length toks, 1)"

termination parse_or
  by (relation "inv_image (less_than <*lex*> less_than) parser_level")
    (auto simp: consumes_iff dest: parser_shorter)

declare parse_or.simps [simp del] or_loop.simps [simp del] parse_and.simps [simp del] and_loop.simps [simp del]
  parse_compare.simps [simp del] parse_not.simps [simp del] parse_primary.simps [simp del]

definition parse_tokens :: "expression_token list \<Rightarrow> expression_error + expression_ast" where
  "parse_tokens toks =
     (case parse_or toks of
        Inl e \<Rightarrow> Inl e
      | Inr (x, r) \<Rightarrow> if r \<noteq> [] then Inl TrailingTokens else Inr x)"

definition parse_expression :: "string \<Rightarrow> expression_error + expression_ast" where
  "parse_expression expr = and_then (tokenize_expression expr) parse_tokens"

subsection \<open>Printing\<close>

text \<open>
  The tokens of a syntax tree with as few parentheses as the grammar allows: level 0 is a
  disjunction, 1 a conjunction, 2 a comparison.  Both connectives associate to the left.
\<close>

definition commas :: "expression_token list list \<Rightarrow> expression_token list" where
  "commas = join_with [XComma]"

definition entry_toks :: "string \<times> string list \<Rightarrow> expression_token list" where
  "entry_toks kv = [XString (fst kv), XColon, XLBracket] @ commas (map (\<lambda>v. [XString v]) (snd kv)) @ [XRBracket]"

fun arg_toks :: "expression_arg \<Rightarrow> expression_token list" where
  "arg_toks (ArgString s) = [XString s]"
| "arg_toks (ArgMap m) = XLBrace # commas (map entry_toks m) @ [XRBrace]"

fun op_tok :: "numeric_compare_op \<Rightarrow> expression_token" where
  "op_tok OpGt = XGt" | "op_tok OpGe = XGe" | "op_tok OpLt = XLt" | "op_tok OpLe = XLe"

definition paren :: "bool \<Rightarrow> expression_token list \<Rightarrow> expression_token list" where
  "paren b toks = (if b then XLParen # toks @ [XRParen] else toks)"

fun expr_toks :: "nat \<Rightarrow> expression_ast \<Rightarrow> expression_token list" where
  "expr_toks lvl (EBool b) = [XIdent (if b then ''true'' else ''false'')]"
| "expr_toks lvl (EOr a b) = paren (lvl > 0) (expr_toks 0 a @ [XOr] @ expr_toks 1 b)"
| "expr_toks lvl (EAnd a b) = paren (lvl > 1) (expr_toks 1 a @ [XAnd] @ expr_toks 2 b)"
| "expr_toks lvl (ENot a) = XNot # expr_toks 2 a"
| "expr_toks lvl (EEq l r) = [XString l, XEq, XString r]"
| "expr_toks lvl (ENe l r) = [XString l, XNe, XString r]"
| "expr_toks lvl (EMatches l p) = [XString l, XDot, XIdent ''matches'', XLParen, XString p, XRParen]"
| "expr_toks lvl (EIn l vs) = [XString l, XIn, XLBracket] @ commas (map (\<lambda>v. [XString v]) vs) @ [XRBracket]"
| "expr_toks lvl (ECompare l op r) = [XString l, op_tok op, XString r]"
| "expr_toks lvl (ECall name args) = XIdent name # XLParen # commas (map arg_toks args) @ [XRParen]"

definition ident_name :: "string \<Rightarrow> bool" where
  "ident_name s =
     (s \<noteq> [] \<and> \<not> is_ascii_digit (hd s) \<and> list_all ident_char s \<and> s \<notin> {''true'', ''false'', ''in''})"

fun wf_arg :: "expression_arg \<Rightarrow> bool" where
  "wf_arg (ArgString s) = True"
| "wf_arg (ArgMap m) = btree_wf m"

fun wf_expr :: "expression_ast \<Rightarrow> bool" where
  "wf_expr (EOr a b) = (wf_expr a \<and> wf_expr b)"
| "wf_expr (EAnd a b) = (wf_expr a \<and> wf_expr b)"
| "wf_expr (ENot a) = wf_expr a"
| "wf_expr (ECall name args) = (ident_name name \<and> list_all wf_arg args)"
| "wf_expr _ = True"

subsection \<open>Parsing what is printed\<close>

lemma commas_simps [simp]:
  "commas [] = []" "commas [x] = x" "commas (x # y # ys) = x @ XComma # commas (y # ys)"
  by (simp_all add: commas_def)

lemma string_sum_stop [simp]: "\<not> consumes XPlus r \<Longrightarrow> string_sum s r = Inr (s, r)"
  by (simp add: string_sum.simps)

lemma parse_string_expr_one [simp]: "\<not> consumes XPlus r \<Longrightarrow> parse_string_expr (XString s # r) = Inr (s, r)"
  by (simp add: parse_string_expr_def parse_string_atom_def)

lemma parse_numeric_expr_one [simp]: "\<not> consumes XPlus r \<Longrightarrow> parse_numeric_expr (XString s # r) = Inr (s, r)"
  by (simp add: parse_numeric_expr_def)

lemma peek_string_simps [simp]: "peek_string (XString s # r)" "peek_value (XString s # r)"
  by (simp_all add: peek_string_def peek_value_def)

lemma expect_same [simp]: "expect tok (tok # r) = Inr r"
  by simp

lemma numeric_list_printed:
  "vs \<noteq> [] \<Longrightarrow> numeric_list_loop acc (commas (map (\<lambda>v. [XString v]) vs) @ XRBracket # r) = Inr (acc @ vs, r)"
proof (induction vs arbitrary: acc)
  case (Cons v vs)
  then show ?case by (cases vs) (simp_all add: numeric_list_loop.simps [of acc])
qed simp

lemma string_array_printed:
  "vs \<noteq> [] \<Longrightarrow> string_array_loop acc (commas (map (\<lambda>v. [XString v]) vs) @ XRBracket # r) = Inr (acc @ vs, r)"
proof (induction vs arbitrary: acc)
  case (Cons v vs)
  then show ?case by (cases vs) (simp_all add: string_array_loop.simps [of acc])
qed simp

lemma commas_strings_head:
  "vs \<noteq> [] \<Longrightarrow> \<not> consumes XRBracket (commas (map (\<lambda>v. [XString v]) vs) @ r)"
  by (cases vs rule: list.exhaust; cases "tl vs") auto

lemma parse_numeric_list_printed:
  "parse_numeric_list (XLBracket # commas (map (\<lambda>v. [XString v]) vs) @ XRBracket # r) = Inr (vs, r)"
  by (cases "vs = []") (simp_all add: parse_numeric_list_def numeric_list_printed commas_strings_head)

lemma parse_map_value_printed:
  "parse_map_value (XLBracket # commas (map (\<lambda>v. [XString v]) vs) @ XRBracket # r) = Inr (vs, r)"
  by (cases "vs = []")
    (simp_all add: parse_map_value_def peek_string_def string_array_printed commas_strings_head)

lemma entry_toks_append:
  "entry_toks (k, vs) @ r = XString k # XColon # XLBracket # commas (map (\<lambda>v. [XString v]) vs) @ XRBracket # r"
  by (simp add: entry_toks_def)

lemma map_loop_printed:
  "es \<noteq> [] \<Longrightarrow> btree_wf (m @ es) \<Longrightarrow> map_loop m (commas (map entry_toks es) @ XRBrace # r) = Inr (m @ es, r)"
proof (induction es arbitrary: m)
  case (Cons e es)
  obtain k vs where e: "e = (k, vs)" by fastforce
  have put: "btree_put k vs m = m @ [(k, vs)]"
    using Cons.prems(2) e by (intro btree_put_last) (auto simp: btree_wf_def sorted_wrt_append)
  show ?case
  proof (cases es)
    case Nil
    then show ?thesis
      using put by (simp add: e entry_toks_append map_loop.simps [of m] parse_map_value_printed)
  next
    case (Cons e2 es2)
    then show ?thesis
      using put Cons.IH [of "m @ [(k, vs)]"] Cons.prems(2)
      by (simp add: e entry_toks_append map_loop.simps [of m] parse_map_value_printed)
  qed
qed simp

lemma map_loop_head: "es \<noteq> [] \<Longrightarrow> \<not> consumes XRBrace (commas (map entry_toks es) @ r)"
  by (cases es rule: list.exhaust; cases "tl es") (auto simp: entry_toks_def)

lemma parse_arg_printed:
  assumes "wf_arg a" and "\<not> consumes XPlus r"
  shows "parse_arg (arg_toks a @ r) = Inr (a, r)"
proof (cases a)
  case (ArgMap m)
  then show ?thesis
    using assms(1) map_loop_printed [of m "[]" r]
    by (cases "m = []") (simp_all add: parse_arg_def parse_map_def peek_string_def map_loop_head)
qed (use assms(2) in \<open>simp add: parse_arg_def\<close>)

lemma args_loop_printed:
  "xs \<noteq> [] \<Longrightarrow> list_all wf_arg xs \<Longrightarrow> args_loop acc (commas (map arg_toks xs) @ XRParen # r) = Inr (acc @ xs, r)"
proof (induction xs arbitrary: acc)
  case (Cons a xs)
  then show ?case
    by (cases xs) (simp_all add: args_loop.simps [of acc] parse_arg_printed)
qed simp

lemma args_head: "xs \<noteq> [] \<Longrightarrow> \<not> consumes XRParen (commas (map arg_toks xs) @ r)"
  by (cases xs rule: list.exhaust; cases "hd xs"; cases "tl xs") auto

lemma parse_call_printed:
  assumes "ident_name name" and "list_all wf_arg xs"
  shows "parse_call name (XLParen # commas (map arg_toks xs) @ XRParen # r) = Inr (ECall name xs, r)"
  using assms args_loop_printed [of xs "[]" r]
  by (cases "xs = []") (simp_all add: parse_call_def ident_name_def args_head map_result_def)

text \<open>Each level reads back what is printed for it and continues with its loop; for a comparison, a
  negation or a call the lowest level is enough.\<close>

definition reads_back :: "expression_ast \<Rightarrow> bool" where
  "reads_back e =
     ((\<forall>r. \<not> consumes XPlus r \<longrightarrow> parse_compare (expr_toks 2 e @ r) = Inr (e, r)) \<and>
      (\<forall>r. \<not> consumes XPlus r \<longrightarrow> parse_and (expr_toks 1 e @ r) = and_loop e r) \<and>
      (\<forall>r. \<not> consumes XPlus r \<longrightarrow> \<not> consumes XAnd r \<longrightarrow> parse_or (expr_toks 0 e @ r) = or_loop e r))"

lemma reads_back_compare:
  assumes "\<And>lvl. expr_toks lvl e = expr_toks 2 e"
    and "\<And>r. \<not> consumes XPlus r \<Longrightarrow> parse_compare (expr_toks 2 e @ r) = Inr (e, r)"
  shows "reads_back e"
proof -
  have "parse_and (expr_toks 2 e @ r) = and_loop e r" if "\<not> consumes XPlus r" for r
    using assms(2) [OF that] by (simp add: parse_and.simps)
  then show ?thesis
    using assms(2) unfolding reads_back_def assms(1) [of 0] assms(1) [of 1]
    by (simp add: parse_or.simps and_loop.simps [of e])
qed

lemma compare_value_printed:
  assumes "\<not> consumes XPlus r"
  shows "parse_compare (expr_toks 2 (EEq a b) @ r) = Inr (EEq a b, r)"
    and "parse_compare (expr_toks 2 (ENe a b) @ r) = Inr (ENe a b, r)"
    and "parse_compare (expr_toks 2 (EMatches a b) @ r) = Inr (EMatches a b, r)"
    and "parse_compare (expr_toks 2 (EIn a vs) @ r) = Inr (EIn a vs, r)"
    and "parse_compare (expr_toks 2 (ECompare a op b) @ r) = Inr (ECompare a op b, r)"
proof -
  show "parse_compare (expr_toks 2 (ECompare a op b) @ r) = Inr (ECompare a op b, r)"
    using assms by (cases op) (simp_all add: parse_compare.simps parse_compare_value_def map_result_def)
  show "parse_compare (expr_toks 2 (EIn a vs) @ r) = Inr (EIn a vs, r)"
    by (simp add: parse_compare.simps parse_compare_value_def map_result_def parse_numeric_list_printed)
qed (use assms in \<open>simp_all add: parse_compare.simps parse_compare_value_def parse_matches_def map_result_def\<close>)

lemma parse_paren:
  assumes "parse_or (toks @ XRParen # r) = Inr (e, XRParen # r)"
  shows "parse_compare (XLParen # toks @ XRParen # r) = Inr (e, r)"
  using assms by (simp add: parse_compare.simps peek_value_def parse_not.simps parse_primary.simps)

lemma parse_printed: "wf_expr e \<Longrightarrow> reads_back e"
proof (induction e)
  case (EOr a b)
  have or: "parse_or (expr_toks 0 (EOr a b) @ r) = or_loop (EOr a b) r"
    if "\<not> consumes XPlus r" "\<not> consumes XAnd r" for r
    using EOr that by (simp add: reads_back_def paren_def or_loop.simps [of a] and_loop.simps [of b r])
  have cmp: "parse_compare (expr_toks 2 (EOr a b) @ r) = Inr (EOr a b, r)" for r
    using parse_paren [of "expr_toks 0 (EOr a b)" r "EOr a b"] or [of "XRParen # r"]
    by (simp add: paren_def or_loop.simps [of "EOr a b"])
  then have "parse_and (expr_toks 1 (EOr a b) @ r) = and_loop (EOr a b) r" for r
    by (simp add: paren_def parse_and.simps)
  then show ?case unfolding reads_back_def using or cmp by blast
next
  case (EAnd a b)
  have "parse_and (expr_toks 1 (EAnd a b) @ r) = and_loop (EAnd a b) r" if "\<not> consumes XPlus r" for r
    using EAnd that by (simp add: reads_back_def paren_def and_loop.simps [of a])
  moreover from this have or: "parse_or (expr_toks 0 (EAnd a b) @ r) = or_loop (EAnd a b) r"
    if "\<not> consumes XPlus r" "\<not> consumes XAnd r" for r
    using that by (simp add: paren_def parse_or.simps and_loop.simps [of "EAnd a b"])
  moreover have "parse_compare (expr_toks 2 (EAnd a b) @ r) = Inr (EAnd a b, r)" for r
    using parse_paren [of "expr_toks 0 (EAnd a b)" r "EAnd a b"] or [of "XRParen # r"]
    by (simp add: paren_def or_loop.simps [of "EAnd a b"])
  ultimately show ?case unfolding reads_back_def by blast
next
  case (ENot a)
  then show ?case
    by (intro reads_back_compare)
      (simp_all add: reads_back_def parse_compare.simps [of "XNot # _"] peek_value_def parse_not.simps [of "XNot # _"]
        map_result_def)
next
  case (ECall name xs)
  then show ?case
    by (intro reads_back_compare)
      (simp_all add: parse_compare.simps peek_value_def parse_not.simps parse_primary.simps parse_call_printed)
next
  case (EBool b)
  show ?case
    by (intro reads_back_compare)
      (simp_all add: parse_compare.simps peek_value_def parse_not.simps parse_primary.simps parse_call_def)
qed (intro reads_back_compare compare_value_printed; simp)+

lemma parse_tokens_printed: "wf_expr e \<Longrightarrow> parse_tokens (expr_toks 0 e) = Inr e"
  using parse_printed [of e] or_loop.simps [of e "[]"]
  by (auto simp: reads_back_def parse_tokens_def consumes_def dest: spec [of _ "[]"])

subsection \<open>The text of an expression\<close>

definition escape :: "string \<Rightarrow> string" where
  "escape s = concat (map (\<lambda>c. if c \<in> {CHR 0x5C, CHR 0x22} then [CHR 0x5C, c] else [c]) s)"

fun render_token :: "expression_token \<Rightarrow> string" where
  "render_token (XIdent s) = s"
| "render_token (XString s) = [CHR 0x22] @ escape s @ [CHR 0x22]"
| "render_token (XNumber s) = s"
| "render_token XLParen = ''(''" | "render_token XRParen = '')''"
| "render_token XLBrace = ''{''" | "render_token XRBrace = ''}''"
| "render_token XLBracket = ''[''" | "render_token XRBracket = '']''"
| "render_token XColon = '':''" | "render_token XComma = '',''" | "render_token XDot = ''.''"
| "render_token XPlus = ''+''" | "render_token XEq = ''==''" | "render_token XNe = ''!=''"
| "render_token XGt = ''>''" | "render_token XGe = ''>=''" | "render_token XLt = ''<''" | "render_token XLe = ''<=''"
| "render_token XIn = ''in''" | "render_token XAnd = ''&&''" | "render_token XOr = ''||''" | "render_token XNot = ''!''"

definition render_tokens :: "expression_token list \<Rightarrow> string" where
  "render_tokens toks = concat (map (\<lambda>t. render_token t @ '' '') toks)"

definition render_expression :: "expression_ast \<Rightarrow> string" where
  "render_expression e = render_tokens (expr_toks 0 e)"

fun token_ok :: "expression_token \<Rightarrow> bool" where
  "token_ok (XIdent s) = (s \<noteq> [] \<and> \<not> is_ascii_digit (hd s) \<and> list_all ident_char s \<and> s \<noteq> ''in'')"
| "token_ok (XNumber s) = (s \<noteq> [] \<and> list_all is_ascii_digit s)"
| "token_ok _ = True"

lemma read_escaped:
  "read_expression_string st (CHR 0x22) out (escape s @ CHR 0x22 # r) = Inr (out @ s, r)"
proof (induction s arbitrary: out)
  case (Cons c s)
  then show ?case by (auto simp: escape_def unescape_def)
qed (simp add: escape_def)

lemma leading_ws_graphic: "graphic c \<Longrightarrow> leading_ws (c # s) = None"
proof -
  assume g: "graphic c"
  have "\<not> starts_with (c # s) w" if "w \<in> set ws_prefix" for w
    using ws_not_graphic [OF that] g by (cases w) (auto simp: starts_with_def)
  then show ?thesis by (simp add: leading_ws_def find_None_iff)
qed

lemma leading_ws_space: "leading_ws (CHR '' '' # s) = Some '' ''"
  by (simp add: leading_ws_def ws_prefix_def ws_encodings_def starts_with_def char_of_def bit_Suc_0_iff
      flip: numeral_2_eq_2)

lemma letter_facts:
  assumes "ident_char c"
  shows "graphic c" and "punctuation c = None"
    and "c \<notin> {CHR ''{'', CHR ''='', CHR ''!'', CHR ''>'', CHR ''<'', CHR ''&'', CHR ''|'', CHR 0x27, CHR 0x22, CHR 0x60}"
    and "\<not> is_ascii_digit c \<Longrightarrow> c = CHR ''_'' \<or> is_ascii_alphabetic c"
    and "is_ascii_digit c \<Longrightarrow> c \<noteq> CHR ''_'' \<and> \<not> is_ascii_alphabetic c"
proof -
  have "list_all (\<lambda>d. \<not> ident_char d)
    (''()}[]:,.+{=!><&|'' @ [CHR 0x27, CHR 0x22, CHR 0x60])" by code_simp
  then have "c \<notin> set (''()}[]:,.+{=!><&|'' @ [CHR 0x27, CHR 0x22, CHR 0x60])"
    using assms unfolding list_all_iff by blast
  then show "punctuation c = None"
    "c \<notin> {CHR ''{'', CHR ''='', CHR ''!'', CHR ''>'', CHR ''<'', CHR ''&'', CHR ''|'', CHR 0x27, CHR 0x22, CHR 0x60}"
    by (simp_all add: punctuation_def)
  show "graphic c"
    using assms by (auto simp: ident_char_def graphic_def is_ascii_digit_def is_ascii_alphabetic_def byte_val_def)
  show "\<not> is_ascii_digit c \<Longrightarrow> c = CHR ''_'' \<or> is_ascii_alphabetic c" using assms by (auto simp: ident_char_def)
  show "is_ascii_digit c \<Longrightarrow> c \<noteq> CHR ''_'' \<and> \<not> is_ascii_alphabetic c"
    by (auto simp: is_ascii_digit_def is_ascii_alphabetic_def byte_val_def)
qed

lemma takeWhile_stop:
  "list_all p s \<Longrightarrow> \<not> p d \<Longrightarrow> takeWhile p (s @ d # r) = s \<and> dropWhile p (s @ d # r) = d # r"
  by (induction s) simp_all

lemma space_facts [simp]: "\<not> ident_char (CHR '' '')" "\<not> is_ascii_digit (CHR '' '')"
  by (simp_all add: ident_char_def is_ascii_alphabetic_def is_ascii_digit_def byte_val_def)

lemma next_expr_token_ident:
  assumes "token_ok (XIdent (c # s))"
  shows "next_expr_token n c (s @ CHR '' '' # r) = Inr (XIdent (c # s), CHR '' '' # r)"
  using assms letter_facts [of c] takeWhile_stop [of ident_char s "CHR '' ''" r]
  by (simp add: next_expr_token_def Let_def)

lemma next_expr_token_number:
  assumes "token_ok (XNumber (c # s))"
  shows "next_expr_token n c (s @ CHR '' '' # r) = Inr (XNumber (c # s), CHR '' '' # r)"
proof -
  have d: "is_ascii_digit c" "list_all is_ascii_digit s" using assms by simp_all
  then have "ident_char c" by (simp add: ident_char_def)
  note letter_facts(2,3) [OF this] letter_facts(5) [OF this d(1)]
  with d show ?thesis
    using takeWhile_stop [OF d(2), of "CHR '' ''" r] by (simp add: next_expr_token_def Let_def)
qed

lemma next_expr_token_string:
  "next_expr_token n (CHR 0x22) (escape s @ CHR 0x22 # r) = Inr (XString s, r)"
  using read_escaped [of _ "[]" s r] by (simp add: next_expr_token_def Let_def punctuation_def)

lemma next_expr_token_rendered:
  assumes "token_ok t"
  obtains c cs where "render_token t @ CHR '' '' # r = c # cs" and "graphic c"
    and "next_expr_token n c cs = Inr (t, CHR '' '' # r)"
proof (cases t)
  case (XIdent s)
  then obtain c s' where "s = c # s'" using assms by (cases s) auto
  then show ?thesis using that [of c "s' @ CHR '' '' # r"] assms XIdent next_expr_token_ident letter_facts(1) [of c] by simp
next
  case (XNumber s)
  then obtain c s' where "s = c # s'" using assms by (cases s) auto
  then show ?thesis
    using that [of c "s' @ CHR '' '' # r"] assms XNumber next_expr_token_number letter_facts(1) [of c]
    by (simp add: ident_char_def)
next
  case (XString s)
  then show ?thesis
    using that [of "CHR 0x22" "escape s @ CHR 0x22 # CHR '' '' # r"] next_expr_token_string
    by (simp add: graphic_def byte_val_def)
next
  case XLBrace
  then show ?thesis
    using that [of "CHR ''{''" "CHR '' '' # r"]
    by (simp add: graphic_def byte_val_def next_expr_token_def punctuation_def expression_brace_starts_map_def leading_ws_space)
next
  case XIn
  have "takeWhile ident_char (''n'' @ CHR '' '' # r) = ''n'' \<and> dropWhile ident_char (''n'' @ CHR '' '' # r) = CHR '' '' # r"
    by (intro takeWhile_stop) (simp_all add: ident_char_def is_ascii_alphabetic_def byte_val_def)
  then show ?thesis
    using XIn that [of "CHR ''i''" "''n'' @ CHR '' '' # r"]
    by (simp add: graphic_def byte_val_def next_expr_token_def punctuation_def is_ascii_alphabetic_def Let_def)
qed (use that [of "hd (render_token t)" "tl (render_token t) @ CHR '' '' # r"] in
    \<open>simp add: graphic_def byte_val_def next_expr_token_def punctuation_def starts_with_def Let_def\<close>)+

lemma tokenize_rendered: "list_all token_ok ts \<Longrightarrow> tokenize_loop n (render_tokens ts) = Inr ts"
proof (induction ts)
  case (Cons t ts)
  have r: "render_tokens (t # ts) = render_token t @ CHR '' '' # render_tokens ts" by (simp add: render_tokens_def)
  obtain c cs where c: "render_token t @ CHR '' '' # render_tokens ts = c # cs" "graphic c"
    "next_expr_token n c cs = Inr (t, CHR '' '' # render_tokens ts)"
    using next_expr_token_rendered [of t "render_tokens ts" n] Cons.prems by auto
  have "tokenize_loop n (CHR '' '' # render_tokens ts) = Inr ts"
    using Cons by (subst tokenize_loop.simps) (simp add: leading_ws_space)
  then show ?case
    unfolding r c(1) using c(2,3) by (subst tokenize_loop.simps) (simp add: leading_ws_graphic)
qed (simp add: render_tokens_def tokenize_loop.simps)

lemma commas_ok: "\<forall>x \<in> set xs. list_all token_ok (f x) \<Longrightarrow> list_all token_ok (commas (map f xs))"
  by (induction xs rule: induct_list012) simp_all

lemma entry_tokens_ok: "list_all token_ok (entry_toks kv)"
  by (simp add: entry_toks_def commas_ok)

lemma arg_tokens_ok: "list_all token_ok (arg_toks a)"
  by (cases a) (simp_all add: commas_ok entry_tokens_ok)

lemma expr_tokens_ok: "wf_expr e \<Longrightarrow> list_all token_ok (expr_toks lvl e)"
proof (induction e arbitrary: lvl)
  case (ECall name xs)
  then show ?case by (simp add: ident_name_def commas_ok arg_tokens_ok)
next
  case (EBool b)
  then show ?case
    by (simp add: ident_char_def is_ascii_alphabetic_def is_ascii_digit_def byte_val_def)
next
  case (EMatches a b)
  then show ?case
    by (simp add: ident_char_def is_ascii_alphabetic_def is_ascii_digit_def byte_val_def)
next
  case (ECompare a op b)
  then show ?case by (cases op) simp_all
qed (simp_all add: paren_def commas_ok)

lemma parse_rendered_expr: "wf_expr e \<Longrightarrow> parse_expression (render_expression e) = Inr e"
  by (simp add: parse_expression_def tokenize_expression_def render_expression_def tokenize_rendered
      expr_tokens_ok parse_tokens_printed)

subsection \<open>Accepted expressions are well formed\<close>

lemma dropWhile_ident_ok:
  assumes "c = CHR ''_'' \<or> is_ascii_alphabetic c"
  shows "token_ok (if c # takeWhile ident_char cs = ''in'' then XIn else XIdent (c # takeWhile ident_char cs))"
proof -
  have "ident_char c" "\<not> is_ascii_digit c"
    using assms by (auto simp: ident_char_def is_ascii_alphabetic_def is_ascii_digit_def byte_val_def)
  then show ?thesis by (simp add: list_all_iff) (metis set_takeWhileD)
qed

definition reads_ok :: "expression_error + (expression_token \<times> string) \<Rightarrow> bool" where
  "reads_ok x = (\<forall>t r. x = Inr (t, r) \<longrightarrow> token_ok t)"

lemma reads_ok_simps:
  "reads_ok (Inl e)" "reads_ok (Inr (t, r)) \<longleftrightarrow> token_ok t"
  "reads_ok (if b then x else y) \<longleftrightarrow> (if b then reads_ok x else reads_ok y)"
  "reads_ok (map_sum id (\<lambda>(s, r). (XString s, r)) z)"
  by (auto simp: reads_ok_def) (cases z; force)+

lemma punctuation_ok: "punctuation c = Some t \<Longrightarrow> token_ok t"
  by (auto simp: punctuation_def split: if_splits)

lemma number_ok: "is_ascii_digit c \<Longrightarrow> token_ok (XNumber (c # takeWhile is_ascii_digit cs))"
  by (auto simp: list_all_iff dest: set_takeWhileD)

lemma next_expr_token_ok: "next_expr_token n c cs = Inr (t, r) \<Longrightarrow> token_ok t"
proof -
  have "reads_ok (next_expr_token n c cs)"
  proof (cases "punctuation c")
    case None
    then show ?thesis
      unfolding next_expr_token_def Let_def
      using dropWhile_ident_ok [of c cs] number_ok [of c cs]
      by (simp only: option.case reads_ok_simps token_ok.simps(3-) if_cancel simp_thms if_bool_eq_conj) blast
  qed (simp add: next_expr_token_def Let_def reads_ok_simps punctuation_ok)
  then show "next_expr_token n c cs = Inr (t, r) \<Longrightarrow> ?thesis" by (simp add: reads_ok_def)
qed

lemma tokenize_ok: "tokenize_loop n s = Inr ts \<Longrightarrow> list_all token_ok ts"
proof (induction n s arbitrary: ts rule: tokenize_loop.induct)
  case (2 n c cs)
  note step = 2(3) [unfolded tokenize_loop.simps(2) [of n c cs]]
  then show ?case using 2(1,2) by (fastforce dest: next_expr_token_ok split: option.splits sum.splits)
qed (simp add: tokenize_loop.simps)

text \<open>What a reader leaves are tokens it was given.\<close>

lemma string_sum_left: "string_sum out toks = Inr (s, r) \<Longrightarrow> set r \<subseteq> set toks"
proof (induction out toks rule: string_sum.induct)
  case (1 out toks)
  note step = 1(2) [unfolded string_sum.simps [of out toks]]
  show ?case using step 1(1) by (fastforce simp: consumes_iff split: if_splits sum.splits)
qed

lemma parse_string_expr_left: "parse_string_expr toks = Inr (s, r) \<Longrightarrow> set r \<subseteq> set toks"
  by (auto simp: parse_string_expr_def dest!: string_sum_left split: sum.splits)

lemma parse_numeric_expr_left: "parse_numeric_expr toks = Inr (s, r) \<Longrightarrow> set r \<subseteq> set toks"
  using parse_string_expr_left [of toks s r]
  by (auto simp: parse_numeric_expr_def split: list.splits expression_token.splits)

lemma numeric_list_loop_left: "numeric_list_loop vs toks = Inr (x, r) \<Longrightarrow> set r \<subseteq> set toks"
proof (induction vs toks rule: numeric_list_loop.induct)
  case (1 vs toks)
  note step = 1(2) [unfolded numeric_list_loop.simps [of vs toks]]
  show ?case
    using step 1(1) by (fastforce simp: consumes_iff dest: parse_numeric_expr_left split: if_splits sum.splits)
qed

lemma string_array_loop_left: "string_array_loop vs toks = Inr (x, r) \<Longrightarrow> set r \<subseteq> set toks"
proof (induction vs toks rule: string_array_loop.induct)
  case (1 vs toks)
  note step = 1(2) [unfolded string_array_loop.simps [of vs toks]]
  show ?case
    using step 1(1) by (fastforce simp: consumes_iff dest: parse_string_expr_left split: if_splits sum.splits)
qed

lemma parse_map_value_left: "parse_map_value toks = Inr (x, r) \<Longrightarrow> set r \<subseteq> set toks"
  by (auto simp: parse_map_value_def consumes_iff map_value_string_Inr
      dest!: parse_string_expr_left string_array_loop_left split: if_splits sum.splits)

lemma parse_numeric_list_left: "parse_numeric_list toks = Inr (x, r) \<Longrightarrow> set r \<subseteq> set toks"
  by (auto simp: parse_numeric_list_def consumes_iff dest!: numeric_list_loop_left split: if_splits sum.splits)

lemma map_loop_left: "map_loop m toks = Inr (x, r) \<Longrightarrow> set r \<subseteq> set toks \<and> (btree_wf m \<longrightarrow> btree_wf x)"
proof (induction m toks rule: map_loop.induct)
  case (1 m toks)
  note step = 1(2) [unfolded map_loop.simps [of m toks] Let_def]
  obtain key r0 r1 vs r2 where p: "peek_string toks" "parse_string_expr toks = Inr (key, r0)" "r0 = XColon # r1"
    "parse_map_value r1 = Inr (vs, r2)"
    using step by (auto split: if_splits sum.splits)
  have s: "set r2 \<subseteq> set toks"
    using parse_string_expr_left [OF p(2)] parse_map_value_left [OF p(4)] p(3) by auto
  have "r2 = XRBrace # r \<and> x = btree_put key vs m
      \<or> (\<exists>r3. r2 = XComma # r3 \<and> set r \<subseteq> set r3 \<and> (btree_wf (btree_put key vs m) \<longrightarrow> btree_wf x))"
    using step p 1(1) [OF _ p(2) _ _ p(4)] by (auto simp: consumes_iff split: if_splits sum.splits)
  with s show ?case using btree_wf_put [of m key vs] by (auto; blast)
qed

lemma parse_arg_left: "parse_arg toks = Inr (x, r) \<Longrightarrow> set r \<subseteq> set toks \<and> wf_arg x"
  by (auto simp: parse_arg_def parse_map_def consumes_iff map_value_string_Inr
      dest!: parse_string_expr_left map_loop_left split: if_splits)

lemma args_loop_left:
  "args_loop xs toks = Inr (ys, r) \<Longrightarrow> list_all wf_arg xs \<Longrightarrow> set r \<subseteq> set toks \<and> list_all wf_arg ys"
proof (induction xs toks rule: args_loop.induct)
  case (1 xs toks)
  note step = 1(2) [unfolded args_loop.simps [of xs toks]]
  obtain a r0 where a: "parse_arg toks = Inr (a, r0)" using step by (auto split: sum.splits)
  have "r0 = XRParen # r \<and> ys = xs @ [a] \<or> (\<exists>r1. r0 = XComma # r1 \<and> set r \<subseteq> set r1 \<and> list_all wf_arg ys)"
    using step a 1(1) [OF a] 1(3) parse_arg_left [OF a] by (auto simp: consumes_iff split: if_splits sum.splits)
  with parse_arg_left [OF a] 1(3) show ?case by (auto; blast)
qed

lemma parse_matches_left:
  "parse_matches left toks = Inr (x, r) \<Longrightarrow> set r \<subseteq> set toks \<and> wf_expr x"
  by (auto simp: parse_matches_def dest!: parse_string_expr_left
      split: list.splits expression_token.splits if_splits sum.splits)

lemma parse_compare_value_left:
  "parse_compare_value toks = Inr (x, r) \<Longrightarrow> set r \<subseteq> set toks \<and> wf_expr x"
  by (auto simp: parse_compare_value_def consumes_iff
      dest!: parse_numeric_expr_left parse_matches_left parse_numeric_list_left split: sum.splits if_splits; blast)

lemma parse_call_left:
  "parse_call name toks = Inr (x, r) \<Longrightarrow> token_ok (XIdent name) \<Longrightarrow> set r \<subseteq> set toks \<and> wf_expr x"
  by (auto simp: parse_call_def consumes_iff ident_name_def dest!: args_loop_left split: if_splits sum.splits)

lemma parser_left:
  "parse_or t1 = Inr (x1, r1) \<Longrightarrow> list_all token_ok t1 \<Longrightarrow> set r1 \<subseteq> set t1 \<and> wf_expr x1"
  "or_loop y2 t2 = Inr (x2, r2) \<Longrightarrow> list_all token_ok t2 \<Longrightarrow> wf_expr y2 \<Longrightarrow> set r2 \<subseteq> set t2 \<and> wf_expr x2"
  "parse_and t3 = Inr (x3, r3) \<Longrightarrow> list_all token_ok t3 \<Longrightarrow> set r3 \<subseteq> set t3 \<and> wf_expr x3"
  "and_loop y4 t4 = Inr (x4, r4) \<Longrightarrow> list_all token_ok t4 \<Longrightarrow> wf_expr y4 \<Longrightarrow> set r4 \<subseteq> set t4 \<and> wf_expr x4"
  "parse_compare t5 = Inr (x5, r5) \<Longrightarrow> list_all token_ok t5 \<Longrightarrow> set r5 \<subseteq> set t5 \<and> wf_expr x5"
  "parse_not t6 = Inr (x6, r6) \<Longrightarrow> list_all token_ok t6 \<Longrightarrow> set r6 \<subseteq> set t6 \<and> wf_expr x6"
  "parse_primary t7 = Inr (x7, r7) \<Longrightarrow> list_all token_ok t7 \<Longrightarrow> set r7 \<subseteq> set t7 \<and> wf_expr x7"
proof (induction t1 and y2 t2 and t3 and y4 t4 and t5 and t6 and t7
    arbitrary: x1 r1 and x2 r2 and x3 r3 and x4 r4 and x5 r5 and x6 r6 and x7 r7
    rule: parse_or_or_loop_parse_and_and_loop_parse_compare_parse_not_parse_primary.induct)
  case (1 toks)
  then obtain x r where x: "parse_and toks = Inr (x, r)" "or_loop x r = Inr (x1, r1)"
    by (auto simp: parse_or.simps split: sum.splits)
  have w: "set r \<subseteq> set toks \<and> wf_expr x" using 1(1) x(1) 1(4) by blast
  then have "list_all token_ok r" using 1(4) by (auto simp: list_all_iff)
  with 1(2) [OF x(1) refl x(2)] w show ?case by blast
next
  case (2 y toks)
  show ?case
  proof (cases "consumes XOr toks")
    case True
    then obtain t x r where x: "toks = XOr # t" "parse_and t = Inr (x, r)" "or_loop (EOr y x) r = Inr (x2, r2)"
      using 2(3) by (auto simp: consumes_iff or_loop.simps [of y] split: sum.splits)
    have w: "set r \<subseteq> set t \<and> wf_expr x" using 2(1) x(1,2) 2(4) by simp
    then have "list_all token_ok r" using 2(4) x(1) by (auto simp: list_all_iff)
    with 2(2) [OF True _ refl x(3)] w x show ?thesis using 2(5) by auto
  qed (use 2 in \<open>simp add: or_loop.simps\<close>)
next
  case (3 toks)
  then obtain x r where x: "parse_compare toks = Inr (x, r)" "and_loop x r = Inr (x3, r3)"
    by (auto simp: parse_and.simps split: sum.splits)
  have w: "set r \<subseteq> set toks \<and> wf_expr x" using 3(1) x(1) 3(4) by blast
  then have "list_all token_ok r" using 3(4) by (auto simp: list_all_iff)
  with 3(2) [OF x(1) refl x(2)] w show ?case by blast
next
  case (4 y toks)
  show ?case
  proof (cases "consumes XAnd toks")
    case True
    then obtain t x r where x: "toks = XAnd # t" "parse_compare t = Inr (x, r)" "and_loop (EAnd y x) r = Inr (x4, r4)"
      using 4(3) by (auto simp: consumes_iff and_loop.simps [of y] split: sum.splits)
    have w: "set r \<subseteq> set t \<and> wf_expr x" using 4(1) x(1,2) 4(4) by simp
    then have "list_all token_ok r" using 4(4) x(1) by (auto simp: list_all_iff)
    with 4(2) [OF True _ refl x(3)] w x show ?thesis using 4(5) by auto
  qed (use 4 in \<open>simp add: and_loop.simps\<close>)
next
  case (5 toks)
  then show ?case by (auto simp: parse_compare.simps dest: parse_compare_value_left split: if_splits)
next
  case (6 toks)
  then show ?case by (fastforce simp: parse_not.simps consumes_iff split: if_splits)
next
  case (7 toks)
  then show ?case
    by (fastforce simp: parse_primary.simps consumes_iff dest: parse_call_left
        split: if_splits sum.splits list.splits expression_token.splits)
qed

subsection \<open>Properties\<close>

text \<open>C10. Every expression can be written down: the text of a well-formed syntax tree, with
  parentheses only where the precedence of \<open>!\<close>, \<open>&&\<close> and \<open>||\<close> demands them and quotes escaped,
  is tokenized and parsed to that tree.\<close>

theorem expression_roundtrip:
  assumes "wf_expr e"
  shows "parse_expression (render_expression e) = Inr e"
  using assms by (rule parse_rendered_expr)

theorem expression_roundtrip_witness:
  "parse_expression (render_expression
     (EAnd (EOr (EEq ''{path}'' [CHR 0x22]) (ENot (ECall ''header'' [ArgMap [(''A'', [''1'', ''2'']), (''B'', [])]])))
       (EIn ''{x}'' [''7'']))) =
   Inr (EAnd (EOr (EEq ''{path}'' [CHR 0x22]) (ENot (ECall ''header'' [ArgMap [(''A'', [''1'', ''2'']), (''B'', [])]])))
       (EIn ''{x}'' [''7'']))"
  by (rule expression_roundtrip)
    (simp add: ident_name_def ident_char_def is_ascii_alphabetic_def is_ascii_digit_def byte_val_def btree_wf_def)

text \<open>C22. The parser only makes well-formed trees: every accepted text gives a tree whose calls have
  identifiers for names and whose object arguments are ordered maps, and writing this tree down
  again gives a text of the same meaning.\<close>

theorem expression_accepted:
  assumes "parse_expression s = Inr e"
  shows "wf_expr e \<and> parse_expression (render_expression e) = Inr e"
proof -
  obtain toks where "tokenize_expression s = Inr toks" "parse_tokens toks = Inr e"
    using assms by (auto simp: parse_expression_def and_then_Inr)
  then obtain r where t: "tokenize_expression s = Inr toks" "parse_or toks = Inr (e, r)"
    by (cases "parse_or toks") (auto simp: parse_tokens_def split: if_splits)
  then have "wf_expr e" using parser_left(1) tokenize_ok by (metis tokenize_expression_def)
  then show ?thesis by (simp add: parse_rendered_expr)
qed

lemma sample_tokens:
  "tokenize_expression ''!f() || {x} >= 3'' =
     Inr [XNot, XIdent ''f'', XLParen, XRParen, XOr, XString ''{x}'', XGe, XNumber ''3'']"
  by (simp add: tokenize_expression_def tokenize_loop.simps leading_ws_graphic
      leading_ws_space next_expr_token_def punctuation_def ident_char_def is_ascii_alphabetic_def is_ascii_digit_def graphic_def
      byte_val_def starts_with_def expression_brace_starts_map_def)

lemma sample_expression:
  "parse_expression ''!f() || {x} >= 3'' = Inr (EOr (ENot (ECall ''f'' [])) (ECompare ''{x}'' OpGe ''3''))"
proof -
  have "parse_tokens [XNot, XIdent ''f'', XLParen, XRParen, XOr, XString ''{x}'', XGe, XNumber ''3''] =
      Inr (EOr (ENot (ECall ''f'' [])) (ECompare ''{x}'' OpGe ''3''))"
    by code_simp
  then show ?thesis by (simp add: parse_expression_def sample_tokens)
qed

theorem expression_accepted_witness:
  "wf_expr (EOr (ENot (ECall ''f'' [])) (ECompare ''{x}'' OpGe ''3''))"
  using expression_accepted [OF sample_expression] by blast

end
