(* ===== verification/Adapter_Routes.thy ===== *)
theory Adapter_Routes
  imports Rust_Float Json Btree
begin

text \<open>
  The routes the Caddyfile adapter builds, \<open>src/src/caddyfile/adapter/handlers.rs\<close> and
  \<open>mod.rs\<close>: their order by directive and by path, the groups of mutually exclusive routes, the
  merging of neighbours, and their JSON.  A \<open>serde_json::Map\<close> is a map in the order of its keys.
\<close>

subsection \<open>Routes and subroutes\<close>

record route =
  rt_matcher_sets :: "json list"
  rt_handlers :: "json list"
  rt_group :: string
  rt_terminal :: bool

record subroute =
  sr_routes :: "route list"
  sr_errors :: "route list"

datatype route_or_sub = RouteValue route | SubValue subroute | JsonValue json

record config_value =
  cv_class :: string
  cv_directive :: string
  cv_value :: route_or_sub

definition route_to_json :: "route \<Rightarrow> json" where
  "route_to_json r =
     (let m = [];
          m = (if rt_group r \<noteq> [] then btree_put ''group'' (JStr (rt_group r)) m else m);
          m = (if rt_matcher_sets r \<noteq> [] then btree_put ''match'' (JArr (rt_matcher_sets r)) m else m);
          m = (if rt_handlers r \<noteq> [] then btree_put ''handle'' (JArr (rt_handlers r)) m else m);
          m = (if rt_terminal r then btree_put ''terminal'' (JBool True) m else m)
      in JObj m)"

definition subroute_to_handler_json :: "subroute \<Rightarrow> json" where
  "subroute_to_handler_json s =
     (let m = btree_put ''handler'' (JStr ''subroute'') [];
          m = (if sr_routes s \<noteq> [] then btree_put ''routes'' (JArr (map route_to_json (sr_routes s))) m else m);
          m = (if sr_errors s \<noteq> [] then
                 btree_put ''errors'' (JObj [(''routes'', JArr (map route_to_json (sr_errors s)))]) m
               else m)
      in JObj m)"

text \<open>The counter of group names, an \<open>i32\<close>, and the name it gives; the increment wraps.\<close>

definition show_i32 :: "32 word \<Rightarrow> string" where
  "show_i32 c = (if sint c < 0 then CHR ''-'' # show_nat (nat (- sint c)) else show_nat (nat (sint c)))"

definition next_group :: "32 word \<Rightarrow> string \<times> 32 word" where
  "next_group c = (''group'' @ show_i32 c, c + 1)"

subsection \<open>Order\<close>

datatype ordering = OLess | OEqual | OGreater

definition ordering_reverse :: "ordering \<Rightarrow> ordering" where
  "ordering_reverse x = (case x of OLess \<Rightarrow> OGreater | OEqual \<Rightarrow> OEqual | OGreater \<Rightarrow> OLess)"

definition cmp_nat :: "nat \<Rightarrow> nat \<Rightarrow> ordering" where
  "cmp_nat a b = (if a < b then OLess else if a = b then OEqual else OGreater)"

definition cmp_str :: "string \<Rightarrow> string \<Rightarrow> ordering" where
  "cmp_str a b = (if str_less a b then OLess else if a = b then OEqual else OGreater)"

text \<open>The position of a directive; \<open>usize::MAX\<close> for one that is not ordered.\<close>

definition usize_max :: nat where
  "usize_max = 2 ^ 64 - 1"

fun position_from :: "nat \<Rightarrow> string \<Rightarrow> string list \<Rightarrow> nat option" where
  "position_from i dir [] = None"
| "position_from i dir (d # ds) = (if d = dir then Some i else position_from (i + 1) dir ds)"

definition directive_position :: "string \<Rightarrow> string list \<Rightarrow> nat" where
  "directive_position dir order = (case position_from 0 dir order of Some i \<Rightarrow> i | None \<Rightarrow> usize_max)"

definition single_path :: "route \<Rightarrow> string option" where
  "single_path r =
     (case rt_matcher_sets r of
        [ms] \<Rightarrow> (case json_get ms ''path'' of Some (JArr [JStr s]) \<Rightarrow> Some s | _ \<Rightarrow> None)
      | _ \<Rightarrow> None)"

definition strip_star :: "string \<Rightarrow> string" where
  "strip_star p = (if ends_with p ''*'' then butlast p else p)"

definition path_cmp :: "string \<Rightarrow> string \<Rightarrow> ordering" where
  "path_cmp ap bp =
     (let a = strip_star ap; b = strip_star bp
      in if a = b then cmp_nat (length ap) (length bp)
         else if length a = length b then cmp_str a b
         else cmp_nat (length b) (length a))"

definition sort_by_path :: "route \<Rightarrow> route \<Rightarrow> ordering" where
  "sort_by_path a b =
     (case (single_path a, single_path b) of
        (Some ap, Some bp) \<Rightarrow> path_cmp ap bp
      | _ \<Rightarrow>
          (let a_has = (rt_matcher_sets a \<noteq> []); b_has = (rt_matcher_sets b \<noteq> [])
           in if a_has \<and> \<not> b_has then OLess else if \<not> a_has \<and> b_has then OGreater else OEqual))"

definition route_cmp :: "string list \<Rightarrow> nat \<times> config_value \<Rightarrow> nat \<times> config_value \<Rightarrow> ordering" where
  "route_cmp order x y =
     (let (a_idx, a) = x; (b_idx, b) = y
      in if cv_directive a \<noteq> cv_directive b then
           cmp_nat (directive_position (cv_directive a) order) (directive_position (cv_directive b) order)
         else
           (case (cv_value a, cv_value b) of
              (RouteValue ar, RouteValue br) \<Rightarrow>
                (let ord = sort_by_path ar br
                 in if cv_directive a = ''vars'' then
                      (if ord = OEqual then cmp_nat b_idx a_idx else ordering_reverse ord)
                    else if ord = OEqual then cmp_nat a_idx b_idx
                    else ord)
            | _ \<Rightarrow> OEqual))"

definition sort_routes :: "config_value list \<Rightarrow> string list \<Rightarrow> config_value list" where
  "sort_routes routes order =
     map snd (sort_by (\<lambda>x y. route_cmp order x y = OLess) (List.enumerate 0 routes))"

subsection \<open>Building a subroute\<close>

fun consolidate_routes :: "route list \<Rightarrow> route list" where
  "consolidate_routes [] = []"
| "consolidate_routes [r] = [r]"
| "consolidate_routes (r # s # rs) =
     (if rt_matcher_sets r = rt_matcher_sets s \<and> rt_terminal r = rt_terminal s \<and> rt_group r = rt_group s
      then consolidate_routes (r\<lparr>rt_handlers := rt_handlers r @ rt_handlers s\<rparr> # rs)
      else r # consolidate_routes (s # rs))"

datatype subroute_error = NotOrdered string | NotRoute string

fun group_names_loop ::
  "config_value list \<Rightarrow> string list \<Rightarrow> (string \<times> string) list \<Rightarrow> 32 word \<Rightarrow> (string \<times> string) list \<times> 32 word" where
  "group_names_loop routes [] names counter = (names, counter)"
| "group_names_loop routes (dir # dirs) names counter =
     (if length (filter (\<lambda>r. cv_directive r = dir) routes) > 1 \<or> dir = ''rewrite'' then
        (let (name, counter) = next_group counter
         in group_names_loop routes dirs ((dir, name) # names) counter)
      else group_names_loop routes dirs names counter)"

fun collect_routes ::
  "(string \<times> string) list \<Rightarrow> config_value list \<Rightarrow> route list \<Rightarrow> subroute_error + route list" where
  "collect_routes names [] out = Inr out"
| "collect_routes names (r # rs) out =
     (case cv_value r of
        SubValue s \<Rightarrow> collect_routes names rs (out @ sr_routes s)
      | RouteValue route \<Rightarrow>
          collect_routes names rs
            (out @ [case map_of names (cv_directive r) of
                      Some g \<Rightarrow> route\<lparr>rt_group := g\<rparr>
                    | None \<Rightarrow> route])
      | JsonValue _ \<Rightarrow> Inl (NotRoute (cv_directive r)))"

definition build_subroute ::
  "config_value list \<Rightarrow> 32 word \<Rightarrow> bool \<Rightarrow> string list \<Rightarrow> subroute_error + (subroute \<times> 32 word)" where
  "build_subroute routes counter needs_sorting order =
     (case (if needs_sorting then find (\<lambda>v. directive_position (cv_directive v) order = usize_max) routes else None) of
        Some v \<Rightarrow> Inl (NotOrdered (cv_directive v))
      | None \<Rightarrow>
          (let routes = (if needs_sorting then sort_routes routes order else routes);
               (names, counter) = group_names_loop routes [''handle'', ''rewrite'', ''root''] [] counter
           in case collect_routes names routes [] of
                Inl e \<Rightarrow> Inl e
              | Inr out \<Rightarrow> Inr (\<lparr>sr_routes = consolidate_routes out, sr_errors = []\<rparr>, counter)))"

definition append_subroute_to_route_list :: "json list \<Rightarrow> subroute \<Rightarrow> json list \<Rightarrow> bool \<Rightarrow> json list" where
  "append_subroute_to_route_list route_list s matcher_sets single_block =
     (if matcher_sets = [] \<and> sr_routes s = [] \<and> sr_errors s = [] then route_list
      else
        (let wrap = (if matcher_sets = [] \<and> single_block
                     then list_ex (\<lambda>r. list_ex (\<lambda>ms. json_get ms ''host'' \<noteq> None) (rt_matcher_sets r)) (sr_routes s)
                     else True)
         in if wrap then
              (let r = \<lparr>rt_matcher_sets = matcher_sets,
                        rt_handlers = (if sr_routes s \<noteq> [] \<or> sr_errors s \<noteq> [] then [subroute_to_handler_json s] else []),
                        rt_group = [], rt_terminal = True\<rparr>
               in if rt_matcher_sets r \<noteq> [] \<or> rt_handlers r \<noteq> [] then route_list @ [route_to_json r] else route_list)
            else route_list @ map route_to_json (sr_routes s)))"

subsection \<open>The order of paths\<close>

lemma cmp_nat_iff: "cmp_nat a b = OLess \<longleftrightarrow> a < b" "cmp_nat a b = OEqual \<longleftrightarrow> a = b" "cmp_nat a b = OGreater \<longleftrightarrow> b < a"
  by (auto simp: cmp_nat_def)

lemma cmp_str_iff: "cmp_str a b = OLess \<longleftrightarrow> str_less a b" "cmp_str a b = OEqual \<longleftrightarrow> a = b"
  "cmp_str a b = OGreater \<longleftrightarrow> str_less b a"
  using str_less_total [of a b] str_less_asym [of a b] by (auto simp: cmp_str_def)

lemma strip_star_eq: "strip_star p = strip_star q \<Longrightarrow> length p = length q \<Longrightarrow> p = q"
  by (cases p rule: rev_cases; cases q rule: rev_cases) (auto simp: strip_star_def ends_with_def split: if_splits)

text \<open>The order of single paths is a total order: the longer ones without their star first.\<close>

lemma path_cmp_eq: "path_cmp p q = OEqual \<longleftrightarrow> p = q"
  using strip_star_eq [of p q] by (auto simp: path_cmp_def Let_def cmp_nat_iff cmp_str_iff)

lemma path_cmp_swap: "path_cmp p q = OGreater \<longleftrightarrow> path_cmp q p = OLess"
  by (simp add: path_cmp_def Let_def cmp_nat_iff cmp_str_iff eq_commute [of "strip_star q"] eq_commute [of "length (strip_star q)"])

lemma path_cmp_trans: "path_cmp p q = OLess \<Longrightarrow> path_cmp q r = OLess \<Longrightarrow> path_cmp p r = OLess"
  using str_less_trans [of "strip_star p" "strip_star q" "strip_star r"] str_less_irrefl
  by (auto simp: path_cmp_def Let_def cmp_nat_iff cmp_str_iff split: if_splits)

text \<open>Routes whose paths compare transitively: no single path beside another kind of matcher.\<close>

definition unmixed :: "route \<Rightarrow> route \<Rightarrow> bool" where
  "unmixed a b = (single_path a \<noteq> None \<longrightarrow> single_path b \<noteq> None \<or> rt_matcher_sets b = [])"

lemma single_path_matched: "single_path r = Some p \<Longrightarrow> rt_matcher_sets r \<noteq> []"
  by (auto simp: single_path_def)

lemma sort_by_path_swap: "sort_by_path a b = OGreater \<longleftrightarrow> sort_by_path b a = OLess"
  by (auto simp: sort_by_path_def Let_def path_cmp_swap split: option.splits)

lemma sort_by_path_trans:
  assumes "unmixed a b" "unmixed b a" "unmixed b c" "unmixed c b" "unmixed a c" "unmixed c a"
    and "sort_by_path a b \<noteq> OGreater" and "sort_by_path b c \<noteq> OGreater"
  shows "sort_by_path a c \<noteq> OGreater"
    and "sort_by_path a c = OEqual \<Longrightarrow> sort_by_path a b = OEqual \<and> sort_by_path b c = OEqual"
proof -
  have less: "x \<noteq> OGreater \<longleftrightarrow> x = OLess \<or> x = OEqual" for x by (cases x) auto
  note facts = single_path_matched [of a] single_path_matched [of b] single_path_matched [of c]
  have "sort_by_path a c \<noteq> OGreater \<and> (sort_by_path a c = OEqual \<longrightarrow> sort_by_path a b = OEqual \<and> sort_by_path b c = OEqual)"
  proof (cases "single_path a"; cases "single_path b"; cases "single_path c")
    fix p q r assume pqr: "single_path a = Some p" "single_path b = Some q" "single_path c = Some r"
    then show ?thesis
      using assms(7,8) path_cmp_trans [of p q r] path_cmp_trans [of q p q] path_cmp_swap [of p q] path_cmp_swap [of p r]
      by (auto simp: sort_by_path_def less path_cmp_eq)
  qed (use assms facts in \<open>auto simp: sort_by_path_def unmixed_def Let_def split: if_splits\<close>)
  then show "sort_by_path a c \<noteq> OGreater"
    "sort_by_path a c = OEqual \<Longrightarrow> sort_by_path a b = OEqual \<and> sort_by_path b c = OEqual" by auto
qed

lemma position_from_nth: "position_from i dir ds = Some n \<Longrightarrow> \<exists>k. n = i + k \<and> ds ! k = dir"
proof (induction ds arbitrary: i)
  case (Cons d ds)
  show ?case
  proof (cases "d = dir")
    case True
    then show ?thesis using Cons.prems by (intro exI [of _ 0]) simp
  next
    case False
    then obtain k where "n = i + 1 + k" "ds ! k = dir" using Cons.prems Cons.IH [of "i + 1"] by auto
    then show ?thesis by (intro exI [of _ "Suc k"]) simp
  qed
qed simp

lemma directive_position_inject:
  assumes "directive_position a order = directive_position b order" "directive_position a order \<noteq> usize_max"
  shows "a = b"
  using assms position_from_nth [of 0 a order] position_from_nth [of 0 b order]
  by (fastforce simp: directive_position_def split: option.splits)

text \<open>The routes that \<open>sort_routes\<close> can put in order.\<close>

definition value_route :: "config_value \<Rightarrow> route option" where
  "value_route v = (case cv_value v of RouteValue r \<Rightarrow> Some r | _ \<Rightarrow> None)"

definition orderable :: "string list \<Rightarrow> config_value list \<Rightarrow> bool" where
  "orderable order routes =
     (list_all (\<lambda>v. directive_position (cv_directive v) order \<noteq> usize_max \<and> value_route v \<noteq> None) routes \<and>
      list_all (\<lambda>v. list_all (\<lambda>w. cv_directive v = cv_directive w \<longrightarrow>
        unmixed (the (value_route v)) (the (value_route w))) routes) routes)"

text \<open>What the comparison decides between two routes: directive, path, then place in the file.\<close>

definition comes_first :: "string list \<Rightarrow> nat \<times> config_value \<Rightarrow> nat \<times> config_value \<Rightarrow> bool" where
  "comes_first order x y =
     (let (i, a) = x; (j, b) = y; ord = sort_by_path (the (value_route a)) (the (value_route b))
      in if cv_directive a \<noteq> cv_directive b then
           directive_position (cv_directive a) order < directive_position (cv_directive b) order
         else if cv_directive a = ''vars'' then ord = OGreater \<or> ord = OEqual \<and> j < i
         else ord = OLess \<or> ord = OEqual \<and> i < j)"

lemma route_cmp_comes_first:
  assumes "orderable order routes" and "a \<in> set routes" and "b \<in> set routes"
  shows "route_cmp order (i, a) (j, b) = OLess \<longleftrightarrow> comes_first order (i, a) (j, b)"
proof -
  have "value_route a \<noteq> None" "value_route b \<noteq> None"
    using assms by (auto simp: orderable_def list_all_iff simp del: not_None_eq)
  then obtain ar br where "cv_value a = RouteValue ar" "cv_value b = RouteValue br"
    by (auto simp: value_route_def split: route_or_sub.splits)
  then show ?thesis
    by (cases "sort_by_path ar br") (simp_all add: route_cmp_def comes_first_def value_route_def Let_def cmp_nat_iff ordering_reverse_def)
qed

lemma comes_first_asym: "comes_first order x y \<Longrightarrow> \<not> comes_first order y x"
  using sort_by_path_swap [of "the (value_route (snd x))" "the (value_route (snd y))"]
    sort_by_path_swap [of "the (value_route (snd y))" "the (value_route (snd x))"]
  by (cases x; cases y; cases "sort_by_path (the (value_route (snd x))) (the (value_route (snd y)))")
    (auto simp: comes_first_def Let_def split: if_splits)

lemma comes_first_trans:
  assumes ok: "orderable order routes" and mem: "a \<in> set routes" "b \<in> set routes" "c \<in> set routes"
    and "\<not> comes_first order (j, b) (i, a)" and "\<not> comes_first order (k, c) (j, b)"
  shows "\<not> comes_first order (k, c) (i, a)"
proof -
  let ?p = "\<lambda>v. directive_position (cv_directive v) order" and ?r = "\<lambda>v. the (value_route v)"
  have known: "?p v \<noteq> usize_max" if "v \<in> set routes" for v using ok that by (auto simp: orderable_def list_all_iff)
  have pos: "?p a \<le> ?p b" "?p b \<le> ?p c" using assms(5,6) by (auto simp: comes_first_def Let_def split: if_splits)
  show ?thesis
  proof (cases "cv_directive a = cv_directive c")
    case False
    then show ?thesis using pos by (simp add: comes_first_def)
  next
    case True
    then have "?p b = ?p a" using pos by simp
    then have d: "cv_directive b = cv_directive a" using directive_position_inject known [OF mem(2)] by blast
    have mix: "unmixed (?r v) (?r w)" if "v \<in> {a, b, c}" "w \<in> {a, b, c}" for v w
      using ok mem that d True by (auto simp: orderable_def list_all_iff)
    have swap: "sort_by_path x y = OLess \<longleftrightarrow> sort_by_path y x = OGreater"
      "sort_by_path x y = OEqual \<longleftrightarrow> sort_by_path y x = OEqual" for x y
      using sort_by_path_swap [of x y] sort_by_path_swap [of y x] by (metis ordering.exhaust ordering.distinct)+
    note up = sort_by_path_trans [of "?r a" "?r b" "?r c"] and down = sort_by_path_trans [of "?r c" "?r b" "?r a"]
    show ?thesis
    proof (cases "cv_directive a = ''vars''")
      case v: True
      have "sort_by_path (?r b) (?r a) = OLess \<or> sort_by_path (?r b) (?r a) = OEqual \<and> j \<le> i"
        using assms(5) v d swap [of "?r b" "?r a"] by (cases "sort_by_path (?r b) (?r a)") (auto simp: comes_first_def)
      moreover have "sort_by_path (?r c) (?r b) = OLess \<or> sort_by_path (?r c) (?r b) = OEqual \<and> k \<le> j"
        using assms(6) v d True swap [of "?r c" "?r b"] by (cases "sort_by_path (?r c) (?r b)") (auto simp: comes_first_def)
      ultimately show ?thesis using down mix v True by (auto simp: comes_first_def)
    next
      case v: False
      have "sort_by_path (?r a) (?r b) = OLess \<or> sort_by_path (?r a) (?r b) = OEqual \<and> i \<le> j"
        using assms(5) v d swap [of "?r b" "?r a"] swap [of "?r a" "?r b"]
        by (cases "sort_by_path (?r b) (?r a)") (auto simp: comes_first_def)
      moreover have "sort_by_path (?r b) (?r c) = OLess \<or> sort_by_path (?r b) (?r c) = OEqual \<and> j \<le> k"
        using assms(6) v d True swap [of "?r c" "?r b"] swap [of "?r b" "?r c"]
        by (cases "sort_by_path (?r c) (?r b)") (auto simp: comes_first_def)
      ultimately show ?thesis using up mix v True swap [of "?r c" "?r a"] by (auto simp: comes_first_def)
    qed
  qed
qed

lemma enumerate_mem: "(i, v) \<in> set (List.enumerate 0 vs) \<longleftrightarrow> i < length vs \<and> v = vs ! i"
  by (force simp: enumerate_eq_zip in_set_zip)

lemma sort_routes_indices:
  obtains js where "mset js = mset [0..<length routes]" and "sort_routes routes order = map ((!) routes) js"
    and "sort_by (\<lambda>x y. route_cmp order x y = OLess) (List.enumerate 0 routes) = map (\<lambda>i. (i, routes ! i)) js"
proof -
  let ?s = "sort_by (\<lambda>x y. route_cmp order x y = OLess) (List.enumerate 0 routes)"
  have "set ?s = set (List.enumerate 0 routes)" by (metis mset_sort_by set_mset_mset)
  then have pairs: "?s = map (\<lambda>i. (i, routes ! i)) (map fst ?s)"
    using enumerate_mem [of _ _ routes] by (intro nth_equalityI) (simp_all, metis nth_mem prod.collapse)
  have "mset (map fst ?s) = image_mset fst (mset (List.enumerate 0 routes))" by simp
  also have "\<dots> = mset [0..<length routes]" by (metis map_fst_enumerate mset_map plus_nat.add_0)
  finally have perm: "mset (map fst ?s) = mset [0..<length routes]" .
  have "sort_routes routes order = map snd (map (\<lambda>i. (i, routes ! i)) (map fst ?s))"
    unfolding sort_routes_def using pairs by simp
  then show ?thesis using that [OF perm _ pairs] by (simp add: comp_def)
qed

lemma comes_first_total:
  assumes "orderable order routes" and "a \<in> set routes" "b \<in> set routes"
    and "\<not> comes_first order (j, b) (i, a)" and "i \<noteq> j"
  shows "comes_first order (i, a) (j, b)"
proof -
  let ?ab = "sort_by_path (the (value_route a)) (the (value_route b))"
    and ?ba = "sort_by_path (the (value_route b)) (the (value_route a))"
  have swap: "?ab = OGreater \<longleftrightarrow> ?ba = OLess" "?ba = OGreater \<longleftrightarrow> ?ab = OLess" by (rule sort_by_path_swap)+
  show ?thesis
  proof (cases "cv_directive a = cv_directive b")
    case True
    then show ?thesis using assms(4,5) swap by (cases ?ab; cases ?ba) (auto simp: comes_first_def split: if_splits)
  next
    case False
    have known: "directive_position (cv_directive a) order \<noteq> usize_max"
      using assms(1,2) by (simp add: orderable_def list_all_iff)
    have "directive_position (cv_directive a) order \<noteq> directive_position (cv_directive b) order"
      using directive_position_inject [OF _ known] False by blast
    then show ?thesis using assms(4) False by (simp add: comes_first_def)
  qed
qed

lemma enumerate_at: "x \<in> set (List.enumerate 0 vs) \<Longrightarrow> \<exists>i < length vs. x = (i, vs ! i)"
  by (cases x) (simp add: enumerate_mem)

lemma route_lt_at:
  assumes "orderable order routes" and "i < length routes" and "j < length routes"
  shows "route_cmp order (i, routes ! i) (j, routes ! j) = OLess \<longleftrightarrow> comes_first order (i, routes ! i) (j, routes ! j)"
  using route_cmp_comes_first [OF assms(1), of "routes ! i" "routes ! j" i j] assms(2,3) by simp

lemma sort_by_route_sorted:
  assumes "orderable order routes"
  shows "sorted_wrt (\<lambda>x y. \<not> route_cmp order y x = OLess)
    (sort_by (\<lambda>x y. route_cmp order x y = OLess) (List.enumerate 0 routes))"
proof (rule sort_by_sorted)
  let ?lt = "\<lambda>x y. route_cmp order x y = OLess" and ?es = "List.enumerate 0 routes"
  note lt = route_lt_at [OF assms]
  {
    fix x y z assume mem: "x \<in> set ?es" "y \<in> set ?es" "z \<in> set ?es" and nlt: "\<not> ?lt y x" "\<not> ?lt z y"
    obtain i j k where ijk: "i < length routes" "x = (i, routes ! i)" "j < length routes" "y = (j, routes ! j)"
        "k < length routes" "z = (k, routes ! k)"
      using enumerate_at [OF mem(1)] enumerate_at [OF mem(2)] enumerate_at [OF mem(3)] by blast
    show "\<not> ?lt z x" using nlt comes_first_trans [OF assms, of "routes ! i" "routes ! j" "routes ! k" j i k]
      unfolding ijk(2,4,6) lt [OF ijk(3,1)] lt [OF ijk(5,3)] lt [OF ijk(5,1)] using ijk(1,3,5) by simp
  }
  fix x y assume mem: "x \<in> set ?es" "y \<in> set ?es" and xy: "?lt x y"
  obtain i j where ij: "i < length routes" "x = (i, routes ! i)" "j < length routes" "y = (j, routes ! j)"
    using enumerate_at [OF mem(1)] enumerate_at [OF mem(2)] by blast
  show "\<not> ?lt y x" using xy unfolding ij(2,4) lt [OF ij(3,1)] lt [OF ij(1,3)] by (rule comes_first_asym)
qed


text \<open>A site with three \<open>respond\<close> directives and a \<open>root\<close>.\<close>

definition path_route :: "string \<Rightarrow> route" where
  "path_route p =
     \<lparr>rt_matcher_sets = [JObj [(''path'', JArr [JStr p])]], rt_handlers = [], rt_group = [], rt_terminal = False\<rparr>"

definition plain_route :: route where
  "plain_route = \<lparr>rt_matcher_sets = [], rt_handlers = [], rt_group = [], rt_terminal = False\<rparr>"

definition header_route :: route where
  "header_route =
     \<lparr>rt_matcher_sets = [JObj [(''header'', JNull)]], rt_handlers = [], rt_group = [], rt_terminal = False\<rparr>"

definition config_route :: "string \<Rightarrow> route \<Rightarrow> config_value" where
  "config_route d r = \<lparr>cv_class = ''route'', cv_directive = d, cv_value = RouteValue r\<rparr>"

definition sample_routes :: "config_value list" where
  "sample_routes = [config_route ''respond'' plain_route, config_route ''respond'' (path_route ''/a/*''),
     config_route ''respond'' (path_route ''/a/b''), config_route ''root'' plain_route]"

definition sample_order :: "string list" where
  "sample_order = [''root'', ''header'', ''respond'']"

lemma sample_positions:
  "directive_position ''root'' sample_order = 0" "directive_position ''respond'' sample_order = 2"
  "usize_max = 18446744073709551615"
  by (simp_all add: directive_position_def sample_order_def usize_max_def)

lemma sample_single:
  "single_path plain_route = None" "single_path (path_route p) = Some p" "single_path header_route = None"
  "rt_matcher_sets plain_route = []" "rt_matcher_sets (path_route p) \<noteq> []" "rt_matcher_sets header_route \<noteq> []"
  by (simp_all add: single_path_def plain_route_def path_route_def header_route_def json_get_def)

lemma sample_config:
  "cv_directive (config_route d r) = d" "cv_value (config_route d r) = RouteValue r"
  "value_route (config_route d r) = Some r"
  by (simp_all add: config_route_def value_route_def)

lemmas sample_simps = sample_positions sample_single sample_config sort_by_path_def route_cmp_def Let_def
  sort_by_def sort_routes_def path_cmp_def strip_star_def ends_with_def cmp_nat_def cmp_str_def unmixed_def

lemma sample_routes_sorted:
  "orderable sample_order sample_routes"
  "sort_routes sample_routes sample_order = [config_route ''root'' plain_route,
     config_route ''respond'' (path_route ''/a/b''), config_route ''respond'' (path_route ''/a/*''),
     config_route ''respond'' plain_route]"
  by (simp_all add: sample_routes_def orderable_def sample_simps)



subsection \<open>Building a subroute\<close>

definition route_key :: "route \<Rightarrow> json list \<times> bool \<times> string" where
  "route_key r = (rt_matcher_sets r, rt_terminal r, rt_group r)"

lemma consolidate_keys: "map route_key (consolidate_routes rs) = remdups_adj (map route_key rs)"
  by (induction rs rule: consolidate_routes.induct) (auto simp: route_key_def)

lemma consolidate_handlers: "concat (map rt_handlers (consolidate_routes rs)) = concat (map rt_handlers rs)"
  by (induction rs rule: consolidate_routes.induct) auto

definition value_handlers :: "config_value \<Rightarrow> json list" where
  "value_handlers v =
     (case cv_value v of
        RouteValue r \<Rightarrow> rt_handlers r
      | SubValue s \<Rightarrow> concat (map rt_handlers (sr_routes s))
      | JsonValue _ \<Rightarrow> [])"

lemma value_handlers_simps:
  "cv_value v = RouteValue r \<Longrightarrow> value_handlers v = rt_handlers r"
  "cv_value v = SubValue s \<Longrightarrow> value_handlers v = concat (map rt_handlers (sr_routes s))"
  by (simp_all add: value_handlers_def)

lemma collect_routes_result:
  "case collect_routes names rs out of
     Inr out' \<Rightarrow> concat (map rt_handlers out') = concat (map rt_handlers out) @ concat (map value_handlers rs)
   | Inl e \<Rightarrow> \<exists>v \<in> set rs. e = NotRoute (cv_directive v) \<and> (\<exists>j. cv_value v = JsonValue j)"
  by (induction names rs out rule: collect_routes.induct)
    (auto simp: value_handlers_simps split: route_or_sub.splits sum.splits option.splits)

text \<open>C24. 
  A subroute has the handlers of its routes, all of them, once, and in their order, with no two
  neighbours left to merge; otherwise the error names a directive that has no place in the
  order or is no route.
\<close>

theorem subroute_keeps_handlers:
  "case build_subroute routes counter needs_sorting order of
     Inr (sub, counter') \<Rightarrow>
       concat (map rt_handlers (sr_routes sub)) =
         concat (map value_handlers (if needs_sorting then sort_routes routes order else routes)) \<and>
       distinct_adj (map route_key (sr_routes sub))
   | Inl (NotOrdered d) \<Rightarrow>
       needs_sorting \<and> d \<in> cv_directive ` set routes \<and> directive_position d order = usize_max
   | Inl (NotRoute d) \<Rightarrow> \<exists>v \<in> set routes. cv_directive v = d \<and> (\<exists>j. cv_value v = JsonValue j)"
proof -
  define rs where "rs = (if needs_sorting then sort_routes routes order else routes)"
  let ?find = "if needs_sorting then find (\<lambda>v. directive_position (cv_directive v) order = usize_max) routes else None"
  obtain names c where nc: "group_names_loop rs [''handle'', ''rewrite'', ''root''] [] counter = (names, c)" by fastforce
  have "mset rs = mset routes"
  proof -
    have "mset (sort_routes routes order) = image_mset snd (mset (List.enumerate 0 routes))" by (simp add: sort_routes_def)
    also have "\<dots> = mset routes" by (metis map_snd_enumerate mset_map)
    finally show ?thesis by (simp add: rs_def)
  qed
  then have set: "set rs = set routes" by (rule mset_eq_setD)
  show ?thesis
  proof (cases ?find)
    case (Some v)
    then show ?thesis by (auto simp: build_subroute_def find_Some_iff split: if_splits)
  next
    case None
    have build: "build_subroute routes counter needs_sorting order =
      (case collect_routes names rs [] of Inl e \<Rightarrow> Inl e
       | Inr out \<Rightarrow> Inr (\<lparr>sr_routes = consolidate_routes out, sr_errors = []\<rparr>, c))"
      by (simp only: build_subroute_def None rs_def [symmetric] nc Let_def prod.case option.case)
    show ?thesis unfolding build rs_def [symmetric]
      using collect_routes_result [where names = names and rs = rs and out = "[]"] set
      by (cases "collect_routes names rs []") ((auto simp: consolidate_handlers consolidate_keys)[1], blast?)+
  qed
qed

end
