(* ===== verification/Caddy_Path.thy ===== *)
theory Caddy_Path
  imports Site Glob
begin

text \<open>
  Request paths on the host side of compiled Caddy configurations, \<open>src/src/helpers/caddy.rs\<close>:
  percent decoding, cleaning, the path matcher with its one-entry cache, and the rewriting of
  paths.  A \<open>char\<close> of Rust is the list of its UTF-8 bytes; slicing a string inside a character
  panics.  The expansion of placeholders and regular expressions are parameters.
\<close>

subsection \<open>Characters and replacement in strings\<close>

text \<open>The character at the front of a UTF-8 string, and the character of a Latin-1 code.\<close>

definition char_len :: "char \<Rightarrow> nat" where
  "char_len c =
     (let b = byte_val c in if b < 128 then 1 else if b < 224 then 2 else if b < 240 then 3 else 4)"

definition first_char :: "string \<Rightarrow> string" where
  "first_char s = (case s of [] \<Rightarrow> [] | c # _ \<Rightarrow> take (char_len c) s)"

definition latin1 :: "char \<Rightarrow> string" where
  "latin1 c =
     (let b = byte_val c in if b < 128 then [c] else [char_of (192 + b div 64), char_of (128 + b mod 64)])"

function str_chars :: "string \<Rightarrow> string list" where
  "str_chars s = (if s = [] then [] else first_char s # str_chars (drop (char_len (hd s)) s))"
  by pat_completeness auto
termination
  by (relation "measure length") (auto simp: char_len_def Let_def)

declare str_chars.simps [simp del]

text \<open>\<open>str::replace\<close> and \<open>str::replacen\<close> with a pattern that is not empty.\<close>

function str_replacen :: "nat option \<Rightarrow> string \<Rightarrow> string \<Rightarrow> string \<Rightarrow> string" where
  "str_replacen limit pat new s =
     (if pat = [] \<or> limit = Some 0 then s
      else case find_sub pat s of
             None \<Rightarrow> s
           | Some i \<Rightarrow> take i s @ new @ str_replacen (map_option (\<lambda>n. n - 1) limit) pat new (drop (i + length pat) s))"
  by pat_completeness auto
termination
proof (relation "measure (\<lambda>(_, _, _, s). length s)", goal_cases)
  case (2 limit pat new s i)
  then show ?case using find_sub_SomeD [of pat s i] by (cases pat; cases s) auto
qed simp

declare str_replacen.simps [simp del]

subsection \<open>Percent decoding\<close>

definition hex_value :: "char \<Rightarrow> nat option" where
  "hex_value ch =
     (let b = byte_val ch
      in if 48 \<le> b \<and> b \<le> 57 then Some (b - 48)
         else if 97 \<le> b \<and> b \<le> 102 then Some (b - 97 + 10)
         else if 65 \<le> b \<and> b \<le> 70 then Some (b - 65 + 10)
         else None)"

definition caddy_percent_decode_triplet :: "string \<Rightarrow> char option" where
  "caddy_percent_decode_triplet input =
     (case input of
        [p, h, l] \<Rightarrow>
          if p \<noteq> CHR ''%'' then None
          else do { hi \<leftarrow> hex_value h; lo \<leftarrow> hex_value l; Some (char_of (hi * 16 + lo)) }
      | _ \<Rightarrow> None)"

fun decode_bytes :: "string \<Rightarrow> string option" where
  "decode_bytes [] = Some []"
| "decode_bytes (c # cs) =
     (if c = CHR ''%'' then
        (case cs of
           h # l # rest \<Rightarrow>
             do { b \<leftarrow> caddy_percent_decode_triplet [c, h, l]; out \<leftarrow> decode_bytes rest; Some (b # out) }
         | _ \<Rightarrow> None)
      else map_option ((#) c) (decode_bytes cs))"

definition caddy_percent_decode_path :: "string \<Rightarrow> string option" where
  "caddy_percent_decode_path input = Option.bind (decode_bytes input) from_utf8"

subsection \<open>Cleaning\<close>

fun clean_parts :: "string list \<Rightarrow> string list \<Rightarrow> string list" where
  "clean_parts [] parts = parts"
| "clean_parts (p # ps) parts =
     (if p = [] \<or> p = ''.'' then clean_parts ps parts
      else if p = ''..'' then clean_parts ps (butlast parts)
      else clean_parts ps (parts @ [p]))"

definition clean_path_preserve_trailing :: "string \<Rightarrow> string" where
  "clean_path_preserve_trailing path =
     (let trailing_slash = ends_with path ''/'';
          absolute = starts_with path ''/'';
          parts = clean_parts (split_on (CHR ''/'') path) [];
          out = (if absolute then ''/'' else []) @ join_with ''/'' parts;
          out = (if out = [] then ''.'' else out);
          out = (if absolute \<and> out = ''.'' then ''/'' else out)
      in if out \<noteq> ''/'' \<and> trailing_slash then out @ ''/'' else out)"

text \<open>The character U+10FFFF, put between adjacent slashes.\<close>

definition TMP :: string where
  "TMP = [CHR 0xF4, CHR 0x8F, CHR 0xBF, CHR 0xBF]"

fun separate_slashes :: "bool \<Rightarrow> string \<Rightarrow> string" where
  "separate_slashes previous_slash [] = []"
| "separate_slashes previous_slash (c # cs) =
     (if c = CHR ''/'' \<and> previous_slash then TMP else []) @ c # separate_slashes (c = CHR ''/'') cs"

definition clean_path_preserving_double_slashes :: "string \<Rightarrow> string" where
  "clean_path_preserving_double_slashes path =
     str_replacen None TMP [] (clean_path_preserve_trailing (separate_slashes False path))"

definition clean_path_caddy :: "string \<Rightarrow> bool \<Rightarrow> string" where
  "clean_path_caddy path collapse_slashes =
     (if \<not> collapse_slashes then clean_path_preserving_double_slashes path
      else clean_path_preserve_trailing path)"

definition caddy_path_needs_decode_or_clean :: "string \<Rightarrow> bool" where
  "caddy_path_needs_decode_or_clean path =
     (CHR ''%'' \<in> set path \<or> str_contains path ''//''
      \<or> list_ex (\<lambda>segment. segment = ''.'' \<or> segment = ''..'') (split_on (CHR ''/'') path))"

text \<open>The subject of a path regular expression; None is the error of the helper.\<close>

definition path_regexp_subject :: "string \<Rightarrow> string option" where
  "path_regexp_subject path =
     (if \<not> caddy_path_needs_decode_or_clean path then Some path
      else map_option (\<lambda>decoded. clean_path_caddy decoded True) (caddy_percent_decode_path path))"

subsection \<open>The path matcher\<close>

text \<open>The cache of the last subject: its path and flag, and what decoding and cleaning gave.\<close>

type_synonym subject_cache = "((string \<times> bool) \<times> string option) option"

definition caddy_cleaned_path_subject :: "subject_cache \<Rightarrow> string \<Rightarrow> bool \<Rightarrow> string option \<times> subject_cache" where
  "caddy_cleaned_path_subject cache enc_path merge_slashes =
     (let compute =
        (let subject = map_option (\<lambda>decoded. clean_path_caddy (to_ascii_lowercase decoded) merge_slashes)
                         (caddy_percent_decode_path enc_path)
         in (subject, Some ((enc_path, merge_slashes), subject)))
      in case cache of
           None \<Rightarrow> compute
         | Some (key, subject) \<Rightarrow>
             if fst key = enc_path \<and> snd key = merge_slashes then (subject, cache) else compute)"

definition caddy_http_path_glob_match :: "string \<Rightarrow> string \<Rightarrow> bool" where
  "caddy_http_path_glob_match pattern v =
     (let pattern_parts = split_on (CHR ''/'') pattern; value_parts = split_on (CHR ''/'') v
      in length pattern_parts = length value_parts
         \<and> list_all (\<lambda>(p, x). glob_match p x) (zip pattern_parts value_parts))"

definition caddy_match_cleaned_path :: "string \<Rightarrow> string \<Rightarrow> bool" where
  "caddy_match_cleaned_path path pattern =
     (let star_count = count_list pattern (CHR ''*'')
      in if star_count = 2 \<and> starts_with pattern ''*'' \<and> ends_with pattern ''*'' then
           (let inner = butlast (tl pattern) in inner = [] \<or> str_contains path inner)
         else if star_count = 1 \<and> starts_with pattern ''*'' then ends_with path (tl pattern)
         else if star_count = 1 \<and> ends_with pattern ''*'' then starts_with path (butlast pattern)
         else caddy_http_path_glob_match pattern path)"

text \<open>A slice that panics, a path that cannot match, or a value.\<close>

datatype 'a sliced = Panics | NoMatch | Sliced 'a

definition find_byte :: "char \<Rightarrow> string \<Rightarrow> nat option" where
  "find_byte c s = find_sub [c] s"

definition caddy_escaped_path_wildcard ::
  "string \<Rightarrow> string \<Rightarrow> string \<Rightarrow> nat \<Rightarrow> nat \<Rightarrow> bool \<Rightarrow> (string \<times> nat) sliced" where
  "caddy_escaped_path_wildcard escaped_path pattern out path_idx pattern_idx decode =
     (if \<not> is_char_boundary escaped_path path_idx then Panics
      else
        (let remaining = drop path_idx escaped_path;
             until = (if pattern_idx < length pattern - 1 then find_byte (pattern ! (pattern_idx + 1)) remaining
                      else Some (length remaining))
         in case until of
              None \<Rightarrow> NoMatch
            | Some n \<Rightarrow>
                if n = 0 then Sliced (out, path_idx)
                else if \<not> is_char_boundary remaining n then Panics
                else
                  (case (if decode then caddy_percent_decode_path (take n remaining) else Some (take n remaining)) of
                     None \<Rightarrow> NoMatch
                   | Some piece \<Rightarrow> Sliced (out @ piece, path_idx + n))))"

text \<open>The loop of \<open>caddy_escaped_path_match_subject\<close>; \<open>pix\<close> and \<open>i\<close> are its two positions.\<close>

function escaped_subject_loop :: "string \<Rightarrow> string \<Rightarrow> string \<Rightarrow> nat \<Rightarrow> nat \<Rightarrow> string sliced" where
  "escaped_subject_loop path pat out pix i =
     (if \<not> (pix < length pat \<and> i < length path) then Sliced (to_ascii_lowercase out)
      else if \<not> is_char_boundary path i then Panics
      else
        (let escape = (path ! i = CHR ''%'' \<and> i + 2 < length path);
             triplet = take 3 (drop i path);
             plain = first_char (drop i path)
         in case (if escape then
                    map_option (\<lambda>b. (latin1 b, 1, to_ascii_lowercase triplet, i + 2)) (caddy_percent_decode_triplet triplet)
                  else Some (plain, length plain, [], i)) of
              None \<Rightarrow> NoMatch
            | Some (path_ch, path_ch_len, escaped_path_ch, i) \<Rightarrow>
                if pat ! pix = CHR ''%'' then
                  (if pix + 2 < length pat \<and> pat ! (pix + 1) \<noteq> CHR ''*'' then
                     escaped_subject_loop path pat (out @ escaped_path_ch) (pix + 3) (i + 1)
                   else
                     (case caddy_escaped_path_wildcard path pat out i (pix + 1) False of
                        Panics \<Rightarrow> Panics
                      | NoMatch \<Rightarrow> NoMatch
                      | Sliced (out, i) \<Rightarrow> escaped_subject_loop path pat out (pix + 2) i))
                else if pat ! pix = CHR ''*'' then
                  (case caddy_escaped_path_wildcard path pat out i pix True of
                     Panics \<Rightarrow> Panics
                   | NoMatch \<Rightarrow> NoMatch
                   | Sliced (out, i) \<Rightarrow> escaped_subject_loop path pat out (pix + 1) i)
                else escaped_subject_loop path pat (out @ path_ch) (pix + 1) (i + path_ch_len)))"
  by pat_completeness auto
termination
  by (relation "measure (\<lambda>(_, pat, _, pix, _). length pat - pix)") auto

declare escaped_subject_loop.simps [simp del]

definition caddy_escaped_path_match_subject :: "string \<Rightarrow> string \<Rightarrow> string sliced" where
  "caddy_escaped_path_match_subject escaped_path pattern = escaped_subject_loop escaped_path pattern [] 0 0"

definition caddy_match_path :: "subject_cache \<Rightarrow> string \<Rightarrow> string \<Rightarrow> bool sliced \<times> subject_cache" where
  "caddy_match_path cache enc_path pattern =
     (if pattern = ''*'' then (Sliced True, cache)
      else
        (let merge_slashes = (\<not> str_contains pattern ''//'')
         in if CHR ''%'' \<in> set pattern then
              (case caddy_escaped_path_match_subject (clean_path_caddy enc_path merge_slashes) pattern of
                 Panics \<Rightarrow> (Panics, cache)
               | NoMatch \<Rightarrow> (Sliced False, cache)
               | Sliced hybrid_path \<Rightarrow>
                   (Sliced (caddy_http_path_glob_match (str_replacen None ''%*'' ''*'' pattern) hybrid_path), cache))
            else
              (case caddy_cleaned_path_subject cache enc_path merge_slashes of
                 (None, cache) \<Rightarrow> (Sliced False, cache)
               | (Some cleaned_path, cache) \<Rightarrow> (Sliced (caddy_match_cleaned_path cleaned_path pattern), cache))))"

text \<open>The helper: the pattern is expanded if it has a placeholder; NoMatch stands for an error of the
  expansion, which the script sees as an error.\<close>

definition caddy_path_pattern_match ::
  "(string \<Rightarrow> string option) \<Rightarrow> subject_cache \<Rightarrow> string \<Rightarrow> string \<Rightarrow> bool sliced \<times> subject_cache" where
  "caddy_path_pattern_match expand cache path pattern =
     (let pattern = to_ascii_lowercase pattern
      in case (if CHR ''{'' \<in> set pattern then expand pattern else Some pattern) of
           None \<Rightarrow> (NoMatch, cache)
         | Some pattern \<Rightarrow> caddy_match_path cache (to_ascii_lowercase path) pattern)"

fun path_match_multi ::
  "(string \<Rightarrow> string option) \<Rightarrow> subject_cache \<Rightarrow> string \<Rightarrow> string list \<Rightarrow> bool sliced \<times> subject_cache" where
  "path_match_multi expand cache path [] = (Sliced False, cache)"
| "path_match_multi expand cache path (p # ps) =
     (case caddy_path_pattern_match expand cache path p of
        (Sliced False, cache) \<Rightarrow> path_match_multi expand cache path ps
      | (r, cache) \<Rightarrow> (r, cache))"

definition h_caddy_path_match_multi ::
  "(string \<Rightarrow> string option) \<Rightarrow> subject_cache \<Rightarrow> string \<Rightarrow> string \<Rightarrow> bool sliced \<times> subject_cache" where
  "h_caddy_path_match_multi expand cache path patterns =
     path_match_multi expand cache path (split_on (CHR 0x00) patterns)"

subsection \<open>Lemmas\<close>

lemma hex_value_hex_val: "hex_value c = hex_val c"
  by (auto simp: hex_value_def hex_val_def Let_def)

lemma triplet_escape:
  "caddy_percent_decode_triplet [CHR ''%'', h, l] =
     do { hi \<leftarrow> hex_val h; lo \<leftarrow> hex_val l; Some (char_of (hi * 16 + lo)) }"
  by (simp add: caddy_percent_decode_triplet_def hex_value_hex_val)

lemma hex_val_slash: "hex_val (CHR ''/'') = None"
  by (simp add: hex_val_def byte_val_def)

lemma decode_bytes_literal: "c \<noteq> CHR ''%'' \<Longrightarrow> decode_bytes (c # cs) = map_option ((#) c) (decode_bytes cs)"
  by simp

lemma decode_bytes_escape:
  "decode_bytes (CHR ''%'' # h # l # rest) =
     do { b \<leftarrow> caddy_percent_decode_triplet [CHR ''%'', h, l]; out \<leftarrow> decode_bytes rest; Some (b # out) }"
  by simp

lemma decode_bytes_short: "length cs < 2 \<Longrightarrow> decode_bytes (CHR ''%'' # cs) = None"
  by (cases cs rule: remdups_adj.cases) auto

declare decode_bytes.simps(2) [simp del]

lemmas decode_bytes_steps = decode_bytes_literal decode_bytes_escape decode_bytes_short

text \<open>This decoder is the stricter one: where it succeeds, the decoder of the site agrees.\<close>

lemma decode_bytes_percent_decode: "decode_bytes s = Some d \<Longrightarrow> percent_decode s = Some d"
proof (induction s arbitrary: d rule: length_induct)
  case (1 s)
  show ?case
  proof (cases s rule: percent_decode_cases)
    case Nil
    with 1 show ?thesis by simp
  next
    case (escape h l rest)
    with 1 show ?thesis
      by (auto simp: decode_bytes_escape percent_decode_escape triplet_escape split: Option.bind_splits)
  next
    case (literal c cs)
    with 1 show ?thesis
      by (cases "c = CHR ''%''") (auto simp: decode_bytes_short decode_bytes_literal percent_decode_literal)
  qed
qed

lemma decode_bytes_plain: "CHR ''%'' \<notin> set s \<Longrightarrow> decode_bytes s = Some s"
  by (induction s) (auto simp: decode_bytes_literal)

text \<open>A slash ends every escape, so decoding works segment by segment.\<close>

lemma decode_bytes_slash:
  "decode_bytes (a @ CHR ''/'' # b) =
     do { x \<leftarrow> decode_bytes a; y \<leftarrow> decode_bytes b; Some (x @ CHR ''/'' # y) }"
proof (induction a rule: length_induct)
  case (1 a)
  show ?case
  proof (cases a rule: percent_decode_cases)
    case Nil
    then show ?thesis by (cases "decode_bytes b") (simp_all add: decode_bytes_literal)
  next
    case (escape h l rest)
    with 1 show ?thesis
      by (auto simp: decode_bytes_escape triplet_escape split: Option.bind_splits)
  next
    case (literal c cs)
    show ?thesis
    proof (cases "c = CHR ''%''")
      case True
      then show ?thesis using literal
        by (cases cs; cases b) (auto simp: decode_bytes_steps triplet_escape hex_val_slash decode_bytes_short split: Option.bind_splits)
    next
      case False
      with 1 literal show ?thesis by (auto simp: decode_bytes_literal split: Option.bind_splits)
    qed
  qed
qed

lemma decode_bytes_join:
  "decode_bytes (join_with ''/'' rs) \<noteq> None \<Longrightarrow> list_all2 segment_pair rs ds \<Longrightarrow>
   decode_bytes (join_with ''/'' rs) = Some (join_with ''/'' ds)"
proof (induction rs arbitrary: ds)
  case step: (Cons r rs)
  obtain d ds' where ds: "ds = d # ds'" and "segment_pair r d" and rest: "list_all2 segment_pair rs ds'"
    using step.prems(2) by (auto simp: list_all2_Cons1)
  then have one: "decode_bytes r = Some d" if "decode_bytes r \<noteq> None"
    using that decode_bytes_percent_decode by (fastforce simp: segment_pair_def)
  show ?case
  proof (cases rs)
    case Nil
    then show ?thesis using step.prems one rest ds by simp
  next
    case (Cons r' rs')
    then obtain d' ds'' where ds': "ds' = d' # ds''" using rest by (auto simp: list_all2_Cons1)
    have "decode_bytes r \<noteq> None" "decode_bytes (join_with ''/'' rs) \<noteq> None"
      using step.prems(1) Cons by (auto simp: decode_bytes_slash split: Option.bind_splits)
    then show ?thesis using step.IH [OF _ rest] one ds ds' Cons by (simp add: decode_bytes_slash)
  qed
qed simp

lemma utf8_valid_ConsE:
  assumes "utf8_valid (x # xs)"
  obtains (one) "x < 128" "utf8_valid xs"
  | (two) v r where "194 \<le> x" "x \<le> 223" "xs = v # r" "utf8_cont v" "utf8_valid r"
  | (three) v w r where "224 \<le> x" "x \<le> 239" "xs = v # w # r" "utf8_cont v" "utf8_cont w" "utf8_valid r"
      "x = 224 \<longrightarrow> 160 \<le> v" "x = 237 \<longrightarrow> v \<le> 159"
  | (four) v w u r where "240 \<le> x" "x \<le> 244" "xs = v # w # u # r" "utf8_cont v" "utf8_cont w" "utf8_cont u"
      "utf8_valid r" "x = 240 \<longrightarrow> 144 \<le> v" "x = 244 \<longrightarrow> v \<le> 143"
proof -
  note head = assms [unfolded utf8_valid.simps(2)]
  consider "x < 128" | "\<not> x < 128" "194 \<le> x \<and> x \<le> 223"
    | "\<not> x < 128" "\<not> (194 \<le> x \<and> x \<le> 223)" "224 \<le> x \<and> x \<le> 239"
    | "\<not> x < 128" "\<not> (194 \<le> x \<and> x \<le> 223)" "\<not> (224 \<le> x \<and> x \<le> 239)" "240 \<le> x \<and> x \<le> 244"
    | "\<not> x < 128" "\<not> (194 \<le> x \<and> x \<le> 223)" "\<not> (224 \<le> x \<and> x \<le> 239)" "\<not> (240 \<le> x \<and> x \<le> 244)"
    by blast
  then show thesis
  proof cases
    case 1
    then show ?thesis using one head by simp
  next
    case 2
    then show ?thesis using two head by (simp split: list.splits del: utf8_valid.simps)
  next
    case 3
    then show ?thesis using three head by (simp split: list.splits del: utf8_valid.simps)
  next
    case 4
    then show ?thesis using four head by (simp split: list.splits del: utf8_valid.simps)
  next
    case 5
    then show ?thesis using head by (simp only: if_False)
  qed
qed

lemma utf8_valid_append: "utf8_valid a \<Longrightarrow> utf8_valid (a @ b) = utf8_valid b"
proof (induction a rule: length_induct)
  case (1 a)
  show ?case
  proof (cases a)
    case (Cons x xs)
    from "1.prems" have "utf8_valid (x # xs)" by (simp only: Cons)
    then show ?thesis
      by (cases rule: utf8_valid_ConsE) (use 1 Cons in simp_all)
  qed simp
qed

lemma utf8_valid_join:
  "\<forall>d \<in> set ds. utf8_valid (map byte_val d) \<Longrightarrow> utf8_valid (map byte_val (join_with ''/'' ds))"
  by (induction "''/''" ds rule: join_with.induct) (auto simp: utf8_valid_append byte_val_def)

text \<open>Case does not change an escape, and no byte changes its kind.\<close>

lemma hex_val_lower: "hex_val (to_ascii_lowercase1 c) = hex_val c"
  by (auto simp: hex_val_def to_ascii_lowercase1_def byte_val_char_of Let_def)

lemma byte_val_lower1:
  "byte_val (to_ascii_lowercase1 c) = (if 65 \<le> byte_val c \<and> byte_val c \<le> 90 then byte_val c + 32 else byte_val c)"
  by (simp add: to_ascii_lowercase1_def byte_val_char_of)

lemma lower1_eq:
  "byte_val d < 65 \<or> 122 < byte_val d \<Longrightarrow> to_ascii_lowercase1 c = d \<longleftrightarrow> c = d"
  by (auto simp: byte_val_lower1 simp flip: byte_val_inject)

lemmas lower1_special =
  lower1_eq [of "CHR ''%''", simplified byte_val_def, simplified]
  lower1_eq [of "CHR ''/''", simplified byte_val_def, simplified]
  lower1_eq [of "CHR ''.''", simplified byte_val_def, simplified]

lemma set_lower:
  "byte_val d < 65 \<or> 122 < byte_val d \<Longrightarrow> d \<in> set (to_ascii_lowercase s) \<longleftrightarrow> d \<in> set s"
  unfolding to_ascii_lowercase_def set_map image_iff by (metis lower1_eq)

lemma starts_with_lower_slashes: "starts_with (to_ascii_lowercase s) ''//'' = starts_with s ''//''"
  by (cases s rule: remdups_adj.cases)
    (auto simp: starts_with_def to_ascii_lowercase_def lower1_special eq_commute [of "CHR ''/''"])

lemma contains_lower_slashes: "str_contains (to_ascii_lowercase s) ''//'' = str_contains s ''//''"
proof (induction s)
  case (Cons c s)
  then show ?case using starts_with_lower_slashes [of "c # s"]
    by (auto simp: str_contains_def to_ascii_lowercase_def)
qed (simp add: to_ascii_lowercase_def)

lemma lower1_percent: "to_ascii_lowercase1 (CHR ''%'') = CHR ''%''"
  by (simp add: to_ascii_lowercase1_def byte_val_def)

lemma utf8_valid_ascii_change:
  "utf8_valid a \<Longrightarrow> list_all2 (\<lambda>x y. x = y \<or> x < 128 \<and> y < 128) a b \<Longrightarrow> utf8_valid b"
proof (induction a arbitrary: b rule: length_induct)
  case (1 a)
  let ?R = "list_all2 (\<lambda>x y. x = y \<or> x < 128 \<and> y < 128)"
  have low: "utf8_cont v \<Longrightarrow> \<not> v < 128" for v by (simp add: utf8_cont_def)
  have IH: "length r < length a \<Longrightarrow> utf8_valid r \<Longrightarrow> ?R r r' \<Longrightarrow> utf8_valid r'" for r r' using 1 by blast
  show ?case
  proof (cases a)
    case (Cons x xs)
    then obtain y ys where b: "b = y # ys" and xy: "x = y \<or> x < 128 \<and> y < 128" and rest: "?R xs ys"
      using "1.prems"(2) by (auto simp: list_all2_Cons1)
    from "1.prems"(1) have "utf8_valid (x # xs)" by (simp only: Cons)
    then show ?thesis
    proof (cases rule: utf8_valid_ConsE)
      case one
      then show ?thesis using IH [OF _ _ rest] xy Cons b by auto
    next
      case (two v r)
      then obtain r' where "ys = v # r'" "?R r r'" using rest low [of v] by (auto simp: list_all2_Cons1)
      then show ?thesis using IH [of r r'] two xy Cons b by simp
    next
      case (three v w r)
      then obtain r' where "ys = v # w # r'" "?R r r'" using rest low [of v] low [of w] by (auto simp: list_all2_Cons1)
      then show ?thesis using IH [of r r'] three xy Cons b by simp
    next
      case (four v w u r)
      then obtain r' where "ys = v # w # u # r'" "?R r r'"
        using rest low [of v] low [of w] low [of u] by (auto simp: list_all2_Cons1)
      then show ?thesis using IH [of r r'] four xy Cons b by simp
    qed
  qed (use 1 in simp)
qed

lemma utf8_valid_lower: "utf8_valid (map byte_val (to_ascii_lowercase s)) = utf8_valid (map byte_val s)"
  by (rule iffI; erule utf8_valid_ascii_change)
    (auto simp: to_ascii_lowercase_def list_all2_conv_all_nth byte_val_lower1)

lemma decode_bytes_lower:
  "map_option to_ascii_lowercase (decode_bytes (to_ascii_lowercase s)) = map_option to_ascii_lowercase (decode_bytes s)"
proof (induction s rule: length_induct)
  case (1 s)
  show ?case
  proof (cases s rule: percent_decode_cases)
    case Nil
    then show ?thesis by (simp add: to_ascii_lowercase_def)
  next
    case (escape h l rest)
    then have "map_option to_ascii_lowercase (decode_bytes (to_ascii_lowercase rest)) =
      map_option to_ascii_lowercase (decode_bytes rest)" using 1 by simp
    with escape show ?thesis
      by (cases "hex_val h"; cases "hex_val l"; cases "decode_bytes rest")
        (auto simp: decode_bytes_escape triplet_escape to_ascii_lowercase_def lower1_special hex_val_lower
          lower1_percent)
  next
    case (literal c cs)
    then have "map_option to_ascii_lowercase (decode_bytes (to_ascii_lowercase cs)) =
      map_option to_ascii_lowercase (decode_bytes cs)" using 1 by simp
    with literal show ?thesis
      by (cases "c = CHR ''%''"; cases "decode_bytes cs")
        (auto simp: decode_bytes_short decode_bytes_literal to_ascii_lowercase_def lower1_special lower1_percent)
  qed
qed

lemma percent_decode_path_lower:
  "map_option to_ascii_lowercase (caddy_percent_decode_path (to_ascii_lowercase s)) =
   map_option to_ascii_lowercase (caddy_percent_decode_path s)"
proof (cases "decode_bytes s")
  case None
  then have "decode_bytes (to_ascii_lowercase s) = None" using decode_bytes_lower [of s] by simp
  with None show ?thesis by (simp add: caddy_percent_decode_path_def)
next
  case (Some d)
  then obtain e where e: "decode_bytes (to_ascii_lowercase s) = Some e"
    and low: "to_ascii_lowercase e = to_ascii_lowercase d"
    using decode_bytes_lower [of s] by auto
  have "utf8_valid (map byte_val e) = utf8_valid (map byte_val d)"
    using utf8_valid_lower [of e] utf8_valid_lower [of d] low by simp
  with Some e low show ?thesis by (simp add: caddy_percent_decode_path_def from_utf8_def)
qed

lemma clean_parts_plain:
  "\<forall>p \<in> set ps. p \<noteq> [] \<and> p \<noteq> ''.'' \<and> p \<noteq> ''..'' \<Longrightarrow> clean_parts ps acc = acc @ ps"
  by (induction ps arbitrary: acc) auto

lemma clean_parts_append: "clean_parts (ps @ qs) acc = clean_parts qs (clean_parts ps acc)"
  by (induction ps acc rule: clean_parts.induct) auto

text \<open>Cleaning changes nothing in a rooted path whose segments are plain.\<close>

lemma clean_plain_path:
  assumes plain: "\<forall>d \<in> set ds. d \<noteq> [] \<and> d \<noteq> ''.'' \<and> d \<noteq> ''..'' \<and> CHR ''/'' \<notin> set d"
  shows "clean_path_preserve_trailing (CHR ''/'' # join_with ''/'' ds) = CHR ''/'' # join_with ''/'' ds"
    and "ds \<noteq> [] \<Longrightarrow> clean_path_preserve_trailing (CHR ''/'' # join_with ''/'' ds @ ''/'') =
      CHR ''/'' # join_with ''/'' ds @ ''/''"
proof -
  have ends: "\<not> ends_with (CHR ''/'' # join_with ''/'' ds) ''/''" if "ds \<noteq> []"
  proof -
    obtain es d where ds: "ds = es @ [d]" using \<open>ds \<noteq> []\<close> by (cases ds rule: rev_cases) auto
    have "\<exists>u. join_with ''/'' ds = u @ d" unfolding ds by (induction "''/''" es rule: join_with.induct) (auto simp: join_with_Cons)
    moreover have "d \<noteq> []" "last d \<noteq> CHR ''/''" using plain ds by (auto dest: last_in_set)
    ultimately show ?thesis by (auto simp: ends_with_slash)
  qed
  have split: "split_on (CHR ''/'') (join_with ''/'' ds) = (if ds = [] then [[]] else ds)"
    using plain by (auto intro: split_join)
  then have parts: "clean_parts (split_on (CHR ''/'') (join_with ''/'' ds)) [] = ds"
    using plain clean_parts_plain [of ds "[]"] by auto
  have ne: "join_with ''/'' ds = [] \<longleftrightarrow> ds = []" using plain by (simp add: join_with_eq_Nil)
  show "clean_path_preserve_trailing (CHR ''/'' # join_with ''/'' ds) = CHR ''/'' # join_with ''/'' ds"
    using ends ne by (auto simp: clean_path_preserve_trailing_def parts starts_with_def)
  show "clean_path_preserve_trailing (CHR ''/'' # join_with ''/'' ds @ ''/'') = CHR ''/'' # join_with ''/'' ds @ ''/''"
    if "ds \<noteq> []"
    using that ne by (simp add: clean_path_preserve_trailing_def split_on_snoc clean_parts_append parts
      starts_with_def ends_with_def)
qed

subsection \<open>The cache of the path matcher\<close>

text \<open>The cache after a sequence of calls, whoever made them.\<close>

definition cache_after :: "(string \<times> bool) list \<Rightarrow> subject_cache" where
  "cache_after calls = fold (\<lambda>(p, m) cache. snd (caddy_cleaned_path_subject cache p m)) calls None"

definition path_subject :: "string \<Rightarrow> bool \<Rightarrow> string option" where
  "path_subject enc_path merge_slashes =
     map_option (\<lambda>decoded. clean_path_caddy (to_ascii_lowercase decoded) merge_slashes)
       (caddy_percent_decode_path enc_path)"

definition cache_ok :: "subject_cache \<Rightarrow> bool" where
  "cache_ok cache = (case cache of None \<Rightarrow> True | Some ((p, m), subject) \<Rightarrow> subject = path_subject p m)"

lemma cleaned_path_subject_ok:
  assumes "cache_ok cache"
  shows "fst (caddy_cleaned_path_subject cache p m) = path_subject p m"
    and "cache_ok (snd (caddy_cleaned_path_subject cache p m))"
  using assms
  by (auto simp: caddy_cleaned_path_subject_def cache_ok_def path_subject_def Let_def split: option.splits prod.splits)

lemma cache_after_ok: "cache_ok (cache_after calls)"
proof -
  have "cache_ok cache \<Longrightarrow> cache_ok (fold (\<lambda>(p, m) cache. snd (caddy_cleaned_path_subject cache p m)) calls cache)"
    for cache
    by (induction calls arbitrary: cache) (auto simp: cleaned_path_subject_ok)
  then show ?thesis by (simp add: cache_after_def cache_ok_def)
qed

lemma match_path_ok:
  assumes "cache_ok cache"
  shows "fst (caddy_match_path cache p pattern) = fst (caddy_match_path None p pattern)"
    and "cache_ok (snd (caddy_match_path cache p pattern))"
proof -
  let ?m = "\<not> str_contains pattern ''//''"
  obtain c where c: "caddy_cleaned_path_subject cache p ?m = (path_subject p ?m, c)" "cache_ok c"
    using cleaned_path_subject_ok [OF assms, of p ?m] by (metis prod.collapse)
  obtain n where n: "caddy_cleaned_path_subject None p ?m = (path_subject p ?m, n)"
    using cleaned_path_subject_ok(1) [of None p ?m] by (metis cache_ok_def option.simps(4) prod.collapse)
  show "fst (caddy_match_path cache p pattern) = fst (caddy_match_path None p pattern)"
    by (simp add: caddy_match_path_def c n Let_def split: sliced.split option.split)
  show "cache_ok (snd (caddy_match_path cache p pattern))"
    using assms c(2) by (simp add: caddy_match_path_def c(1) Let_def split: sliced.split option.split)
qed

lemma path_pattern_match_ok:
  assumes "cache_ok cache"
  shows "fst (caddy_path_pattern_match expand cache p pattern) = fst (caddy_path_pattern_match expand None p pattern)"
    and "cache_ok (snd (caddy_path_pattern_match expand cache p pattern))"
  using match_path_ok [OF assms] assms
  by (auto simp: caddy_path_pattern_match_def Let_def split: option.splits)

text \<open>What the matcher sees of a request the site serves.\<close>

lemma served_path_decoded:
  assumes np: "normalize_request_path raw = Some np"
    and esc: "decode_bytes (encoded_path_with_dir_hint np) \<noteq> None"
  obtains ds where "\<forall>d \<in> set ds. plain_segment d" and "relative np = join_with ''/'' ds"
    and "decode_bytes (encoded_path_with_dir_hint np) =
      Some (CHR ''/'' # relative np @ (if dir_hint np \<and> relative np \<noteq> [] then ''/'' else []))"
proof -
  obtain rs ds where p: "list_all2 segment_pair rs ds" and rel: "relative np = join_with ''/'' ds"
    and enc: "encoded_relative np = join_with ''/'' rs"
    using np by (rule normalize_request_pathD)
  note plain = segment_pairs_plain [OF p]
  have empty: "encoded_relative np = [] \<longleftrightarrow> rs = []" "relative np = [] \<longleftrightarrow> ds = []" "rs = [] \<longleftrightarrow> ds = []"
    using plain p by (auto simp: rel enc join_with_eq_Nil plain_segment_def)
  have "decode_bytes (encoded_path_with_dir_hint np) =
    Some (CHR ''/'' # relative np @ (if dir_hint np \<and> relative np \<noteq> [] then ''/'' else []))"
  proof (cases "rs = []")
    case True
    then show ?thesis using empty
      by (simp add: encoded_path_with_dir_hint_def encoded_path_def decode_bytes_literal)
  next
    case False
    have "decode_bytes (join_with ''/'' rs) \<noteq> None"
      using esc False empty
      by (auto simp: encoded_path_with_dir_hint_def encoded_path_def enc Let_def decode_bytes_slash
        decode_bytes_literal split: if_splits Option.bind_splits)
    then have "decode_bytes (join_with ''/'' rs) = Some (relative np)"
      unfolding rel using p by (rule decode_bytes_join)
    then show ?thesis using False empty
      by (simp add: encoded_path_with_dir_hint_def encoded_path_def enc Let_def decode_bytes_slash
        decode_bytes_literal)
  qed
  then show ?thesis using that plain(1) rel by blast
qed

lemma lower_append: "to_ascii_lowercase (a @ b) = to_ascii_lowercase a @ to_ascii_lowercase b"
  by (simp add: to_ascii_lowercase_def)

lemma lower_join: "to_ascii_lowercase (join_with ''/'' ds) = join_with ''/'' (map to_ascii_lowercase ds)"
  by (induction "''/''" ds rule: join_with.induct) (auto simp: to_ascii_lowercase_def to_ascii_lowercase1_def byte_val_def)

lemma lower_slash: "to_ascii_lowercase ''/'' = ''/''" "to_ascii_lowercase [] = []"
  "to_ascii_lowercase (CHR ''/'' # s) = CHR ''/'' # to_ascii_lowercase s"
  by (simp_all add: to_ascii_lowercase_def to_ascii_lowercase1_def byte_val_def)

lemma lower_plain:
  assumes "plain_segment d"
  shows "to_ascii_lowercase d \<noteq> [] \<and> to_ascii_lowercase d \<noteq> ''.'' \<and> to_ascii_lowercase d \<noteq> ''..'' \<and>
    CHR ''/'' \<notin> set (to_ascii_lowercase d)"
  using assms by (auto simp: plain_segment_def to_ascii_lowercase_def lower1_special map_eq_Cons_conv image_iff
    eq_commute [of "CHR ''/''"])

lemma path_subject_served:
  assumes "normalize_request_path raw = Some np" and "decode_bytes (encoded_path_with_dir_hint np) \<noteq> None"
  shows "path_subject (to_ascii_lowercase (encoded_path_with_dir_hint np)) True =
    Some (to_ascii_lowercase (CHR ''/'' # relative np @ (if dir_hint np \<and> relative np \<noteq> [] then ''/'' else [])))"
proof -
  let ?p = "encoded_path_with_dir_hint np"
  let ?t = "if dir_hint np \<and> relative np \<noteq> [] then ''/'' else []"
  obtain ds where ds: "\<forall>d \<in> set ds. plain_segment d" and rel: "relative np = join_with ''/'' ds"
    and dec: "decode_bytes ?p = Some (CHR ''/'' # relative np @ ?t)"
    using assms by (rule served_path_decoded)
  have "\<forall>d \<in> set ds. utf8_valid (map byte_val d)"
    using ds by (auto simp: plain_segment_def from_utf8_def split: if_splits)
  then have "utf8_valid (map byte_val (relative np))" unfolding rel by (rule utf8_valid_join)
  then have "utf8_valid (map byte_val (CHR ''/'' # relative np @ ?t))"
    by (simp add: utf8_valid_append byte_val_def)
  then have "caddy_percent_decode_path ?p = Some (CHR ''/'' # relative np @ ?t)"
    by (simp add: caddy_percent_decode_path_def dec from_utf8_def)
  then have low: "map_option to_ascii_lowercase (caddy_percent_decode_path (to_ascii_lowercase ?p)) =
      Some (to_ascii_lowercase (CHR ''/'' # relative np @ ?t))"
    by (simp add: percent_decode_path_lower)
  let ?ls = "map to_ascii_lowercase ds"
  have plain: "\<forall>d \<in> set ?ls. d \<noteq> [] \<and> d \<noteq> ''.'' \<and> d \<noteq> ''..'' \<and> CHR ''/'' \<notin> set d"
    using ds lower_plain by auto
  have ne: "relative np \<noteq> [] \<Longrightarrow> ?ls \<noteq> []" unfolding rel by auto
  have "clean_path_preserve_trailing (to_ascii_lowercase (CHR ''/'' # relative np @ ?t)) =
      to_ascii_lowercase (CHR ''/'' # relative np @ ?t)"
    using clean_plain_path(1) [OF plain] clean_plain_path(2) [OF plain ne]
    by (simp add: lower_append lower_slash rel lower_join)
  with low show ?thesis by (auto simp: path_subject_def clean_path_caddy_def)
qed


text \<open>A witness: mixed case, an escape, a dot segment and a doubled slash.\<close>

definition sample_served :: normalized_path where
  "sample_served = \<lparr>relative = ''Docs/a b'', encoded_relative = ''Docs/a%20b'', dir_hint = True\<rparr>"

lemma char_of_space: "char_of (32 :: nat) = CHR '' ''"
  by code_simp

lemma sample_normalized: "normalize_request_path ''//x/../Docs/./a%20b/'' = Some sample_served"
  by (simp add: normalize_request_path_def sample_served_def percent_decode_plain percent_decode_escape
    percent_decode_literal hex_val_def byte_val_def from_utf8_def utf8_cont_def Let_def ends_with_def
    char_of_space)

lemma sample_encoded:
  "encoded_path_with_dir_hint sample_served = ''/Docs/a%20b/''"
  "decode_bytes ''/Docs/a%20b/'' = Some ''/Docs/a b/''"
  by (simp_all add: encoded_path_with_dir_hint_def encoded_path_def sample_served_def decode_bytes_literal
    decode_bytes_escape triplet_escape hex_val_def byte_val_def char_of_space)

lemma sample_match:
  "caddy_match_cleaned_path (to_ascii_lowercase ''/Docs/a b/'') (to_ascii_lowercase ''/docs/A*'')"
  "\<not> str_contains ''/docs/A*'' ''//''" "relative sample_served = ''Docs/a b''" "dir_hint sample_served"
  by code_simp+



lemma broken_normalized:
  "map_option (\<lambda>np. (relative np, encoded_path_with_dir_hint np)) (normalize_request_path ''/secret/a%'') =
     Some (''secret/a%'', ''/secret/a%'')"
  by (simp add: normalize_request_path_def percent_decode_plain percent_decode_literal from_utf8_def
    encoded_path_with_dir_hint_def encoded_path_def byte_val_def Let_def ends_with_def)


lemma e_acute_normalized:
  "map_option encoded_path_with_dir_hint (normalize_request_path [CHR ''/'', CHR 0xC3, CHR 0xA9]) =
     Some [CHR ''/'', CHR 0xC3, CHR 0xA9]"
  by code_simp

lemma e_acute_panics:
  "clean_path_caddy (to_ascii_lowercase [CHR ''/'', CHR 0xC3, CHR 0xA9]) (\<not> str_contains (to_ascii_lowercase ''/%41b'') ''//'') =
     [CHR ''/'', CHR 0xC3, CHR 0xA9]"
  "caddy_escaped_path_match_subject [CHR ''/'', CHR 0xC3, CHR 0xA9] ''/%41b'' = Panics"
  "to_ascii_lowercase ''/%41b'' = ''/%41b''"
  by code_simp+


text \<open>The fast path of the regular expression helper gives what decoding and cleaning would.\<close>

lemma find_sub_occurs: "pat \<noteq> [] \<Longrightarrow> find_sub pat (a @ pat @ b) \<noteq> None"
proof (induction a)
  case Nil
  then show ?case by (cases pat) (auto simp: starts_with_def)
qed auto

lemma empty_segment_slashes:
  "vs \<noteq> [] \<Longrightarrow> \<exists>a b. CHR ''/'' # join_with ''/'' (us @ [] # vs) = a @ ''//'' @ b"
proof (induction us)
  case Nil
  then show ?case by (intro exI [of _ "[]"] exI [of _ "join_with ''/'' vs"]) (simp add: join_with_Cons)
next
  case (Cons u us)
  then obtain a b where "CHR ''/'' # join_with ''/'' (us @ [] # vs) = a @ ''//'' @ b" by blast
  then show ?case by (intro exI [of _ "CHR ''/'' # u @ a"] exI [of _ b]) (simp add: join_with_Cons)
qed

lemma clean_when_nothing_to_do:
  assumes "\<not> str_contains (CHR ''/'' # rest) ''//''"
    and dots: "\<forall>s \<in> set (split_on (CHR ''/'') rest). s \<noteq> ''.'' \<and> s \<noteq> ''..''"
  shows "clean_path_preserve_trailing (CHR ''/'' # rest) = CHR ''/'' # rest"
proof -
  define segs where "segs = split_on (CHR ''/'') rest"
  have rest: "rest = join_with ''/'' segs" by (simp add: segs_def)
  have noslash: "\<forall>s \<in> set segs. CHR ''/'' \<notin> set s" unfolding segs_def using split_on_parts by fast
  have inner: "us @ [] # vs = segs \<Longrightarrow> vs = []" for us vs
    using empty_segment_slashes [of vs us] assms(1) find_sub_occurs [of "''//''"]
    by (metis list.distinct(1) rest str_contains_def)
  obtain ds s where segs: "segs = ds @ [s]" unfolding segs_def by (metis rev_exhaust split_on_not_Nil)
  have ds: "\<forall>d \<in> set ds. d \<noteq> [] \<and> d \<noteq> ''.'' \<and> d \<noteq> ''..'' \<and> CHR ''/'' \<notin> set d"
  proof
    fix d assume "d \<in> set ds"
    then obtain us vs where "ds = us @ d # vs" by (metis split_list)
    then show "d \<noteq> [] \<and> d \<noteq> ''.'' \<and> d \<noteq> ''..'' \<and> CHR ''/'' \<notin> set d"
      using inner [of us "vs @ [s]"] dots noslash segs segs_def by auto
  qed
  show ?thesis
  proof (cases "s = []")
    case True
    then have "rest = join_with ''/'' ds @ (if ds = [] then [] else ''/'')"
      unfolding rest segs by (induction "''/''" ds rule: join_with.induct) (auto simp: join_with_Cons)
    then show ?thesis using clean_plain_path [OF ds] by (cases "ds = []") auto
  next
    case False
    then have "\<forall>d \<in> set segs. d \<noteq> [] \<and> d \<noteq> ''.'' \<and> d \<noteq> ''..'' \<and> CHR ''/'' \<notin> set d"
      using ds segs dots noslash segs_def by auto
    then show ?thesis unfolding rest by (rule clean_plain_path)
  qed
qed

lemma path_regexp_fast_path:
  assumes "from_utf8 path = Some path" and "starts_with path ''/''"
  shows "path_regexp_subject path =
    map_option (\<lambda>decoded. clean_path_caddy decoded True) (caddy_percent_decode_path path)"
proof (cases "caddy_path_needs_decode_or_clean path")
  case False
  obtain rest where path: "path = CHR ''/'' # rest" using assms(2) by (cases path) (auto simp: starts_with_def)
  have "caddy_percent_decode_path path = Some path"
    using False assms(1) by (simp add: caddy_path_needs_decode_or_clean_def caddy_percent_decode_path_def decode_bytes_plain)
  moreover have "clean_path_preserve_trailing path = path"
    unfolding path using False
    by (intro clean_when_nothing_to_do) (auto simp: caddy_path_needs_decode_or_clean_def path list_ex_iff)
  ultimately show ?thesis using False by (simp add: path_regexp_subject_def clean_path_caddy_def)
qed (simp add: path_regexp_subject_def)

end
