(* ===== verification/Caddy_Rewrite.thy ===== *)
theory Caddy_Rewrite
  imports Caddy_Path
begin

text \<open>
  The rewriting of request URIs by compiled Caddy configurations, \<open>src/src/helpers/caddy.rs\<close>:
  placeholders, URI templates, and the stripping and replacing of parts of the path.  The value
  of a placeholder is a function \<open>resolve\<close> of its key, which reads the request and the script's
  metadata; the setters of the request that store the new path and query are not modelled.
\<close>

subsection \<open>Placeholders\<close>

definition find_position :: "('a \<Rightarrow> bool) \<Rightarrow> 'a list \<Rightarrow> nat option" where
  "find_position P xs = (let n = length (takeWhile (\<lambda>x. \<not> P x) xs) in if n < length xs then Some n else None)"

definition str_slice :: "'a list \<Rightarrow> nat \<Rightarrow> nat \<Rightarrow> 'a list" where
  "str_slice xs i j = drop i (take j xs)"

lemma find_position_less: "find_position P xs = Some n \<Longrightarrow> n < length xs"
  by (simp add: find_position_def Let_def split: if_splits)

text \<open>The next closing brace that no backslash escapes.\<close>

function placeholder_end :: "string \<Rightarrow> nat \<Rightarrow> nat option" where
  "placeholder_end input end_cursor =
     (case find_position (\<lambda>b. b = CHR ''}'') (drop end_cursor input) of
        None \<Rightarrow> None
      | Some relative_end \<Rightarrow>
          (let fin = end_cursor + relative_end
           in if 0 < fin \<and> input ! (fin - 1) = CHR 0x5C then placeholder_end input (fin + 1) else Some fin))"
  by pat_completeness auto
termination
  by (relation "measure (\<lambda>(input, c). length input - c)") (auto dest: find_position_less)

declare placeholder_end.simps [simp del]

lemma placeholder_end_bounds: "placeholder_end input c = Some e \<Longrightarrow> c \<le> e \<and> e < length input"
proof (induction input c rule: placeholder_end.induct)
  case (1 input c)
  note step = 1(2) [unfolded placeholder_end.simps [of input c]]
  then obtain n where n: "find_position (\<lambda>b. b = CHR ''}'') (drop c input) = Some n" by (auto split: option.splits)
  show ?case
  proof (cases "0 < c + n \<and> input ! (c + n - 1) = CHR 0x5C")
    case True
    then show ?thesis using step 1(1) [OF n refl] n by (auto simp: Let_def)
  next
    case False
    then show ?thesis using step n find_position_less [OF n] by (auto simp: Let_def)
  qed
qed

function placeholder_loop ::
  "(string \<Rightarrow> string option) \<Rightarrow> bool \<Rightarrow> string \<Rightarrow> string \<Rightarrow> nat \<Rightarrow> nat \<Rightarrow> string" where
  "placeholder_loop resolve unknown_as_empty input out lst cursor =
     (case find_position (\<lambda>b. b = CHR ''{'' \<or> b = CHR ''}'') (drop cursor input) of
        None \<Rightarrow> out @ drop lst input
      | Some relative_start \<Rightarrow>
          (let start = cursor + relative_start
           in if 0 < start \<and> input ! (start - 1) = CHR 0x5C then
                placeholder_loop resolve unknown_as_empty input (out @ str_slice input lst (start - 1)) start (start + 1)
              else if input ! start \<noteq> CHR ''{'' then
                placeholder_loop resolve unknown_as_empty input out lst (start + 1)
              else
                (case placeholder_end input (start + 1) of
                   None \<Rightarrow> out @ drop lst input
                 | Some fin \<Rightarrow>
                     (case resolve (str_slice input (start + 1) fin) of
                        Some v \<Rightarrow>
                          placeholder_loop resolve unknown_as_empty input (out @ str_slice input lst start @ v) (fin + 1) (fin + 1)
                      | None \<Rightarrow>
                          if unknown_as_empty then
                            placeholder_loop resolve unknown_as_empty input (out @ str_slice input lst start) (fin + 1) (fin + 1)
                          else placeholder_loop resolve unknown_as_empty input out lst (start + 1)))))"
  by pat_completeness auto
termination
  by (relation "measure (\<lambda>(_, _, input, _, _, c). length input - c)")
    (auto dest!: find_position_less placeholder_end_bounds)

declare placeholder_loop.simps [simp del]

definition expand_caddy_placeholders_inner :: "(string \<Rightarrow> string option) \<Rightarrow> bool \<Rightarrow> string \<Rightarrow> string" where
  "expand_caddy_placeholders_inner resolve unknown_as_empty input = placeholder_loop resolve unknown_as_empty input [] 0 0"

definition expand_caddy_placeholders :: "(string \<Rightarrow> string option) \<Rightarrow> string \<Rightarrow> string" where
  "expand_caddy_placeholders resolve input = expand_caddy_placeholders_inner resolve True input"

subsection \<open>Escaping\<close>

definition unreserved :: "char \<Rightarrow> bool" where
  "unreserved c = (is_ascii_alphabetic c \<or> is_ascii_digit c \<or> c \<in> set ''-_.~'')"

definition upper_hex :: "nat \<Rightarrow> char" where
  "upper_hex n = ''0123456789ABCDEF'' ! n"

definition percent_escape :: "char \<Rightarrow> string" where
  "percent_escape c = [CHR ''%'', upper_hex (byte_val c div 16), upper_hex (byte_val c mod 16)]"

definition caddy_query_escape :: "string \<Rightarrow> string" where
  "caddy_query_escape v =
     concat (map (\<lambda>c. if unreserved c then [c] else if c = CHR '' '' then ''+'' else percent_escape c) v)"

definition caddy_path_escape_preserving_slashes :: "string \<Rightarrow> string" where
  "caddy_path_escape_preserving_slashes v =
     concat (map (\<lambda>c. if unreserved c then [c] else if c = CHR ''/'' then ''/'' else percent_escape c) v)"

definition slash_path_with_leading :: "string \<Rightarrow> string" where
  "slash_path_with_leading path =
     (let path = map (\<lambda>c. if c = CHR 0x5C then CHR ''/'' else c) path
      in if starts_with path ''/'' then path else ''/'' @ path)"

definition caddy_rewrite_path_file_relative_placeholder :: "string \<Rightarrow> string" where
  "caddy_rewrite_path_file_relative_placeholder rel =
     caddy_path_escape_preserving_slashes (slash_path_with_leading rel)"

definition escape_caddy_rewrite_path_placeholders :: "(string \<Rightarrow> string option) \<Rightarrow> string \<Rightarrow> string \<Rightarrow> string" where
  "escape_caddy_rewrite_path_placeholders resolve request_path path =
     (let path = (if str_contains path ''{http.request.uri.path}''
                  then str_replacen None ''{http.request.uri.path}'' request_path path else path)
      in if str_contains path ''{http.matchers.file.relative}'' then
           (case resolve ''http.matchers.file.relative'' of
              Some rel \<Rightarrow> str_replacen None ''{http.matchers.file.relative}''
                              (caddy_rewrite_path_file_relative_placeholder rel) path
            | None \<Rightarrow> path)
         else path)"

subsection \<open>URI templates\<close>

text \<open>One pass over the template; the four positions of the code are the accumulators.\<close>

fun template_positions ::
  "nat \<Rightarrow> string \<Rightarrow> nat option \<times> nat option \<times> nat option \<times> nat option \<Rightarrow>
   nat option \<times> nat option \<times> nat option \<times> nat option" where
  "template_positions idx [] acc = acc"
| "template_positions idx (ch # cs) (path_start, path_end, query_start, query_end) =
     (if ch = CHR ''?'' \<and> query_start = None then
        template_positions (idx + 1) cs (path_start, Some idx, Some (idx + 1), query_end)
      else if ch = CHR ''#'' then
        (if query_start = None then (path_start, Some idx, query_start, query_end)
         else (path_start, path_end, query_start, Some idx))
      else if path_start = None \<and> query_start = None then
        template_positions (idx + 1) cs (Some idx, path_end, query_start, query_end)
      else template_positions (idx + 1) cs (path_start, path_end, query_start, query_end))"

definition split_caddy_rewrite_uri_template :: "string \<Rightarrow> string option \<times> string option" where
  "split_caddy_rewrite_uri_template uri_template =
     (let (path_start, path_end, query_start, query_end) = template_positions 0 uri_template (None, None, None, None);
          path_end = (if path_start \<noteq> None \<and> path_end = None then Some (length uri_template) else path_end);
          query_end = (if query_start \<noteq> None \<and> query_end = None then Some (length uri_template) else query_end);
          path_template = (case (path_start, path_end) of
             (Some start, Some fin) \<Rightarrow> if start < fin then Some (str_slice uri_template start fin) else None
           | _ \<Rightarrow> None);
          query_template = (case (query_start, query_end) of
             (Some start, Some fin) \<Rightarrow> Some (str_slice uri_template start fin)
           | _ \<Rightarrow> None)
      in (path_template, query_template))"

text \<open>A component of a query template, \<open>rest\<close> what is left of it.\<close>

function expand_caddy_query_component ::
  "(string \<Rightarrow> string option) \<Rightarrow> string \<Rightarrow> bool \<Rightarrow> string \<Rightarrow> string" where
  "expand_caddy_query_component resolve request_query raw_query_placeholder rest =
     (case find_position (\<lambda>b. b = CHR ''{'') rest of
        None \<Rightarrow> rest
      | Some start \<Rightarrow>
          (case find_position (\<lambda>b. b = CHR ''}'') (drop (start + 1) rest) of
             None \<Rightarrow> rest
           | Some n \<Rightarrow>
               (let key = take n (drop (start + 1) rest)
                in take start rest
                   @ (if raw_query_placeholder \<and> key = ''http.request.uri.query'' then request_query
                      else case resolve key of Some v \<Rightarrow> caddy_query_escape v | None \<Rightarrow> [])
                   @ expand_caddy_query_component resolve request_query raw_query_placeholder
                       (drop (start + 1 + n + 1) rest))))"
  by pat_completeness auto
termination
  by (relation "measure (\<lambda>(_, _, _, rest). length rest)") (auto dest!: find_position_less)

declare expand_caddy_query_component.simps [simp del]

function build_query_loop ::
  "(string \<Rightarrow> string option) \<Rightarrow> string \<Rightarrow> string \<Rightarrow> bool \<Rightarrow> string \<Rightarrow> string" where
  "build_query_loop resolve request_query query wrote_value out =
     (if query = [] then out
      else
        (let next_eq = find_position (\<lambda>b. b = CHR ''='') query;
             next_amp = find_position (\<lambda>b. b = CHR ''&'') query;
             amp_is_next = (case (next_amp, next_eq) of
                              (Some amp, Some eq) \<Rightarrow> amp < eq
                            | (Some _, None) \<Rightarrow> True
                            | _ \<Rightarrow> False);
             fin = (if amp_is_next then the next_amp
                    else case next_eq of Some eq \<Rightarrow> eq | None \<Rightarrow> length query);
             component = expand_caddy_query_component resolve request_query wrote_value (take fin query);
             out = (if wrote_value then (if out \<noteq> [] \<and> component \<noteq> [] then out @ ''&'' else out) else out @ ''='')
         in build_query_loop resolve request_query (drop (fin + 1) query) amp_is_next (out @ component)))"
  by pat_completeness auto
termination
  by (relation "measure (\<lambda>(_, _, query, _, _). length query)") auto

declare build_query_loop.simps [simp del]

definition caddy_build_rewrite_query :: "(string \<Rightarrow> string option) \<Rightarrow> string \<Rightarrow> string \<Rightarrow> string" where
  "caddy_build_rewrite_query resolve request_query query = build_query_loop resolve request_query query True []"

text \<open>What a template does to the request: which setter it calls.\<close>

datatype uri_change = SetUri string | SetPath string | SetQuery string | Unchanged

definition apply_caddy_uri_template ::
  "(string \<Rightarrow> string option) \<Rightarrow> string \<Rightarrow> string \<Rightarrow> string \<Rightarrow> uri_change" where
  "apply_caddy_uri_template resolve request_path request_query uri_template =
     (let (path_template, query_template) = split_caddy_rewrite_uri_template uri_template;
          expanded = map_option (\<lambda>t. expand_caddy_placeholders resolve
                        (escape_caddy_rewrite_path_placeholders resolve request_path t)) path_template;
          (new_path, new_query) =
            (case expanded of
               None \<Rightarrow> (None, None)
             | Some e \<Rightarrow>
                 (case split_once (CHR ''?'') e of
                    Some (path, injected_query) \<Rightarrow>
                      (Some path,
                       if query_template = None \<or> query_template = Some [] then
                         Some (caddy_build_rewrite_query resolve request_query
                           (str_replacen None ''}'' ''%7D'' (str_replacen None ''{'' ''%7B'' injected_query)))
                       else None)
                  | None \<Rightarrow> (Some e, None)));
          new_query =
            (case query_template of
               Some q \<Rightarrow> if q \<noteq> [] \<or> new_query = None
                          then Some (caddy_build_rewrite_query resolve request_query q) else new_query
             | None \<Rightarrow> new_query)
      in case (new_path, new_query) of
           (Some path, Some query) \<Rightarrow> SetUri (if query = [] then path else path @ ''?'' @ query)
         | (Some path, None) \<Rightarrow> SetPath path
         | (None, Some query) \<Rightarrow> SetQuery query
         | (None, None) \<Rightarrow> Unchanged)"

subsection \<open>Stripping and replacing\<close>

record uri_substring =
  us_find :: string
  us_replace :: string
  us_limit :: int

record path_regexp =
  pr_find :: string
  pr_replace :: string

record CaddyUriRewriteOps =
  strip_path_prefix :: string
  strip_path_suffix :: string
  uri_substring :: "uri_substring list"
  path_regexp :: "path_regexp list"

text \<open>Between the characters, while the limit, if there is one, is not reached.\<close>

fun insert_between :: "int \<Rightarrow> string \<Rightarrow> int \<Rightarrow> string list \<Rightarrow> string" where
  "insert_between limit replace replacements [] = []"
| "insert_between limit replace replacements (ch # chs) =
     (if limit < 0 \<or> replacements < limit
      then ch @ replace @ insert_between limit replace (replacements + 1) chs
      else ch @ insert_between limit replace replacements chs)"

definition replace_with_limit :: "string \<Rightarrow> string \<Rightarrow> string \<Rightarrow> int \<Rightarrow> string" where
  "replace_with_limit v needle replace limit =
     (if needle = [] then
        (let limit = (if limit \<le> 0 then - 1 else limit)
         in if replace = [] then v else replace @ insert_between limit replace 1 (str_chars v))
      else if limit \<le> 0 then str_replacen None needle replace v
      else str_replacen (Some (nat limit)) needle replace v)"

text \<open>The loop over the characters of the prefix, \<open>rest\<close> the path from \<open>path_idx\<close> on.\<close>

fun trim_prefix_loop :: "string \<Rightarrow> string \<Rightarrow> string list \<Rightarrow> string" where
  "trim_prefix_loop path rest [] = rest"
| "trim_prefix_loop path rest (prefix_ch # prefix_chs) =
     (if rest = [] then path
      else if hd rest = CHR ''%'' \<and> prefix_ch \<noteq> ''%'' \<and> 2 < length rest then
        (case caddy_percent_decode_triplet (take 3 rest) of
           None \<Rightarrow> path
         | Some decoded \<Rightarrow>
             if \<not> eq_ignore_ascii_case (latin1 decoded) prefix_ch then path
             else trim_prefix_loop path (drop 3 rest) prefix_chs)
      else if \<not> eq_ignore_ascii_case (first_char rest) prefix_ch then path
      else trim_prefix_loop path (drop (length (first_char rest)) rest) prefix_chs)"

definition trim_path_prefix_caddy :: "string \<Rightarrow> string \<Rightarrow> string" where
  "trim_path_prefix_caddy path pre = trim_prefix_loop path path (str_chars pre)"

definition reverse_string :: "string \<Rightarrow> string" where
  "reverse_string v = concat (rev (str_chars v))"

definition apply_substring :: "(string \<Rightarrow> string option) \<Rightarrow> uri_substring \<Rightarrow> string \<times> string \<Rightarrow> string \<times> string" where
  "apply_substring resolve r pq =
     (if us_find r = [] then pq
      else
        (let merge_slashes = (\<not> str_contains (us_find r) ''//'');
             needle = expand_caddy_placeholders resolve (us_find r);
             replace = expand_caddy_placeholders resolve (us_replace r)
         in (replace_with_limit (clean_path_caddy (fst pq) merge_slashes) needle replace (us_limit r),
             replace_with_limit (snd pq) needle replace (us_limit r))))"

text \<open>\<open>regex\<close> compiles a pattern; None is a pattern it refuses, which is skipped.\<close>

definition apply_path_regexp ::
  "(string \<Rightarrow> (string \<Rightarrow> string \<Rightarrow> string) option) \<Rightarrow> (string \<Rightarrow> string option) \<Rightarrow> path_regexp \<Rightarrow> string \<Rightarrow> string" where
  "apply_path_regexp regex resolve r path =
     (if pr_find r = [] then path
      else case regex (pr_find r) of
             None \<Rightarrow> path
           | Some replace_all \<Rightarrow> replace_all path (expand_caddy_placeholders resolve (pr_replace r)))"

definition apply_caddy_uri_ops ::
  "(string \<Rightarrow> (string \<Rightarrow> string \<Rightarrow> string) option) \<Rightarrow> (string \<Rightarrow> string option) \<Rightarrow> CaddyUriRewriteOps \<Rightarrow>
   string \<times> string \<Rightarrow> string \<times> string" where
  "apply_caddy_uri_ops regex resolve ops pq =
     (let (path, query) = pq;
          path =
            (if strip_path_prefix ops = [] then path
             else
               (let pre = expand_caddy_placeholders resolve (strip_path_prefix ops);
                    pre = (if starts_with pre ''/'' then pre else ''/'' @ pre)
                in trim_path_prefix_caddy (clean_path_caddy path (\<not> str_contains pre ''//'')) pre));
          path =
            (if strip_path_suffix ops = [] then path
             else
               (let suf = expand_caddy_placeholders resolve (strip_path_suffix ops);
                    cleaned = clean_path_caddy path (\<not> str_contains suf ''//'')
                in reverse_string (trim_path_prefix_caddy (reverse_string cleaned) (reverse_string suf))));
          (path, query) = fold (apply_substring resolve) (uri_substring ops) (path, query);
          path = fold (apply_path_regexp regex resolve) (path_regexp ops) path
      in (path, query))"

subsection \<open>Expansion\<close>

text \<open>A template as literal text and placeholders, how it is written, and what it stands for.\<close>

datatype piece = Lit string | Hole string

fun write_piece :: "piece \<Rightarrow> string" where
  "write_piece (Lit s) = s"
| "write_piece (Hole k) = CHR ''{'' # k @ ''}''"

fun piece_value :: "(string \<Rightarrow> string option) \<Rightarrow> bool \<Rightarrow> piece \<Rightarrow> string" where
  "piece_value resolve unknown_as_empty (Lit s) = s"
| "piece_value resolve unknown_as_empty (Hole k) =
     (case resolve k of Some v \<Rightarrow> v | None \<Rightarrow> if unknown_as_empty then [] else CHR ''{'' # k @ ''}'')"

fun piece_text :: "piece \<Rightarrow> string" where
  "piece_text (Lit s) = s"
| "piece_text (Hole k) = k"

definition piece_ok :: "piece \<Rightarrow> bool" where
  "piece_ok p = (CHR ''{'' \<notin> set (piece_text p) \<and> CHR ''}'' \<notin> set (piece_text p) \<and>
     (piece_text p = [] \<or> last (piece_text p) \<noteq> CHR 0x5C))"

lemma find_position_skip:
  "\<forall>x \<in> set s. \<not> P x \<Longrightarrow> find_position P (s @ t) = map_option (\<lambda>n. length s + n) (find_position P t)"
  by (simp add: find_position_def Let_def takeWhile_append2)

lemma find_position_hit: "P x \<Longrightarrow> find_position P (x # t) = Some 0"
  by (simp add: find_position_def)

lemma find_position_at: "\<forall>x \<in> set s. \<not> P x \<Longrightarrow> P x \<Longrightarrow> find_position P (s @ x # t) = Some (length s)"
  by (simp add: find_position_skip find_position_hit)

lemma placeholder_loop_skip:
  assumes "CHR ''{'' \<notin> set s" "CHR ''}'' \<notin> set s"
  shows "placeholder_loop r u (pre @ s @ t) out lst (length pre) = placeholder_loop r u (pre @ s @ t) out lst (length pre + length s)"
proof -
  let ?P = "\<lambda>b. b = CHR ''{'' \<or> b = CHR ''}''"
  have "find_position ?P (s @ t) = map_option (\<lambda>n. length s + n) (find_position ?P t)"
    using assms by (intro find_position_skip) auto
  then show ?thesis
    unfolding placeholder_loop.simps [of r u _ out lst "length pre"] placeholder_loop.simps [of r u _ out lst "length pre + length s"]
    by (cases "find_position ?P t") (simp_all add: add.assoc)
qed

lemma placeholder_end_hole:
  assumes "CHR ''}'' \<notin> set k" and "k = [] \<or> last k \<noteq> CHR 0x5C"
  shows "placeholder_end (pre @ CHR ''{'' # k @ CHR ''}'' # t) (length pre + 1) = Some (length pre + 1 + length k)"
proof -
  have "find_position (\<lambda>b. b = CHR ''}'') (k @ CHR ''}'' # t) = Some (length k)"
    using assms by (intro find_position_at) auto
  moreover have "(pre @ CHR ''{'' # k @ CHR ''}'' # t) ! (length pre + length k) \<noteq> CHR 0x5C"
    using assms by (cases k rule: rev_cases) (auto simp: nth_append)
  ultimately show ?thesis unfolding placeholder_end.simps [of _ "length pre + 1"] by (simp add: Let_def)
qed

lemma placeholder_loop_hole:
  assumes "piece_ok (Hole k)" and "pre = [] \<or> last pre \<noteq> CHR 0x5C" and "lst \<le> length pre"
  shows "placeholder_loop r u (pre @ CHR ''{'' # k @ CHR ''}'' # t) out lst (length pre) =
    (let input = pre @ CHR ''{'' # k @ CHR ''}'' # t; n = length pre + length k + 2
     in if r k = None \<and> \<not> u then placeholder_loop r u input out lst n
        else placeholder_loop r u input (out @ drop lst pre @ piece_value r u (Hole k)) n n)"
proof -
  let ?P = "\<lambda>b. b = CHR ''{'' \<or> b = CHR ''}''" and ?in = "pre @ CHR ''{'' # k @ CHR ''}'' # t"
  have k: "CHR ''{'' \<notin> set k" "CHR ''}'' \<notin> set k" "k = [] \<or> last k \<noteq> CHR 0x5C"
    using assms(1) by (auto simp: piece_ok_def)
  have start: "find_position ?P (CHR ''{'' # k @ CHR ''}'' # t) = Some 0" by (rule find_position_hit) simp
  have esc: "0 < length pre \<Longrightarrow> ?in ! (length pre - 1) \<noteq> CHR 0x5C"
    using assms(2) by (cases pre rule: rev_cases) (auto simp: nth_append)
  note fin = placeholder_end_hole [OF k(2,3), of pre t]
  have key: "str_slice ?in (Suc (length pre)) (Suc (length pre + length k)) = k" "str_slice ?in lst (length pre) = drop lst pre"
    using assms(3) by (simp_all add: str_slice_def)
  have unknown: "placeholder_loop r u ?in out lst (length pre + 1) = placeholder_loop r u ?in out lst (length pre + length k + 2)"
  proof -
    have "find_position ?P (k @ CHR ''}'' # t) = Some (length k)" using k by (intro find_position_at) auto
    moreover have "?in ! (length pre + length k) \<noteq> CHR 0x5C"
      using k(3) by (cases k rule: rev_cases) (auto simp: nth_append)
    moreover have "?in ! (length pre + 1 + length k) = CHR ''}''" by (simp add: nth_append)
    ultimately show ?thesis unfolding placeholder_loop.simps [of r u ?in out lst "length pre + 1"]
      by (simp add: Let_def nth_append)
  qed
  show ?thesis
    unfolding placeholder_loop.simps [of r u ?in out lst "length pre"]
    using start esc fin key unknown by (auto simp: Let_def nth_append split: option.split)
qed

lemma placeholder_loop_pieces:
  "\<forall>p \<in> set ps. piece_ok p \<Longrightarrow> pre = [] \<or> last pre \<noteq> CHR 0x5C \<Longrightarrow> lst \<le> length pre \<Longrightarrow>
   placeholder_loop r u (pre @ concat (map write_piece ps)) out lst (length pre) =
   out @ drop lst pre @ concat (map (piece_value r u) ps)"
proof (induction ps arbitrary: pre out lst)
  case Nil
  then show ?case by (simp add: placeholder_loop.simps find_position_def)
next
  case (Cons p ps)
  let ?rest = "concat (map write_piece ps)"
  show ?case
  proof (cases p)
    case (Lit s)
    then have s: "CHR ''{'' \<notin> set s" "CHR ''}'' \<notin> set s" "s = [] \<or> last s \<noteq> CHR 0x5C"
      using Cons.prems(1) by (auto simp: piece_ok_def)
    have "pre @ s = [] \<or> last (pre @ s) \<noteq> CHR 0x5C" using s(3) Cons.prems(2) by (auto simp: last_append)
    then show ?thesis
      using Cons.IH [of "pre @ s" lst out] Cons.prems Lit placeholder_loop_skip [OF s(1,2), of r u pre ?rest out lst]
      by simp
  next
    case (Hole k)
    let ?pre = "pre @ CHR ''{'' # k @ ''}''"
    note IH = Cons.IH [of ?pre]
    show ?thesis
      using placeholder_loop_hole [of k pre lst r u ?rest out] Cons.prems Hole IH [of lst out]
        IH [of "length ?pre" "out @ drop lst pre @ piece_value r u (Hole k)"]
      by (auto simp: Let_def)
  qed
qed

text \<open>C20. 
  Placeholders are expanded in one pass: every placeholder is replaced by its value, or, if it
  is unknown, by nothing or by itself; text and values are copied as they are, and a brace in a
  value opens no further placeholder.
\<close>

theorem expand_template:
  assumes "\<forall>p \<in> set ps. piece_ok p"
  shows "expand_caddy_placeholders_inner resolve unknown_as_empty (concat (map write_piece ps)) =
    concat (map (piece_value resolve unknown_as_empty) ps)"
  using placeholder_loop_pieces [OF assms, of "[]" 0 resolve unknown_as_empty "[]"]
  by (simp add: expand_caddy_placeholders_inner_def)

theorem expand_template_witness:
  "expand_caddy_placeholders_inner (\<lambda>k. if k = ''p'' then Some ''{q}'' else None) False ''/a/{p}/{q}'' = ''/a/{q}/{q}''"
  using expand_template [of "[Lit ''/a/'', Hole ''p'', Lit ''/'', Hole ''q'']" "\<lambda>k. if k = ''p'' then Some ''{q}'' else None" False]
  by (simp add: piece_ok_def)

subsection \<open>Queries\<close>

text \<open>Escaped text has no character that means something in a query.\<close>

lemma upper_hex_safe: "n < 16 \<Longrightarrow> upper_hex n \<notin> set ''&=+#%/''"
proof -
  assume "n < 16"
  then have "upper_hex n \<in> set ''0123456789ABCDEF''" unfolding upper_hex_def by (intro nth_mem) simp
  then show ?thesis by auto
qed

lemma byte_nibbles: "byte_val c div 16 < 16" "byte_val c mod 16 < 16"
  using byte_val_less [of c] by (simp_all add: less_mult_imp_div_less)

lemma query_escape_safe: "set (caddy_query_escape v) \<inter> {CHR ''&'', CHR ''=''} = {}"
proof -
  have "unreserved (CHR ''&'') = False" "unreserved (CHR ''='') = False"
    by (simp_all add: unreserved_def is_ascii_alphabetic_def is_ascii_digit_def byte_val_def)
  moreover have "upper_hex (byte_val c div 16) \<notin> set ''&=+#%/''" "upper_hex (byte_val c mod 16) \<notin> set ''&=+#%/''" for c
    by (rule upper_hex_safe, rule byte_nibbles)+
  ultimately show ?thesis
    by (fastforce simp: caddy_query_escape_def percent_escape_def split: if_splits)
qed

lemma find_position_SomeD:
  assumes "find_position P xs = Some n"
  shows "xs = take n xs @ xs ! n # drop (Suc n) xs" and "P (xs ! n)" and "\<forall>x \<in> set (take n xs). \<not> P x"
proof -
  have n: "n = length (takeWhile (\<lambda>x. \<not> P x) xs)" "n < length xs"
    using assms by (auto simp: find_position_def Let_def split: if_splits)
  show "xs = take n xs @ xs ! n # drop (Suc n) xs" using n(2) by (rule id_take_nth_drop)
  show "P (xs ! n)" using n nth_length_takeWhile [of "\<lambda>x. \<not> P x" xs] by simp
  show "\<forall>x \<in> set (take n xs). \<not> P x" unfolding n(1) by (auto simp: takeWhile_eq_take [symmetric] dest: set_takeWhileD)
qed

lemma find_position_None: "find_position P xs = None \<longleftrightarrow> (\<forall>x \<in> set xs. \<not> P x)"
  by (induction xs) (auto simp: find_position_def Let_def split: if_splits)

lemma str_contains_iff: "pat \<noteq> [] \<Longrightarrow> str_contains s pat \<longleftrightarrow> (\<exists>a b. s = a @ pat @ b)"
  unfolding str_contains_def using find_sub_SomeD [of pat s] find_sub_occurs [of pat] by fastforce

lemma str_contains_infix: "pat \<noteq> [] \<Longrightarrow> str_contains t pat \<Longrightarrow> str_contains (a @ t @ b) pat"
  by (auto simp: str_contains_iff) (metis append.assoc)

lemma query_component_safe:
  assumes "x \<in> {CHR ''&'', CHR ''=''}" and "x \<notin> set s" and "\<not> str_contains s ''{http.request.uri.query}''"
  shows "x \<notin> set (expand_caddy_query_component r q raw s)"
  using assms(2,3)
proof (induction r q raw s rule: expand_caddy_query_component.induct)
  case (1 r q raw s)
  show ?case
  proof (cases "find_position (\<lambda>b. b = CHR ''{'') s")
    case None
    then show ?thesis using 1 by (simp add: expand_caddy_query_component.simps [of r q raw s])
  next
    case start: (Some i)
    note i = find_position_SomeD [OF start]
    show ?thesis
    proof (cases "find_position (\<lambda>b. b = CHR ''}'') (drop (i + 1) s)")
      case None
      then show ?thesis using 1 start by (simp add: expand_caddy_query_component.simps [of r q raw s])
    next
      case (Some n)
      note n = find_position_SomeD [OF Some]
      let ?key = "take n (drop (i + 1) s)" and ?rest = "drop (i + 1 + n + 1) s"
      have s: "s = (take i s @ CHR ''{'' # ?key @ ''}'') @ ?rest @ []"
        using i(1,2) n(1,2) by (simp add: add.commute add.left_commute)
      have key: "?key \<noteq> ''http.request.uri.query''"
      proof
        assume "?key = ''http.request.uri.query''"
        then have "s = take i s @ ''{http.request.uri.query}'' @ ?rest" using s by simp
        then show False using 1(3) by (metis list.distinct(1) str_contains_iff)
      qed
      have "\<not> str_contains ?rest ''{http.request.uri.query}''"
        using 1(3) str_contains_infix [of "''{http.request.uri.query}''" ?rest] s by (metis list.distinct(1))
      moreover have "x \<notin> set ?rest" "x \<notin> set (take i s)" using 1(2) by (meson in_set_dropD in_set_takeD)+
      ultimately have "x \<notin> set (expand_caddy_query_component r q raw ?rest)"
        using 1(1) [OF start Some refl] by simp
      then show ?thesis using start Some key \<open>x \<notin> set (take i s)\<close> query_escape_safe assms(1)
        by (auto simp: expand_caddy_query_component.simps [of r q raw s] Let_def split: option.split)
    qed
  qed
qed

text \<open>The separators a query template has left to give, and the one the next component may write.\<close>

definition next_component :: "string \<Rightarrow> bool \<times> nat" where
  "next_component query =
     (let next_eq = find_position (\<lambda>b. b = CHR ''='') query; next_amp = find_position (\<lambda>b. b = CHR ''&'') query;
          amp_is_next = (case (next_amp, next_eq) of (Some amp, Some eq) \<Rightarrow> amp < eq | (Some _, None) \<Rightarrow> True | _ \<Rightarrow> False)
      in (amp_is_next, if amp_is_next then the next_amp else case next_eq of Some eq \<Rightarrow> eq | None \<Rightarrow> length query))"

lemma build_query_loop_step:
  assumes "query \<noteq> []" and "next_component query = (amp, fin)"
  shows "build_query_loop r q query wrote out =
    (let component = expand_caddy_query_component r q wrote (take fin query);
         out = (if wrote then (if out \<noteq> [] \<and> component \<noteq> [] then out @ ''&'' else out) else out @ ''='')
     in build_query_loop r q (drop (fin + 1) query) amp (out @ component))"
  using assms unfolding build_query_loop.simps [of r q query] next_component_def
  by (auto simp: Let_def)

lemma next_component_parts:
  assumes "next_component query = (amp, fin)"
  shows "CHR ''&'' \<notin> set (take fin query) \<and> CHR ''='' \<notin> set (take fin query) \<and>
    (fin < length query \<longrightarrow> query ! fin = (if amp then CHR ''&'' else CHR ''=''))"
proof -
  let ?eq = "find_position (\<lambda>b. b = CHR ''='') query" and ?amp = "find_position (\<lambda>b. b = CHR ''&'') query"
  have le: "c \<notin> set (take n query) \<Longrightarrow> m \<le> n \<Longrightarrow> c \<notin> set (take m query)" for c m n
    using set_take_subset_set_take [of m n query] by blast
  have all: "c \<notin> set query \<Longrightarrow> c \<notin> set (take m query)" for c m by (meson in_set_takeD)
  have hit: "query ! n = c \<and> c \<notin> set (take n query)" if "find_position (\<lambda>b. b = c) query = Some n" for c n
    using find_position_SomeD(2,3) [OF that] by blast
  have miss: "c \<notin> set query" if "find_position (\<lambda>b. b = c) query = None" for c
    using that by (auto simp: find_position_None)
  show ?thesis
  proof (cases ?amp)
    case None
    then have "amp = False" "fin = (case ?eq of Some e \<Rightarrow> e | None \<Rightarrow> length query)"
      using assms by (auto simp: next_component_def Let_def)
    then show ?thesis using miss [OF None] all [OF miss [OF None]] miss [of "CHR ''=''"] hit [of "CHR ''=''"] by (cases ?eq) auto
  next
    case a: (Some a)
    show ?thesis
    proof (cases ?eq)
      case None
      then have "amp" "fin = a" using a assms by (auto simp: next_component_def Let_def)
      then show ?thesis using hit [OF a] all [OF miss [OF None]] by simp
    next
      case e: (Some e)
      then have "amp = (a < e)" "fin = (if a < e then a else e)" using a assms by (auto simp: next_component_def Let_def)
      then show ?thesis using hit [OF a] hit [OF e] le [of _ e a] le [of _ a e] by (cases "a < e") auto
    qed
  qed
qed

definition pending :: "char \<Rightarrow> string \<Rightarrow> bool \<Rightarrow> string \<Rightarrow> nat" where
  "pending x query wrote out =
     of_bool (query \<noteq> [] \<and> (if wrote then out \<noteq> [] \<and> x = CHR ''&'' else x = CHR ''=''))"

lemma build_query_loop_count:
  assumes "x \<in> {CHR ''&'', CHR ''=''}"
  shows "\<not> str_contains query ''{http.request.uri.query}'' \<Longrightarrow>
    count_list (build_query_loop r q query wrote out) x \<le>
      count_list out x + count_list query x + pending x query wrote out"
proof (induction query arbitrary: wrote out rule: length_induct)
  case (1 query)
  let ?raw = "''{http.request.uri.query}''"
  show ?case
  proof (cases "query = []")
    case True
    then show ?thesis by (simp add: build_query_loop.simps)
  next
    case False
    obtain amp fin where nc: "next_component query = (amp, fin)" by (cases "next_component query")
    note parts = next_component_parts [OF nc]
    define component where "component = expand_caddy_query_component r q wrote (take fin query)"
    define out' where "out' = (if wrote then (if out \<noteq> [] \<and> component \<noteq> [] then out @ ''&'' else out) else out @ ''='') @ component"
    let ?rest = "drop (fin + 1) query"
    have clean: "\<not> str_contains (take fin query) ?raw" "\<not> str_contains ?rest ?raw"
      using 1(2) str_contains_infix [of ?raw "take fin query" "[]" "drop fin query"]
        str_contains_infix [of ?raw ?rest "take (fin + 1) query" "[]"] by auto
    have "x \<notin> set component" unfolding component_def
      using assms parts clean(1) query_component_safe [of x "take fin query" r q wrote] by blast
    then have out': "count_list out' x \<le> count_list out x + pending x query wrote out"
      using False by (auto simp: out'_def pending_def)
    have sep: "pending x ?rest amp out' + count_list ?rest x \<le> count_list query x"
    proof (cases "fin < length query")
      case True
      have "query = take fin query @ query ! fin # ?rest" using id_take_nth_drop [OF True] by simp
      then have "count_list query x = count_list (take fin query) x + count_list (query ! fin # ?rest) x"
        by (metis count_list_append)
      then show ?thesis using parts True by (auto simp: pending_def)
    qed (simp add: pending_def)
    have "count_list (build_query_loop r q ?rest amp out') x \<le> count_list out' x + count_list ?rest x + pending x ?rest amp out'"
      using 1(1) clean(2) False by simp
    moreover have "build_query_loop r q query wrote out = build_query_loop r q ?rest amp out'"
      using build_query_loop_step [OF False nc] by (simp add: out'_def component_def Let_def)
    ultimately show ?thesis using out' sep by simp
  qed
qed


lemma sample_query:
  "\<not> str_contains ''a={x}&b=1'' ''{http.request.uri.query}''"
  "caddy_build_rewrite_query (\<lambda>_. Some ''1&admin=1'') ''q'' ''a={x}&b=1'' = ''a=1%26admin%3D1&b=1''"
  by code_simp+


subsection \<open>Stripping a prefix\<close>

definition ascii_char :: "char \<Rightarrow> bool" where
  "ascii_char c = (byte_val c < 128)"

lemma str_chars_ascii: "\<forall>c \<in> set s. ascii_char c \<Longrightarrow> str_chars s = map (\<lambda>c. [c]) s"
  by (induction s) (simp_all add: str_chars.simps first_char_def char_len_def ascii_char_def)

lemma eq_ignore_Cons:
  "eq_ignore_ascii_case (a # s) (b # t) \<longleftrightarrow> eq_ignore_ascii_case [a] [b] \<and> eq_ignore_ascii_case s t"
  "\<not> eq_ignore_ascii_case [] (b # t)" "eq_ignore_ascii_case [] []"
  by (auto simp: eq_ignore_ascii_case_def to_ascii_lowercase_def)

lemma trim_prefix_loop_decodes:
  assumes "decode_bytes rest = Some d" and "\<forall>c \<in> set pre. c \<noteq> CHR ''%''"
    and "\<forall>c \<in> set (take (length pre) d). ascii_char c"
  shows "if eq_ignore_ascii_case (take (length pre) d) pre
    then decode_bytes (trim_prefix_loop path rest (map (\<lambda>c. [c]) pre)) = Some (drop (length pre) d)
    else trim_prefix_loop path rest (map (\<lambda>c. [c]) pre) = path"
  using assms
proof (induction pre arbitrary: rest d)
  case Nil
  then show ?case by (simp add: eq_ignore_Cons)
next
  case (Cons c pre)
  consider "rest = []" | h l r b d' where "rest = CHR ''%'' # h # l # r" "d = b # d'"
      "caddy_percent_decode_triplet [CHR ''%'', h, l] = Some b" "decode_bytes r = Some d'"
    | x r d' where "rest = x # r" "x \<noteq> CHR ''%''" "d = x # d'" "decode_bytes r = Some d'"
  proof (cases rest rule: percent_decode_cases)
    case (escape h l r)
    then show ?thesis using Cons.prems(1) that(2) [of h l r]
      by (auto simp: decode_bytes_escape split: Option.bind_splits)
  next
    case (literal x r)
    then show ?thesis using Cons.prems(1) that(3) [of x r]
      by (cases "x = CHR ''%''") (auto simp: decode_bytes_short decode_bytes_literal)
  qed (use that in blast)
  then show ?case
  proof cases
    case 1
    then show ?thesis using Cons.prems(1) by (auto simp: eq_ignore_Cons)
  next
    case (2 h l r b d')
    then have "latin1 b = [b]" using Cons.prems(3) by (simp add: latin1_def ascii_char_def)
    then show ?thesis using 2 Cons.IH [of r d'] Cons.prems eq_ignore_Cons(1) [of b "take (length pre) d'" c pre] by simp
  next
    case (3 x r d')
    then have "first_char (x # r) = [x]" using Cons.prems(3) by (simp add: first_char_def char_len_def ascii_char_def)
    then show ?thesis using 3 Cons.IH [of r d'] Cons.prems eq_ignore_Cons(1) [of x "take (length pre) d'" c pre] by simp
  qed
qed

text \<open>
  A prefix is stripped from the decoded path, without regard to case: if the path that an
  escaped path stands for starts with it, what is left of the escaped path stands for the rest,
  and otherwise nothing is stripped.
\<close>

lemma strip_prefix_decoded:
  assumes "decode_bytes path = Some decoded" and "\<forall>c \<in> set pre. ascii_char c \<and> c \<noteq> CHR ''%''"
    and "\<forall>c \<in> set (take (length pre) decoded). ascii_char c"
  shows "if eq_ignore_ascii_case (take (length pre) decoded) pre
    then decode_bytes (trim_path_prefix_caddy path pre) = Some (drop (length pre) decoded)
    else trim_path_prefix_caddy path pre = path"
  using trim_prefix_loop_decodes [OF assms(1) _ assms(3), of path] assms(2) str_chars_ascii [of pre]
  by (simp add: trim_path_prefix_caddy_def)

subsection \<open>Escaping a path\<close>

lemma hex_val_upper_hex: "n < 16 \<Longrightarrow> hex_val (upper_hex n) = Some n"
proof -
  assume "n < 16"
  then have "n \<in> set [0..<16]" by simp
  moreover have "\<forall>n \<in> set [0..<16]. hex_val (upper_hex n) = Some n" by code_simp
  ultimately show ?thesis by blast
qed

lemma decode_bytes_percent_escape:
  "decode_bytes (percent_escape c @ s) = map_option ((#) c) (decode_bytes s)"
  by (simp add: percent_escape_def decode_bytes_escape triplet_escape hex_val_upper_hex byte_nibbles map_option_case
    split: option.split)

lemma path_escape_roundtrip: "decode_bytes (caddy_path_escape_preserving_slashes v) = Some v"
proof (induction v)
  case (Cons c v)
  have "\<not> unreserved (CHR ''%'')"
    by (simp add: unreserved_def is_ascii_alphabetic_def is_ascii_digit_def byte_val_def)
  then have "unreserved c \<Longrightarrow> c \<noteq> CHR ''%''" by blast
  then show ?case using Cons
    by (auto simp: caddy_path_escape_preserving_slashes_def decode_bytes_literal decode_bytes_percent_escape)
qed (simp add: caddy_path_escape_preserving_slashes_def)

lemma path_escape_Nil: "caddy_path_escape_preserving_slashes [] = []"
  by (simp add: caddy_path_escape_preserving_slashes_def)

lemma path_escape_join:
  "caddy_path_escape_preserving_slashes (join_with ''/'' ds) = join_with ''/'' (map caddy_path_escape_preserving_slashes ds)"
proof -
  have "\<not> unreserved (CHR ''/'')"
    by (simp add: unreserved_def is_ascii_alphabetic_def is_ascii_digit_def byte_val_def)
  then show ?thesis
    by (induction "''/''" ds rule: join_with.induct) (simp_all add: caddy_path_escape_preserving_slashes_def)
qed

lemma path_escape_segment:
  assumes "plain_segment d"
  shows "segment_pair (caddy_path_escape_preserving_slashes d) d"
proof -
  let ?e = "caddy_path_escape_preserving_slashes d"
  have "percent_decode ?e = Some d" by (rule decode_bytes_percent_decode [OF path_escape_roundtrip])
  moreover have "CHR ''/'' \<notin> set (percent_escape c)" for c
    using upper_hex_safe [OF byte_nibbles(1), of c] upper_hex_safe [OF byte_nibbles(2), of c]
    by (auto simp: percent_escape_def)
  then have "CHR ''/'' \<notin> set ?e" using assms
    by (auto simp: caddy_path_escape_preserving_slashes_def plain_segment_def split: if_splits)
  moreover have "?e \<noteq> []" using path_escape_roundtrip [of d] assms by (auto simp: plain_segment_def)
  ultimately show ?thesis using assms by (simp add: segment_pair_def)
qed



subsection \<open>Splitting a template\<close>

lemma template_positions_path:
  "CHR ''?'' \<notin> set p \<Longrightarrow> CHR ''#'' \<notin> set p \<Longrightarrow>
   template_positions idx (p @ t) (ps, pe, None, qe) =
   template_positions (idx + length p) t (if p = [] \<or> ps \<noteq> None then ps else Some idx, pe, None, qe)"
  by (induction p arbitrary: idx ps) auto

lemma template_positions_query:
  "CHR ''#'' \<notin> set q \<Longrightarrow>
   template_positions idx (q @ t) (ps, pe, Some n, qe) = template_positions (idx + length q) t (ps, pe, Some n, qe)"
  by (induction q arbitrary: idx) auto

text \<open>A template is split into its path and its query; a fragment is dropped.\<close>

lemma template_split:
  assumes "CHR ''?'' \<notin> set p" and "CHR ''#'' \<notin> set p" and "case q of None \<Rightarrow> True | Some q' \<Rightarrow> CHR ''#'' \<notin> set q'"
  shows "split_caddy_rewrite_uri_template
      (p @ (case q of None \<Rightarrow> [] | Some q' \<Rightarrow> CHR ''?'' # q') @ (case f of None \<Rightarrow> [] | Some f' \<Rightarrow> CHR ''#'' # f')) =
    (if p = [] then None else Some p, q)"
proof (cases q)
  case None
  then show ?thesis using template_positions_path [OF assms(1,2), of 0 _ None None None]
      template_positions_path [OF assms(1,2), of 0 "[]" None None None]
    by (cases f) (auto simp: split_caddy_rewrite_uri_template_def str_slice_def)
next
  case (Some q')
  then have "CHR ''#'' \<notin> set q'" using assms(3) by simp
  then show ?thesis
    using Some template_positions_path [OF assms(1,2), of 0 _ None None None]
      template_positions_query [of q' "length p + 1"]
      template_positions_query [of q' "length p + 1" "[]"]
    by (cases f) (auto simp: split_caddy_rewrite_uri_template_def str_slice_def)
qed

end
