(* ===== verification/Pool.thy ===== *)
theory Pool
  imports Rust_Text "HOL-Library.Multiset"
begin

text \<open>
  The pool of idle backend connections of a worker, \<open>src/src/pool.rs\<close>, and its use by the
  requests of the worker as a step relation.  A connection is a number with what the pool reads
  of it: its descriptor, if it is still open, and the bytes in its parse buffer.  What
  \<open>libc::poll\<close> returns for a descriptor, a result and event bits, is a parameter of each call.
\<close>

record pool_key =
  pk_host :: string
  pk_port :: u16
  pk_tls :: bool

definition PoolKey_new :: "string \<Rightarrow> u16 \<Rightarrow> bool \<Rightarrow> pool_key" where
  "PoolKey_new host port tls = \<lparr>pk_host = to_ascii_lowercase host, pk_port = port, pk_tls = tls\<rparr>"

definition PoolKey_unix :: "string \<Rightarrow> pool_key" where
  "PoolKey_unix path = \<lparr>pk_host = ''unix:'' @ path, pk_port = 0, pk_tls = False\<rparr>"

datatype transport = Http | Https | Unix

record pooled_connection =
  pc_id :: nat
  pc_transport :: transport
  pc_fd :: "nat option"
  pc_buffered :: nat

type_synonym poll_result = "nat \<Rightarrow> int \<times> nat"
type_synonym proxy_pool = "(pool_key, pooled_connection list) store"

definition MAX_POOL_PER_KEY :: nat where
  "MAX_POOL_PER_KEY = 128"

definition connection_still_idle :: "poll_result \<Rightarrow> pooled_connection \<Rightarrow> bool" where
  "connection_still_idle poll conn =
     (case pc_fd conn of
        None \<Rightarrow> False
      | Some fd \<Rightarrow>
          (let (ret, revents) = poll fd
           in if ret < 0 then False else ret = 0 \<and> revents = 0))"

text \<open>The loop that pops connections until one is idle, on the vector read from its end.\<close>

fun pop_idle :: "poll_result \<Rightarrow> pooled_connection list \<Rightarrow> pooled_connection option \<times> pooled_connection list" where
  "pop_idle poll [] = (None, [])"
| "pop_idle poll (c # cs) = (if connection_still_idle poll c then (Some c, cs) else pop_idle poll cs)"

definition pool_take :: "poll_result \<Rightarrow> pool_key \<Rightarrow> proxy_pool \<Rightarrow> pooled_connection option \<times> proxy_pool" where
  "pool_take poll key pool =
     (case store_get pool key of
        None \<Rightarrow> (None, pool)
      | Some entries \<Rightarrow>
          (let (reusable, rest) = pop_idle poll (rev entries); entries = rev rest
           in (reusable,
               if entries = [] then store_retain (\<lambda>k _. k \<noteq> key) pool else store_put key entries pool)))"

definition pool_put :: "pool_key \<Rightarrow> pooled_connection \<Rightarrow> proxy_pool \<Rightarrow> proxy_pool" where
  "pool_put key conn pool =
     (if pc_buffered conn > 0 then pool
      else
        (let entries = (case store_get pool key of None \<Rightarrow> [] | Some es \<Rightarrow> es)
         in if MAX_POOL_PER_KEY \<le> length entries then store_put key entries pool
            else store_put key (entries @ [conn]) pool))"

subsection \<open>A worker\<close>

text \<open>
  The pool and the connections that requests hold.  A request opens a connection or takes one
  from the pool; it ends by returning it, with whatever state it is then in, or by closing it.
\<close>

record worker_state =
  ws_pool :: proxy_pool
  ws_held :: "nat set"

definition pooled_ids :: "proxy_pool \<Rightarrow> nat list" where
  "pooled_ids pool = map pc_id (concat (map snd pool))"

inductive worker_step :: "worker_state \<Rightarrow> worker_state \<Rightarrow> bool" where
  Open: "n \<notin> ws_held w \<Longrightarrow> n \<notin> set (pooled_ids (ws_pool w)) \<Longrightarrow>
    worker_step w (w\<lparr>ws_held := insert n (ws_held w)\<rparr>)"
| Take: "pool_take poll key (ws_pool w) = (r, pool') \<Longrightarrow>
    worker_step w \<lparr>ws_pool = pool', ws_held = ws_held w \<union> set_option (map_option pc_id r)\<rparr>"
| Return: "pc_id c \<in> ws_held w \<Longrightarrow>
    worker_step w \<lparr>ws_pool = pool_put key c (ws_pool w), ws_held = ws_held w - {pc_id c}\<rparr>"
| Close: "worker_step w (w\<lparr>ws_held := ws_held w - {n}\<rparr>)"

inductive worker_reachable :: "worker_state \<Rightarrow> bool" where
  Init: "worker_reachable \<lparr>ws_pool = [], ws_held = {}\<rparr>"
| Step: "worker_reachable w \<Longrightarrow> worker_step w w' \<Longrightarrow> worker_reachable w'"

text \<open>
  The invariant: every list is short and not empty and holds no connection with unread bytes,
  and no connection is in two places.
\<close>

definition pool_ok :: "proxy_pool \<Rightarrow> bool" where
  "pool_ok pool =
     (store_wf pool \<and>
      list_all (\<lambda>(_, es). es \<noteq> [] \<and> length es \<le> MAX_POOL_PER_KEY \<and> list_all (\<lambda>c. pc_buffered c = 0) es) pool)"

definition worker_ok :: "worker_state \<Rightarrow> bool" where
  "worker_ok w = (pool_ok (ws_pool w) \<and> distinct (pooled_ids (ws_pool w)) \<and> ws_held w \<inter> set (pooled_ids (ws_pool w)) = {})"

inductive_cases worker_stepE: "worker_step w w'"

lemma pooled_put:
  "mset (pooled_ids (store_put k es pool)) + mset (map pc_id (case store_get pool k of None \<Rightarrow> [] | Some es \<Rightarrow> es)) =
   mset (pooled_ids pool) + mset (map pc_id es)"
  by (induction pool) (auto simp: pooled_ids_def store_put_def store_get_def)

lemma pooled_retain:
  assumes "store_wf pool" and "store_get pool k = Some es"
  shows "mset (pooled_ids pool) = mset (map pc_id es) + mset (pooled_ids (store_retain (\<lambda>k' _. k' \<noteq> k) pool))"
  using assms
proof (induction pool)
  case (Cons kv pool)
  have "store_retain (\<lambda>k' _. k' \<noteq> k) pool = pool" if "k \<notin> fst ` set pool"
    using that by (force simp: store_retain_def filter_id_conv)
  with Cons show ?case
    by (cases kv) (auto simp: pooled_ids_def store_get_def store_wf_def store_retain_def split: if_splits)
qed (simp add: store_get_def)

definition taken :: "pooled_connection option \<Rightarrow> pooled_connection list" where
  "taken r = (case r of None \<Rightarrow> [] | Some c \<Rightarrow> [c])"

lemma pop_idle_split:
  "pop_idle poll cs = (r, rest) \<Longrightarrow> \<exists>skipped. cs = skipped @ taken r @ rest \<and> list_all (\<lambda>c. \<not> connection_still_idle poll c) skipped"
proof (induction poll cs rule: pop_idle.induct)
  case (2 poll c cs)
  show ?case
  proof (cases "connection_still_idle poll c")
    case True
    then show ?thesis using 2 by (intro exI [of _ "[]"]) (auto simp: taken_def)
  next
    case False
    then obtain skipped where "cs = skipped @ taken r @ rest" "list_all (\<lambda>c. \<not> connection_still_idle poll c) skipped"
      using 2 by auto
    then show ?thesis using False by (intro exI [of _ "c # skipped"]) simp
  qed
qed (simp add: taken_def)

lemma pop_idle_idle: "pop_idle poll cs = (Some c, rest) \<Longrightarrow> connection_still_idle poll c"
  by (induction poll cs rule: pop_idle.induct) (auto split: if_splits)

definition entries_ok :: "pooled_connection list \<Rightarrow> bool" where
  "entries_ok es = (es \<noteq> [] \<and> length es \<le> MAX_POOL_PER_KEY \<and> list_all (\<lambda>c. pc_buffered c = 0) es)"

lemma pool_ok_alt: "pool_ok pool \<longleftrightarrow> store_wf pool \<and> (\<forall>(k, es) \<in> set pool. entries_ok es)"
  by (auto simp: pool_ok_def entries_ok_def list_all_iff)

lemma pool_ok_get: "pool_ok pool \<Longrightarrow> store_get pool k = Some es \<Longrightarrow> entries_ok es"
  by (auto simp: pool_ok_alt store_get_def dest!: map_of_SomeD)

lemma set_store_put: "set (store_put k es pool) \<subseteq> insert (k, es) (set pool)"
  unfolding store_put_def by (induction pool) auto

lemma pool_ok_put: "pool_ok pool \<Longrightarrow> entries_ok es \<Longrightarrow> pool_ok (store_put k es pool)"
  using set_store_put [of k es pool] by (auto simp: pool_ok_alt st.wf_put)

lemma pool_ok_retain: "pool_ok pool \<Longrightarrow> pool_ok (store_retain p pool)"
  by (auto simp: pool_ok_alt st.wf_retain) (auto simp: store_retain_def)

text \<open>A connection that is taken leaves the pool; the ones above it, which are not idle, are dropped.\<close>

lemma pool_take_split:
  assumes "pool_take poll key pool = (r, pool')" and "store_get pool key = Some es"
  obtains skipped rest where "rev es = skipped @ taken r @ rest" and "list_all (\<lambda>c. \<not> connection_still_idle poll c) skipped"
    and "pop_idle poll (rev es) = (r, rest)"
    and "pool' = (if rest = [] then store_retain (\<lambda>k _. k \<noteq> key) pool else store_put key (rev rest) pool)"
proof -
  obtain rest where "pop_idle poll (rev es) = (r, rest)"
    and "pool' = (if rest = [] then store_retain (\<lambda>k _. k \<noteq> key) pool else store_put key (rev rest) pool)"
    using assms by (auto simp: pool_take_def split: prod.splits)
  then show ?thesis using pop_idle_split that by blast
qed

lemma pool_take_ok:
  assumes "pool_ok pool" and "pool_take poll key pool = (r, pool')"
  shows "pool_ok pool'"
proof (cases "store_get pool key")
  case None
  then show ?thesis using assms by (simp add: pool_take_def)
next
  case (Some es)
  from assms(2) Some obtain skipped rest where split: "rev es = skipped @ taken r @ rest"
    and pool': "pool' = (if rest = [] then store_retain (\<lambda>k _. k \<noteq> key) pool else store_put key (rev rest) pool)"
    by (rule pool_take_split)
  have "length rest \<le> length es" "set rest \<subseteq> set es"
    using arg_cong [OF split, of length] arg_cong [OF split, of set] by auto
  then have "rest \<noteq> [] \<Longrightarrow> entries_ok (rev rest)"
    using pool_ok_get [OF assms(1) Some] by (auto simp: entries_ok_def list_all_iff)
  then show ?thesis using assms(1) by (simp add: pool' pool_ok_put pool_ok_retain)
qed

lemma pool_take_ids:
  assumes "pool_ok pool" and "pool_take poll key pool = (r, pool')"
  shows "\<exists>gone. mset (pooled_ids pool) = mset (pooled_ids pool') + mset (map pc_id (taken r)) + mset gone"
proof (cases "store_get pool key")
  case None
  then show ?thesis using assms(2) by (auto simp: pool_take_def taken_def intro: exI [of _ "[]"])
next
  case (Some es)
  from assms(2) Some obtain skipped rest where split: "rev es = skipped @ taken r @ rest"
    and pool': "pool' = (if rest = [] then store_retain (\<lambda>k _. k \<noteq> key) pool else store_put key (rev rest) pool)"
    by (rule pool_take_split)
  have ids: "mset (map pc_id es) = mset (map pc_id skipped) + mset (map pc_id (taken r)) + mset (map pc_id rest)"
    using arg_cong [OF split, of "\<lambda>l. mset (map pc_id l)"] by (simp add: rev_map [symmetric])
  have "mset (pooled_ids pool) + mset (map pc_id rest) = mset (pooled_ids pool') + mset (map pc_id es)"
    using pooled_retain [OF _ Some] pooled_put [of key "rev rest" pool] Some assms(1) pool'
    by (cases "rest = []") (auto simp: pool_ok_def rev_map [symmetric])
  then have "mset (pooled_ids pool) = mset (pooled_ids pool') + mset (map pc_id (taken r)) + mset (map pc_id skipped)"
    using ids by simp
  then show ?thesis by blast
qed

lemma pool_put_ok: "pool_ok pool \<Longrightarrow> pool_ok (pool_put key conn pool)"
  using pool_ok_get [of pool key]
  by (auto simp: pool_put_def Let_def entries_ok_def MAX_POOL_PER_KEY_def intro!: pool_ok_put split: option.split)

lemma pool_put_ids: "mset (pooled_ids (pool_put key conn pool)) \<subseteq># mset (pooled_ids pool) + {#pc_id conn#}"
  using pooled_put [of key "(case store_get pool key of None \<Rightarrow> [] | Some es \<Rightarrow> es) @ [conn]" pool]
    pooled_put [of key "case store_get pool key of None \<Rightarrow> [] | Some es \<Rightarrow> es" pool]
  by (auto simp: pool_put_def Let_def split: option.split)

subsection \<open>Properties\<close>

lemma distinct_mset_le: "distinct xs \<Longrightarrow> mset ys \<subseteq># mset xs \<Longrightarrow> distinct ys \<and> set ys \<subseteq> set xs"
proof -
  assume xs: "distinct xs" and "mset ys \<subseteq># mset xs"
  then obtain zs where "mset xs = mset (ys @ zs)" by (metis ex_mset mset_append mset_subset_eq_exists_conv)
  then show ?thesis using xs by (metis distinct_append mset_eq_imp_distinct_iff mset_eq_setD set_append Un_upper1)
qed

lemma worker_step_ok:
  assumes "worker_ok w" and "worker_step w w'"
  shows "worker_ok w'"
  using assms(2)
proof (cases rule: worker_step.cases)
  case (Take poll key r pool')
  let ?p = "pooled_ids (ws_pool w)"
  have ok: "pool_ok (ws_pool w)" using assms(1) by (simp add: worker_ok_def)
  obtain gone where ids: "mset ?p = mset (pooled_ids pool') + mset (map pc_id (taken r)) + mset gone"
    using pool_take_ids [OF ok Take(2)] by blast
  have "mset (pooled_ids pool' @ map pc_id (taken r)) \<subseteq># mset ?p" unfolding ids by simp
  then have "distinct (pooled_ids pool' @ map pc_id (taken r)) \<and> set (pooled_ids pool' @ map pc_id (taken r)) \<subseteq> set ?p"
    using assms(1) by (intro distinct_mset_le) (simp_all add: worker_ok_def)
  moreover have "set (map pc_id (taken r)) = set_option (map_option pc_id r)" by (cases r) (simp_all add: taken_def)
  ultimately show ?thesis using assms(1) pool_take_ok [OF ok Take(2)]
    by (auto simp: Take(1) worker_ok_def)
next
  case (Return c key)
  have "distinct (pc_id c # pooled_ids (ws_pool w))" using assms(1) Return by (auto simp: worker_ok_def)
  moreover have "mset (pooled_ids (pool_put key c (ws_pool w))) \<subseteq># mset (pc_id c # pooled_ids (ws_pool w))"
    using pool_put_ids by simp
  ultimately have "distinct (pooled_ids (pool_put key c (ws_pool w))) \<and>
      set (pooled_ids (pool_put key c (ws_pool w))) \<subseteq> set (pc_id c # pooled_ids (ws_pool w))"
    by (rule distinct_mset_le)
  then show ?thesis using assms(1) by (auto simp: Return(1) worker_ok_def pool_put_ok)
qed (use assms(1) in \<open>auto simp: worker_ok_def\<close>)

text \<open>C13. 
  Whatever the requests of a worker do, no backend connection is used twice at a time: the
  pooled ones are all different, none of them is held by a request, none has unread bytes of an
  earlier response, and no key has more than 128.
\<close>

theorem pool_exclusive:
  assumes "worker_reachable w"
  shows "distinct (pooled_ids (ws_pool w)) \<and> ws_held w \<inter> set (pooled_ids (ws_pool w)) = {} \<and>
    list_all (\<lambda>(_, es). length es \<le> 128 \<and> list_all (\<lambda>c. pc_buffered c = 0) es) (ws_pool w)"
proof -
  have "worker_ok w" using assms
  proof induction
    case Init
    then show ?case by (simp add: worker_ok_def pool_ok_def pooled_ids_def store_wf_def)
  qed (rule worker_step_ok)
  then show ?thesis by (auto simp: worker_ok_def pool_ok_def MAX_POOL_PER_KEY_def list_all_iff)
qed

text \<open>A witness: two connections are opened, one is returned.\<close>

definition sample_connection :: pooled_connection where
  "sample_connection = \<lparr>pc_id = 7, pc_transport = Http, pc_fd = Some 3, pc_buffered = 0\<rparr>"

definition sample_key :: pool_key where
  "sample_key = PoolKey_new ''Backend'' 80 False"

lemma sample_worker: "worker_reachable \<lparr>ws_pool = [(sample_key, [sample_connection])], ws_held = {8}\<rparr>"
proof -
  let ?w0 = "\<lparr>ws_pool = [], ws_held = {}\<rparr> :: worker_state"
  have "worker_step ?w0 (?w0\<lparr>ws_held := {7}\<rparr>)" using worker_step.Open [of 7 ?w0] by (simp add: pooled_ids_def)
  then have "worker_reachable (?w0\<lparr>ws_held := {7}\<rparr>)" using worker_reachable.intros by blast
  moreover have "worker_step (?w0\<lparr>ws_held := {7}\<rparr>) (?w0\<lparr>ws_held := {8, 7}\<rparr>)"
    using worker_step.Open [of 8 "?w0\<lparr>ws_held := {7}\<rparr>"] by (simp add: pooled_ids_def)
  ultimately have "worker_reachable (?w0\<lparr>ws_held := {8, 7}\<rparr>)" by (rule worker_reachable.Step)
  moreover have "worker_step (?w0\<lparr>ws_held := {8, 7}\<rparr>) \<lparr>ws_pool = [(sample_key, [sample_connection])], ws_held = {8}\<rparr>"
    using worker_step.Return [of sample_connection "?w0\<lparr>ws_held := {8, 7}\<rparr>" sample_key]
    by (simp add: sample_connection_def pool_put_def store_get_def store_put_def MAX_POOL_PER_KEY_def insert_Diff_if)
  ultimately show ?thesis by (rule worker_reachable.Step)
qed

theorem pool_exclusive_witness: "{8} \<inter> set (pooled_ids [(sample_key, [sample_connection])]) = {}"
  using pool_exclusive [OF sample_worker] by simp

text \<open>
  What is taken from the pool was returned under the same key, is idle now, and everything
  returned under the key after it is not.
\<close>

lemma pool_take_idle:
  assumes "store_wf pool" and "pool_take poll key pool = (Some c, pool')"
  shows "\<exists>before after. store_get pool key = Some (before @ c # after) \<and> connection_still_idle poll c \<and>
    list_all (\<lambda>d. \<not> connection_still_idle poll d) after \<and>
    store_get pool' key = (if before = [] then None else Some before)"
proof -
  obtain es where es: "store_get pool key = Some es" using assms(2) by (auto simp: pool_take_def split: option.splits)
  from assms(2) es obtain skipped rest where split: "rev es = skipped @ taken (Some c) @ rest"
    and after: "list_all (\<lambda>c. \<not> connection_still_idle poll c) skipped" and pop: "pop_idle poll (rev es) = (Some c, rest)"
    and pool': "pool' = (if rest = [] then store_retain (\<lambda>k _. k \<noteq> key) pool else store_put key (rev rest) pool)"
    by (rule pool_take_split)
  have "es = rev rest @ c # rev skipped" using arg_cong [OF split, of rev] by (simp add: taken_def)
  moreover have "store_get pool' key = (if rev rest = [] then None else Some (rev rest))"
    using assms(1) es by (simp add: pool' st.get_retain st.get_put)
  moreover have "list_all (\<lambda>c. \<not> connection_still_idle poll c) (rev skipped)" using after by (simp add: list_all_iff)
  ultimately show ?thesis using es pop_idle_idle [OF pop] by blast
qed

end
