(* ===== verification/Handoff.thy ===== *)
theory Handoff
  imports Prelude "HOL-Library.Multiset"
begin

text \<open>
  The assignment of accepted connections to workers that share a listening socket,
  \<open>src/src/handoff.rs\<close>.  Each worker's accept loop draws from one counter of \<open>usize\<close>, which
  wraps, and hands the connection to the worker it names, or serves it itself if that worker is
  gone.  A connection is a number; whether it can be registered again when the hand-off fails
  is a parameter.
\<close>

record handoff =
  ho_next :: u64
  ho_queues :: "nat list list"
  ho_alive :: "bool list"

text \<open>The endpoints of the workers: empty queues and receivers that all exist.\<close>

definition handoff_groups :: "nat \<Rightarrow> handoff" where
  "handoff_groups workers = \<lparr>ho_next = 0, ho_queues = replicate workers [], ho_alive = replicate workers True\<rparr>"

text \<open>\<open>ConnDistributor::route\<close>: the connection to serve here, if any.\<close>

definition route_conn :: "(nat \<Rightarrow> bool) \<Rightarrow> nat \<Rightarrow> nat \<Rightarrow> handoff \<Rightarrow> nat option \<times> handoff" where
  "route_conn into_stream worker_id conn h =
     (let target = unat (ho_next h) mod length (ho_queues h);
          h = h\<lparr>ho_next := ho_next h + 1\<rparr>
      in if target = worker_id then (Some conn, h)
         else if ho_alive h ! target then
           (None, h\<lparr>ho_queues := (ho_queues h)[target := ho_queues h ! target @ [conn]]\<rparr>)
         else (if into_stream conn then Some conn else None, h))"

subsection \<open>Runs\<close>

text \<open>
  A run of the accept loops: which worker accepted which connection, in the order of the draws;
  the result adds the connections each worker serves directly.
\<close>

fun run_accepts ::
  "(nat \<Rightarrow> bool) \<Rightarrow> (nat \<times> nat) list \<Rightarrow> handoff \<Rightarrow> (nat \<times> nat) list \<Rightarrow> handoff \<times> (nat \<times> nat) list" where
  "run_accepts into_stream [] h kept = (h, kept)"
| "run_accepts into_stream ((w, c) # accepts) h kept =
     (case route_conn into_stream w c h of
        (Some c', h') \<Rightarrow> run_accepts into_stream accepts h' (kept @ [(w, c')])
      | (None, h') \<Rightarrow> run_accepts into_stream accepts h' kept)"

text \<open>How many connections a worker has: those it kept and those in its queue.\<close>

definition worker_load :: "nat \<Rightarrow> handoff \<times> (nat \<times> nat) list \<Rightarrow> nat" where
  "worker_load w r = length (filter (\<lambda>(v, _). v = w) (snd r)) + length (ho_queues (fst r) ! w)"

text \<open>The multiples of the number of workers: how many of the first draws name a worker.\<close>

definition draws :: "nat \<Rightarrow> nat \<Rightarrow> nat \<Rightarrow> nat" where
  "draws n w m = card {i. i < m \<and> i mod n = w}"

lemma draws_Suc: "draws n w (Suc m) = draws n w m + of_bool (m mod n = w)"
proof -
  have "{i. i < Suc m \<and> i mod n = w} = (if m mod n = w then insert m {i. i < m \<and> i mod n = w} else {i. i < m \<and> i mod n = w})"
    by (auto simp: less_Suc_eq)
  then show ?thesis by (simp add: draws_def)
qed

lemma draws_bounds: "w < n \<Longrightarrow> m div n \<le> draws n w m \<and> draws n w m \<le> m div n + 1"
proof -
  assume "w < n"
  have "draws n w m = m div n + of_bool (w < m mod n)"
  proof (induction m)
    case 0
    show ?case by (simp add: draws_def)
  next
    case (Suc m)
    show ?case using Suc \<open>w < n\<close> by (auto simp: draws_Suc mod_Suc div_Suc)
  qed
  then show ?thesis by simp
qed

lemma route_conn_balanced:
  assumes h: "ho_next h = of_nat k" "k < 2 ^ 64" "length (ho_queues h) = n" "ho_alive h = replicate n True"
    and w: "w < n" and v: "v < n"
    and step: "route_conn into_stream v c h = (r, h')"
  shows "ho_next h' = of_nat (Suc k) \<and> length (ho_queues h') = n \<and> ho_alive h' = ho_alive h"
    and "worker_load w (h', kept @ (case r of None \<Rightarrow> [] | Some c' \<Rightarrow> [(v, c')])) = worker_load w (h, kept) + of_bool (k mod n = w)"
proof -
  have k: "unat (ho_next h) = k" using h(1,2) by (simp add: unat_of_nat take_bit_nat_eq_self)
  have t: "k mod n < n" using w by simp
  show "ho_next h' = of_nat (Suc k) \<and> length (ho_queues h') = n \<and> ho_alive h' = ho_alive h"
    using step h t by (auto simp: route_conn_def k Let_def split: if_splits)
  show "worker_load w (h', kept @ (case r of None \<Rightarrow> [] | Some c' \<Rightarrow> [(v, c')])) = worker_load w (h, kept) + of_bool (k mod n = w)"
    using step h(3,4) t v w by (auto simp: route_conn_def k Let_def worker_load_def nth_list_update split: if_splits)
qed

lemma run_accepts_balanced:
  assumes "ho_next h = of_nat k" "k + length accepts \<le> 2 ^ 64" "length (ho_queues h) = n" "ho_alive h = replicate n True"
    and "w < n" and "list_all (\<lambda>(v, _). v < n) accepts"
  shows "worker_load w (run_accepts into_stream accepts h kept) + draws n w k = worker_load w (h, kept) + draws n w (k + length accepts)"
  using assms(1-4,6)
proof (induction accepts arbitrary: h k kept)
  case (Cons a accepts)
  obtain v c where a: "a = (v, c)" by (cases a)
  obtain r h' where step: "route_conn into_stream v c h = (r, h')" by (cases "route_conn into_stream v c h")
  have k: "k < 2 ^ 64" and v: "v < n" using Cons.prems a by auto
  note next_state = route_conn_balanced [OF Cons.prems(1) k Cons.prems(3,4) assms(5) v step]
  let ?kept = "kept @ (case r of None \<Rightarrow> [] | Some c' \<Rightarrow> [(v, c')])"
  have "run_accepts into_stream (a # accepts) h kept = run_accepts into_stream accepts h' ?kept"
    by (cases r) (simp_all add: a step)
  moreover have "worker_load w (run_accepts into_stream accepts h' ?kept) + draws n w (Suc k) =
      worker_load w (h', ?kept) + draws n w (Suc k + length accepts)"
    using next_state(1) Cons.prems a by (intro Cons.IH) simp_all
  ultimately show ?case using next_state(2) [of kept] by (simp add: draws_Suc)
qed simp

text \<open>C26. 
  Connections are spread evenly: after any number of accepts, up to \<open>2^64\<close>, by any of the
  workers in any order, each of \<open>n\<close> workers has the \<open>n\<close>th part, rounded down or up.
\<close>

theorem handoff_balanced:
  assumes "w < n" and "list_all (\<lambda>(v, _). v < n) accepts" and "length accepts \<le> 2 ^ 64"
  shows "worker_load w (run_accepts into_stream accepts (handoff_groups n) []) \<in>
    {length accepts div n, length accepts div n + 1}"
proof -
  have "worker_load w (run_accepts into_stream accepts (handoff_groups n) []) = draws n w (length accepts)"
    using run_accepts_balanced [of "handoff_groups n" 0 accepts n w into_stream "[]"] assms
    by (simp add: handoff_groups_def worker_load_def draws_def)
  then show ?thesis using draws_bounds [OF assms(1), of "length accepts"] by auto
qed

theorem handoff_balanced_witness:
  "worker_load 1 (run_accepts (\<lambda>_. True) [(0, 10), (0, 11), (0, 12), (1, 13)] (handoff_groups 2) []) \<in> {2, 3}"
proof -
  let ?a = "[(0, 10), (0, 11), (0, 12), (1, 13)] :: (nat \<times> nat) list"
  have "worker_load 1 (run_accepts (\<lambda>_. True) ?a (handoff_groups 2) []) \<in> {length ?a div 2, length ?a div 2 + 1}"
    by (rule handoff_balanced) simp_all
  moreover have "length ?a div 2 = 2" "length ?a div 2 + 1 = 3" by simp_all
  ultimately show ?thesis by (simp only:)
qed

text \<open>
  No connection is lost or served twice, whichever workers are gone, as long as a connection
  that could not be handed over can be registered again.
\<close>

lemma route_conn_conserves:
  assumes "route_conn into_stream v c h = (r, h')" and "into_stream c" and "0 < length (ho_queues h)"
  shows "mset (concat (ho_queues h')) + mset (case r of None \<Rightarrow> [] | Some c' \<Rightarrow> [c']) = add_mset c (mset (concat (ho_queues h)))"
    and "length (ho_queues h') = length (ho_queues h)"
proof -
  have upd: "i < length qs \<Longrightarrow> mset (concat (qs[i := qs ! i @ [c]])) = add_mset c (mset (concat qs))" for i and qs :: "nat list list"
    by (induction qs arbitrary: i) (auto split: nat.split)
  have "unat (ho_next h) mod length (ho_queues h) < length (ho_queues h)" using assms(3) by simp
  then show "mset (concat (ho_queues h')) + mset (case r of None \<Rightarrow> [] | Some c' \<Rightarrow> [c']) = add_mset c (mset (concat (ho_queues h)))"
    using assms(1,2) upd by (auto simp: route_conn_def Let_def split: if_splits)
  show "length (ho_queues h') = length (ho_queues h)" using assms(1) by (auto simp: route_conn_def Let_def split: if_splits)
qed

lemma run_accepts_conserves:
  "list_all (\<lambda>(_, c). into_stream c) accepts \<Longrightarrow> 0 < length (ho_queues h) \<Longrightarrow>
   run_accepts into_stream accepts h kept = (h', kept') \<Longrightarrow>
   mset (map snd kept') + mset (concat (ho_queues h')) =
   mset (map snd kept) + mset (concat (ho_queues h)) + mset (map snd accepts)"
proof (induction into_stream accepts h kept rule: run_accepts.induct)
  case (2 into_stream w c accepts h kept)
  obtain r h1 where step: "route_conn into_stream w c h = (r, h1)" by (cases "route_conn into_stream w c h")
  have "into_stream c" using "2.prems"(1) by simp
  note one = route_conn_conserves [OF step this "2.prems"(2)]
  have rest: "list_all (\<lambda>(_, c). into_stream c) accepts" "0 < length (ho_queues h1)" using "2.prems"(1,2) one(2) by simp_all
  show ?case
  proof (cases r)
    case None
    then show ?thesis using "2.IH"(1) [OF step [symmetric, unfolded None] refl rest] "2.prems"(3) one step by simp
  next
    case (Some c')
    then show ?thesis using "2.IH"(2) [OF step [symmetric, unfolded Some] refl rest] "2.prems"(3) one step by simp
  qed
qed simp

lemma handoff_no_loss:
  assumes "list_all (\<lambda>(_, c). into_stream c) accepts" and "0 < length (ho_queues h)"
    and "run_accepts into_stream accepts h [] = (h', kept)"
  shows "mset (map snd kept) + mset (concat (ho_queues h')) = mset (concat (ho_queues h)) + mset (map snd accepts)"
  using run_accepts_conserves [OF assms] by simp

end
