(* ===== verification/Json_Ref.thy ===== *)
theory Json_Ref
  imports Json
begin

text \<open>
  References into a shared JSON tree, \<open>src/src/json.rs\<close>: raw pointers to nodes, guarded by an
  epoch that every modification advances.  A pointer is the path of its node in the tree; a path
  that leads nowhere is a dangling pointer, and following it is undefined behaviour.  The closures
  the operations run are functions that do not call back into the tree.
\<close>

datatype json_step = Member string | Element nat

fun child :: "json_step \<Rightarrow> json \<Rightarrow> json option" where
  "child (Member k) v = json_get v k"
| "child (Element i) v = json_index v i"

fun node_at :: "json_step list \<Rightarrow> json \<Rightarrow> json option" where
  "node_at [] v = Some v"
| "node_at (s # p) v = Option.bind (child s v) (node_at p)"

text \<open>Writing through a pointer changes the node in place.\<close>

fun set_member :: "string \<Rightarrow> json \<Rightarrow> (string \<times> json) list \<Rightarrow> (string \<times> json) list" where
  "set_member k v [] = []"
| "set_member k v ((k', v') # m) = (if k' = k then (k', v) # m else (k', v') # set_member k v m)"

definition put_child :: "json_step \<Rightarrow> json \<Rightarrow> json \<Rightarrow> json" where
  "put_child s c v =
     (case (s, v) of
        (Member k, JObj m) \<Rightarrow> JObj (set_member k c m)
      | (Element i, JArr xs) \<Rightarrow> JArr (xs[i := c])
      | _ \<Rightarrow> v)"

fun write_at :: "json_step list \<Rightarrow> json \<Rightarrow> json \<Rightarrow> json" where
  "write_at [] c v = c"
| "write_at (s # p) c v = (case child s v of None \<Rightarrow> v | Some w \<Rightarrow> put_child s (write_at p c w) v)"

lemma child_put: "child s v \<noteq> None \<Longrightarrow> child s (put_child s c v) = Some c"
proof -
  have "map_of m k \<noteq> None \<Longrightarrow> map_of (set_member k c m) k = Some c" for m k
    by (induction m) auto
  then show "child s v \<noteq> None \<Longrightarrow> child s (put_child s c v) = Some c"
    by (cases s; cases v) (auto simp: put_child_def json_get_def json_index_def split: if_splits)
qed

lemma node_at_write: "node_at p v \<noteq> None \<Longrightarrow> node_at p (write_at p c v) = Some c"
proof (induction p arbitrary: v)
  case (Cons s p)
  then obtain w where w: "child s v = Some w" "node_at p w \<noteq> None" by (cases "child s v") auto
  then show ?case using Cons.IH [OF w(2)] child_put [of s v "write_at p c w"] by simp
qed simp

lemma node_at_append: "node_at (p @ q) v = Option.bind (node_at p v) (node_at q)"
  by (induction p arbitrary: v) (auto split: Option.bind_split)

subsection \<open>References\<close>

record json_ref =
  jr_node :: "json_step list"
  jr_epoch :: u64

record json_tree =
  jt_root :: json
  jt_latest_epoch :: u64
  jt_readers :: nat
  jt_writer :: bool

text \<open>What a call does: it returns a value or \<open>Err(())\<close>, panics, or follows a dangling pointer.\<close>

datatype 'a access = Returned 'a | Stale | Panicked | Undefined

definition JsonRef_new :: "json \<Rightarrow> json_ref \<times> json_tree" where
  "JsonRef_new root =
     (\<lparr>jr_node = [], jr_epoch = 0\<rparr>, \<lparr>jt_root = root, jt_latest_epoch = 0, jt_readers = 0, jt_writer = False\<rparr>)"

definition JsonRef_root :: "json_tree \<Rightarrow> json_ref" where
  "JsonRef_root t = \<lparr>jr_node = [], jr_epoch = jt_latest_epoch t\<rparr>"

text \<open>The mapper borrows a node inside the one it is given, so its result is a path from there.\<close>

definition JsonRef_get ::
  "json_ref \<Rightarrow> (json \<Rightarrow> json_step list option) \<Rightarrow> json_tree \<Rightarrow> json_ref option access \<times> json_tree" where
  "JsonRef_get r mapper t =
     (if jr_epoch r \<noteq> jt_latest_epoch t then (Stale, t)
      else if jt_writer t then (Panicked, t)
      else
        (case node_at (jr_node r) (jt_root t) of
           None \<Rightarrow> (Undefined, t)
         | Some node \<Rightarrow>
             (let t = t\<lparr>jt_readers := jt_readers t + 1\<rparr>;
                  res = mapper node;
                  t = t\<lparr>jt_readers := jt_readers t - 1\<rparr>
              in (Returned (map_option (\<lambda>p. \<lparr>jr_node = jr_node r @ p, jr_epoch = jt_latest_epoch t\<rparr>) res), t))))"

definition JsonRef_view :: "json_ref \<Rightarrow> (json \<Rightarrow> 'a) \<Rightarrow> json_tree \<Rightarrow> 'a access \<times> json_tree" where
  "JsonRef_view r view t =
     (if jr_epoch r \<noteq> jt_latest_epoch t then (Stale, t)
      else if jt_writer t then (Panicked, t)
      else
        (case node_at (jr_node r) (jt_root t) of
           None \<Rightarrow> (Undefined, t)
         | Some node \<Rightarrow>
             (let t = t\<lparr>jt_readers := jt_readers t + 1\<rparr>;
                  ret = view node;
                  t = t\<lparr>jt_readers := jt_readers t - 1\<rparr>
              in (Returned ret, t))))"

text \<open>\<open>modify\<close> changes the reference too: its epoch advances with that of the tree.\<close>

definition JsonRef_modify ::
  "json_ref \<Rightarrow> (json \<Rightarrow> 'a \<times> json) \<Rightarrow> json_tree \<Rightarrow> 'a access \<times> json_ref \<times> json_tree" where
  "JsonRef_modify r modify t =
     (if jr_epoch r \<noteq> jt_latest_epoch t then (Stale, r, t)
      else if jt_writer t then (Panicked, r, t)
      else if jt_readers t \<noteq> 0 then (Panicked, r, t)
      else
        (let t = t\<lparr>jt_latest_epoch := jt_latest_epoch t + 1\<rparr>;
             r = r\<lparr>jr_epoch := jr_epoch r + 1\<rparr>
         in case node_at (jr_node r) (jt_root t) of
              None \<Rightarrow> (Undefined, r, t)
            | Some node \<Rightarrow>
                (let t = t\<lparr>jt_writer := True\<rparr>;
                     (ret, node') = modify node;
                     t = t\<lparr>jt_root := write_at (jr_node r) node' (jt_root t), jt_writer := False\<rparr>
                 in (Returned ret, r, t))))"

subsection \<open>Programs that hold references\<close>

text \<open>
  A program holds references to one tree, copies them and drops them, and calls the operations
  on any of them; \<open>n\<close> counts the modifications.  What \<open>modify\<close> returns to the program plays no role.
\<close>

record json_world =
  jw_tree :: json_tree
  jw_refs :: "json_ref list"

inductive json_run :: "nat \<Rightarrow> json_world \<Rightarrow> bool" where
  New: "JsonRef_new root = (r, t) \<Longrightarrow> json_run 0 \<lparr>jw_tree = t, jw_refs = [r]\<rparr>"
| Root: "json_run n w \<Longrightarrow> json_run n (w\<lparr>jw_refs := JsonRef_root (jw_tree w) # jw_refs w\<rparr>)"
| Copy: "json_run n w \<Longrightarrow> r \<in> set (jw_refs w) \<Longrightarrow> json_run n (w\<lparr>jw_refs := r # jw_refs w\<rparr>)"
| Drop: "json_run n w \<Longrightarrow> set rs \<subseteq> set (jw_refs w) \<Longrightarrow> json_run n (w\<lparr>jw_refs := rs\<rparr>)"
| Get: "json_run n w \<Longrightarrow> r \<in> set (jw_refs w) \<Longrightarrow>
    (\<And>v p. mapper v = Some p \<Longrightarrow> node_at p v \<noteq> None) \<Longrightarrow>
    JsonRef_get r mapper (jw_tree w) = (Returned res, t) \<Longrightarrow>
    json_run n \<lparr>jw_tree = t, jw_refs = (case res of None \<Rightarrow> [] | Some r' \<Rightarrow> [r']) @ jw_refs w\<rparr>"
| Modify: "json_run n w \<Longrightarrow> i < length (jw_refs w) \<Longrightarrow>
    JsonRef_modify (jw_refs w ! i) (f :: json \<Rightarrow> unit \<times> json) (jw_tree w) = (Returned ret, r', t) \<Longrightarrow>
    json_run (Suc n) \<lparr>jw_tree = t, jw_refs = (jw_refs w)[i := r']\<rparr>"

text \<open>
  The invariant: no access is under way, every reference has the epoch of some earlier moment,
  and the references of the current epoch point into the tree.
\<close>

definition json_ok :: "nat \<Rightarrow> json_world \<Rightarrow> bool" where
  "json_ok n w =
     (jt_latest_epoch (jw_tree w) = of_nat n \<and> jt_readers (jw_tree w) = 0 \<and> \<not> jt_writer (jw_tree w) \<and>
      (\<forall>r \<in> set (jw_refs w). \<exists>k \<le> n. jr_epoch r = of_nat k \<and>
         (k = n \<longrightarrow> node_at (jr_node r) (jt_root (jw_tree w)) \<noteq> None)))"

lemma of_nat_u64_eq: "k < 2 ^ 64 \<Longrightarrow> n < 2 ^ 64 \<Longrightarrow> (of_nat k :: u64) = of_nat n \<longleftrightarrow> k = n"
proof -
  have "unat (of_nat m :: u64) = m" if "m < 2 ^ 64" for m using that by (simp add: unat_of_nat take_bit_nat_eq_self)
  then show "k < 2 ^ 64 \<Longrightarrow> n < 2 ^ 64 \<Longrightarrow> (of_nat k :: u64) = of_nat n \<longleftrightarrow> k = n" by metis
qed

lemma json_ok_current:
  assumes "json_ok n w" and "n < 2 ^ 64" and "r \<in> set (jw_refs w)" and "jr_epoch r = jt_latest_epoch (jw_tree w)"
  shows "node_at (jr_node r) (jt_root (jw_tree w)) \<noteq> None"
proof -
  obtain k where k: "k \<le> n" "jr_epoch r = of_nat k" "k = n \<longrightarrow> node_at (jr_node r) (jt_root (jw_tree w)) \<noteq> None"
    using assms(1,3) by (auto simp: json_ok_def)
  have "k = n" using k(1,2) assms of_nat_u64_eq [of k n] by (simp add: json_ok_def)
  then show ?thesis using k(3) by simp
qed

lemma json_ok_access:
  assumes "json_ok n w" and "n < 2 ^ 64" and "r \<in> set (jw_refs w)"
  shows "fst (JsonRef_view r view (jw_tree w)) \<notin> {Panicked, Undefined}"
    and "snd (JsonRef_view r view (jw_tree w)) = jw_tree w"
    and "fst (JsonRef_get r mapper (jw_tree w)) \<notin> {Panicked, Undefined}"
    and "snd (JsonRef_get r mapper (jw_tree w)) = jw_tree w"
    and "fst (JsonRef_modify r modify (jw_tree w)) \<notin> {Panicked, Undefined}"
  using assms json_ok_current [OF assms]
  by (auto simp: JsonRef_view_def JsonRef_get_def JsonRef_modify_def json_ok_def Let_def split: option.split prod.split)

lemma json_ok_get:
  assumes ok: "json_ok n w" "n < 2 ^ 64" and r: "r \<in> set (jw_refs w)"
    and mapper: "\<And>v p. mapper v = Some p \<Longrightarrow> node_at p v \<noteq> None"
    and get: "JsonRef_get r mapper (jw_tree w) = (Returned res, t)"
  shows "json_ok n \<lparr>jw_tree = t, jw_refs = (case res of None \<Rightarrow> [] | Some r' \<Rightarrow> [r']) @ jw_refs w\<rparr>"
proof -
  have t: "t = jw_tree w" using json_ok_access(4) [OF ok r, of mapper] get by simp
  have cur: "jr_epoch r = jt_latest_epoch (jw_tree w)" using get by (auto simp: JsonRef_get_def split: if_splits)
  obtain v where v: "node_at (jr_node r) (jt_root (jw_tree w)) = Some v"
    using json_ok_current [OF ok r cur] by blast
  have "jr_epoch r' = of_nat n \<and> node_at (jr_node r') (jt_root (jw_tree w)) \<noteq> None" if "res = Some r'" for r'
    using get that v mapper ok(1)
    by (auto simp: JsonRef_get_def json_ok_def node_at_append Let_def split: if_splits)
  then show ?thesis using ok(1) t by (auto simp: json_ok_def split: option.split)
qed

lemma json_ok_modify:
  assumes ok: "json_ok n w" "Suc n < 2 ^ 64" and i: "i < length (jw_refs w)"
    and modify: "JsonRef_modify (jw_refs w ! i) f (jw_tree w) = (Returned ret, r', t)"
  shows "json_ok (Suc n) \<lparr>jw_tree = t, jw_refs = (jw_refs w)[i := r']\<rparr>"
proof -
  let ?r = "jw_refs w ! i"
  have r: "?r \<in> set (jw_refs w)" and n: "n < 2 ^ 64" using i ok(2) by simp_all
  have cur: "jr_epoch ?r = jt_latest_epoch (jw_tree w)" using modify by (auto simp: JsonRef_modify_def split: if_splits)
  obtain v where v: "node_at (jr_node ?r) (jt_root (jw_tree w)) = Some v"
    using json_ok_current [OF ok(1) n r cur] by blast
  have t: "jt_latest_epoch t = of_nat (Suc n) \<and> jt_readers t = 0 \<and> \<not> jt_writer t \<and>
      r' = ?r\<lparr>jr_epoch := of_nat (Suc n)\<rparr> \<and> jt_root t = write_at (jr_node ?r) (snd (f v)) (jt_root (jw_tree w))"
    using modify ok(1) cur v by (auto simp: JsonRef_modify_def json_ok_def Let_def split: if_splits prod.splits)
  have old: "\<exists>k \<le> Suc n. jr_epoch q = of_nat k \<and> k \<noteq> Suc n" if q: "q \<in> set (jw_refs w)" for q
  proof -
    obtain k where "k \<le> n" "jr_epoch q = of_nat k" using ok(1) q by (auto simp: json_ok_def)
    then show ?thesis by (intro exI [of _ k]) simp
  qed
  have new: "node_at (jr_node r') (jt_root t) \<noteq> None" using node_at_write [of "jr_node ?r" "jt_root (jw_tree w)"] v t by simp
  have "\<exists>k \<le> Suc n. jr_epoch q = of_nat k \<and> (k = Suc n \<longrightarrow> node_at (jr_node q) (jt_root t) \<noteq> None)"
    if "q \<in> set ((jw_refs w)[i := r'])" for q
  proof (cases "q = r'")
    case True
    then show ?thesis using t new by (intro exI [of _ "Suc n"]) simp
  next
    case False
    then have "q \<in> set (jw_refs w)" using that by (meson insertE set_update_subset_insert subsetD)
    then show ?thesis using old by blast
  qed
  then show ?thesis using t by (simp add: json_ok_def)
qed

lemma json_run_ok: "json_run n w \<Longrightarrow> n < 2 ^ 64 \<Longrightarrow> json_ok n w"
proof (induction rule: json_run.induct)
  case (New root r t)
  then show ?case by (auto simp: JsonRef_new_def json_ok_def)
next
  case (Root n w)
  then show ?case by (auto simp: json_ok_def JsonRef_root_def)
next
  case (Get n w r mapper res t)
  show ?case by (rule json_ok_get [OF Get.IH [OF Get.prems] Get.prems Get.hyps(2,3,4)])
next
  case (Modify n w i f ret r' t)
  have "n < 2 ^ 64" using Modify.prems by simp
  then show ?case using json_ok_modify [OF Modify.IH Modify.prems Modify.hyps(2,3)] by simp
qed (auto simp: json_ok_def)

text \<open>C6. 
  The pointers are never dangling when they are followed: whatever a program does with its
  references to a tree, for fewer than \<open>2^64\<close> modifications, every operation on every reference it
  holds returns a value or refuses the reference as stale.
\<close>

theorem json_refs_safe:
  assumes "json_run n w" and "n < 2 ^ 64" and "r \<in> set (jw_refs w)"
  shows "fst (JsonRef_view r view (jw_tree w)) \<notin> {Panicked, Undefined} \<and>
    fst (JsonRef_get r mapper (jw_tree w)) \<notin> {Panicked, Undefined} \<and>
    fst (JsonRef_modify r modify (jw_tree w)) \<notin> {Panicked, Undefined}"
  using json_ok_access [OF json_run_ok [OF assms(1,2)] assms(2,3)] by blast

text \<open>A witness: a member is taken, the root is changed, and the reference to the member is refused.\<close>

definition sample_json :: json where
  "sample_json = JObj [(''a'', JBool True)]"

definition sample_world :: json_world where
  "sample_world =
     \<lparr>jw_tree = \<lparr>jt_root = JNull, jt_latest_epoch = 1, jt_readers = 0, jt_writer = False\<rparr>,
      jw_refs = [\<lparr>jr_node = [Member ''a''], jr_epoch = 0\<rparr>, \<lparr>jr_node = [], jr_epoch = 1\<rparr>]\<rparr>"

lemma sample_json_run: "json_run 1 sample_world"
proof -
  let ?t0 = "\<lparr>jt_root = sample_json, jt_latest_epoch = 0, jt_readers = 0, jt_writer = False\<rparr>"
  let ?r0 = "\<lparr>jr_node = [], jr_epoch = 0\<rparr>" and ?ra = "\<lparr>jr_node = [Member ''a''], jr_epoch = 0\<rparr>"
  let ?m = "\<lambda>v. if json_get v ''a'' = None then None else Some [Member ''a'']"
  have run0: "json_run 0 \<lparr>jw_tree = ?t0, jw_refs = [?r0]\<rparr>"
    by (rule json_run.New [of sample_json]) (simp add: JsonRef_new_def)
  have get: "JsonRef_get ?r0 ?m ?t0 = (Returned (Some ?ra), ?t0)"
    by (simp add: JsonRef_get_def sample_json_def json_get_def)
  have "json_run 0 \<lparr>jw_tree = ?t0, jw_refs = (case Some ?ra of None \<Rightarrow> [] | Some r' \<Rightarrow> [r']) @ [?r0]\<rparr>"
  proof (rule json_run.Get [OF run0 _ _ _, simplified])
    show "JsonRef_get ?r0 ?m ?t0 = (Returned (Some ?ra), ?t0)" by (rule get)
  qed (auto split: if_splits)
  then have run1: "json_run 0 \<lparr>jw_tree = ?t0, jw_refs = [?ra, ?r0]\<rparr>" by simp
  have "JsonRef_modify ?r0 (\<lambda>v. ((), JNull)) ?t0 =
    (Returned (), \<lparr>jr_node = [], jr_epoch = 1\<rparr>, \<lparr>jt_root = JNull, jt_latest_epoch = 1, jt_readers = 0, jt_writer = False\<rparr>)"
    by (simp add: JsonRef_modify_def)
  then show ?thesis using json_run.Modify [OF run1, of 1 "\<lambda>v. ((), JNull)"] by (simp add: sample_world_def)
qed

theorem json_refs_safe_witness:
  "fst (JsonRef_view \<lparr>jr_node = [Member ''a''], jr_epoch = 0\<rparr> (\<lambda>v. v) (jw_tree sample_world)) = Stale"
proof -
  let ?r = "\<lparr>jr_node = [Member ''a''], jr_epoch = 0\<rparr>"
  have "?r \<in> set (jw_refs sample_world)" by (simp add: sample_world_def)
  then have "fst (JsonRef_view ?r (\<lambda>v. v) (jw_tree sample_world)) \<notin> {Panicked, Undefined}"
    using json_refs_safe [OF sample_json_run, of ?r "\<lambda>v. v" "\<lambda>_. None" "\<lambda>v. ((), v)"] by simp
  then show ?thesis by (simp add: JsonRef_view_def sample_world_def)
qed

end
