(* ===== verification/Proxy_Head.thy ===== *)
theory Proxy_Head
  imports Conditional
begin

text \<open>
  What a proxied request keeps of the client's, \<open>src/src/server.rs\<close>: the removal of hop-by-hop
  headers, and the path and query under the base of the backend.  Parsing the URI that results
  is left to the \<open>http\<close> crate.
\<close>

subsection \<open>Hop-by-hop headers\<close>

definition header_values_contain_token :: "http_lib \<Rightarrow> header_map \<Rightarrow> string \<Rightarrow> string \<Rightarrow> bool" where
  "header_values_contain_token lib headers name token =
     list_ex (\<lambda>v. value_to_str lib v \<and>
       list_ex (\<lambda>part. eq_ignore_ascii_case (str_trim part) token) (split_on (CHR '','') v)) (hm_get_all headers name)"

text \<open>The loop over the names in the \<open>Connection\<close> values: whether \<open>upgrade\<close> was seen, and the headers left.\<close>

fun strip_listed :: "bool \<Rightarrow> string list \<Rightarrow> bool \<Rightarrow> header_map \<Rightarrow> bool \<times> header_map" where
  "strip_listed keep_upgrade [] saw_upgrade headers = (saw_upgrade, headers)"
| "strip_listed keep_upgrade (name # names) saw_upgrade headers =
     (if name = [] then strip_listed keep_upgrade names saw_upgrade headers
      else if keep_upgrade \<and> eq_ignore_ascii_case name ''upgrade'' then strip_listed keep_upgrade names True headers
      else strip_listed keep_upgrade names saw_upgrade (hm_remove (to_ascii_lowercase name) headers))"

definition connection_values :: "http_lib \<Rightarrow> header_map \<Rightarrow> string list" where
  "connection_values lib headers = filter (value_to_str lib) (hm_get_all headers ''connection'')"

definition connection_names :: "string list \<Rightarrow> string list" where
  "connection_names vs = concat (map (\<lambda>v. map str_trim (split_on (CHR '','') v)) vs)"

definition HOP_HEADERS :: "string list" where
  "HOP_HEADERS = [''alt-svc'', ''connection'', ''proxy-connection'', ''proxy-authenticate'', ''proxy-authorization'',
     ''keep-alive'', ''te'', ''trailer'', ''transfer-encoding'', ''upgrade'', ''expect'']"

definition strip_hop_header :: "bool \<Rightarrow> bool \<Rightarrow> string \<Rightarrow> header_map \<Rightarrow> header_map" where
  "strip_hop_header keep_upgrade keep_te_trailers name headers =
     (if keep_upgrade \<and> (name = ''connection'' \<or> name = ''upgrade'') then headers
      else if name = ''te'' \<and> keep_te_trailers then hm_insert ''te'' ''trailers'' headers
      else hm_remove name headers)"

definition strip_hop_headers_inner :: "http_lib \<Rightarrow> header_map \<Rightarrow> bool \<Rightarrow> bool \<Rightarrow> header_map" where
  "strip_hop_headers_inner lib headers keep_upgrade preserve_te_trailers =
     (let vs = connection_values lib headers;
          headers =
            (if vs = [] then headers
             else
               (let (saw_upgrade, headers) = strip_listed keep_upgrade (connection_names vs) False headers
                in if keep_upgrade then
                     (if saw_upgrade then hm_insert ''connection'' ''upgrade'' headers
                      else hm_remove ''connection'' headers)
                   else headers));
          keep_te_trailers = (preserve_te_trailers \<and> header_values_contain_token lib headers ''te'' ''trailers'')
      in fold (strip_hop_header keep_upgrade keep_te_trailers) HOP_HEADERS headers)"

subsection \<open>Backend URIs\<close>

definition join_paths :: "string \<Rightarrow> string \<Rightarrow> string" where
  "join_paths base path =
     (let base = trim_end_char (CHR ''/'') base;
          path = (if path = [] then ''/'' else path)
      in if base = [] \<or> base = ''/'' then path
         else base @ ''/'' @ trim_start_char (CHR ''/'') path)"

definition merge_queries :: "string option \<Rightarrow> string option \<Rightarrow> string option" where
  "merge_queries base extra =
     (case (base, extra) of
        (Some b, Some e) \<Rightarrow>
          if b \<noteq> [] \<and> e \<noteq> [] then Some (b @ ''&'' @ e)
          else if b \<noteq> [] then Some b
          else if e \<noteq> [] then Some e
          else None
      | (Some b, None) \<Rightarrow> if b \<noteq> [] then Some b else None
      | (None, Some e) \<Rightarrow> if e \<noteq> [] then Some e else None
      | (None, None) \<Rightarrow> None)"

definition build_backend_uri :: "string \<Rightarrow> string option \<Rightarrow> string \<Rightarrow> string option \<Rightarrow> string" where
  "build_backend_uri base_path base_query req_path req_query =
     join_paths base_path req_path
     @ (case merge_queries base_query req_query of None \<Rightarrow> [] | Some q \<Rightarrow> ''?'' @ q)"

subsection \<open>Properties\<close>

definition listed :: "bool \<Rightarrow> string list \<Rightarrow> string set" where
  "listed keep names =
     to_ascii_lowercase ` {m \<in> set names. m \<noteq> [] \<and> \<not> (keep \<and> eq_ignore_ascii_case m ''upgrade'')}"

definition lists_upgrade :: "string list \<Rightarrow> bool" where
  "lists_upgrade names = list_ex (\<lambda>m. eq_ignore_ascii_case m ''upgrade'') names"

lemma listed_Cons:
  "listed keep (m # names) =
     (if m = [] \<or> keep \<and> eq_ignore_ascii_case m ''upgrade'' then listed keep names
      else insert (to_ascii_lowercase m) (listed keep names))"
  by (auto simp: listed_def)

lemma strip_listed_result:
  "store_wf headers \<Longrightarrow>
   store_wf (snd (strip_listed keep names saw headers)) \<and>
   fst (strip_listed keep names saw headers) = (saw \<or> keep \<and> lists_upgrade names) \<and>
   hm_get_all (snd (strip_listed keep names saw headers)) n = (if n \<in> listed keep names then [] else hm_get_all headers n)"
proof (induction keep names saw headers rule: strip_listed.induct)
  case (1 keep saw headers)
  then show ?case by (simp add: listed_def lists_upgrade_def)
next
  case (2 keep name names saw headers)
  have empty: "\<not> eq_ignore_ascii_case [] ''upgrade''" by (simp add: eq_ignore_ascii_case_def to_ascii_lowercase_def)
  have wf: "store_wf (hm_remove (to_ascii_lowercase name) headers)"
    using "2.prems" by (simp add: hm_remove_def st.wf_retain)
  consider "name = []" | "name \<noteq> []" "keep \<and> eq_ignore_ascii_case name ''upgrade''"
    | "name \<noteq> []" "\<not> (keep \<and> eq_ignore_ascii_case name ''upgrade'')" by blast
  then show ?case
  proof cases
    case 1
    then show ?thesis using "2.IH"(1) "2.prems" empty by (simp add: listed_Cons lists_upgrade_def)
  next
    case c: 2
    then show ?thesis using "2.IH"(2) "2.prems" by (simp add: listed_Cons lists_upgrade_def)
  next
    case c: 3
    have up: "keep \<and> lists_upgrade (name # names) \<longleftrightarrow> keep \<and> lists_upgrade names"
      using c(2) by (auto simp: lists_upgrade_def)
    have step: "strip_listed keep (name # names) saw headers =
        strip_listed keep names saw (hm_remove (to_ascii_lowercase name) headers)"
      using c by (simp only: strip_listed.simps if_False)
    show ?thesis using "2.IH"(3) [OF c wf] c "2.prems"
      by (simp only: step up) (auto simp: listed_Cons)
  qed
qed

lemma fold_strip_hop_header:
  "store_wf h \<Longrightarrow>
   hm_get_all (fold (strip_hop_header keep te) names h) n =
     (if n \<notin> set names \<or> keep \<and> (n = ''connection'' \<or> n = ''upgrade'') then hm_get_all h n
      else if n = ''te'' \<and> te then [''trailers''] else [])"
proof (induction names arbitrary: h)
  case (Cons name names)
  have wf: "store_wf (strip_hop_header keep te name h)"
    using Cons.prems by (simp add: strip_hop_header_def hm_remove_def st.wf_retain)
  have "hm_get_all (strip_hop_header keep te name h) n =
      (if n \<noteq> name \<or> keep \<and> (n = ''connection'' \<or> n = ''upgrade'') then hm_get_all h n
       else if n = ''te'' \<and> te then [''trailers''] else [])"
    using Cons.prems by (auto simp: strip_hop_header_def)
  then show ?case using Cons.IH [OF wf]
    by (cases "n = name"; cases "n \<in> set names"; cases "keep \<and> (n = ''connection'' \<or> n = ''upgrade'')") (simp_all, auto)
qed simp

text \<open>C16. 
  What every header of a proxied request becomes: those that concern one connection only, by the
  standard or because the client's \<open>Connection\<close> header lists them, are gone; \<open>TE\<close> is at most
  \<open>trailers\<close>; an upgrade keeps \<open>Connection: upgrade\<close> and \<open>Upgrade\<close>; all others are unchanged.
\<close>

theorem hop_headers_stripped:
  assumes "store_wf headers"
  shows "hm_get_all (strip_hop_headers_inner lib headers keep_upgrade preserve_te) n =
    (let vs = connection_values lib headers; gone = listed keep_upgrade (connection_names vs)
     in if n = ''te'' then
          (if preserve_te \<and> ''te'' \<notin> gone \<and> header_values_contain_token lib headers ''te'' ''trailers''
           then [''trailers''] else [])
        else if keep_upgrade \<and> n = ''connection'' \<and> vs \<noteq> [] then
          (if lists_upgrade (connection_names vs) then [''upgrade''] else [])
        else if keep_upgrade \<and> n \<in> {''connection'', ''upgrade''} then hm_get_all headers n
        else if n \<in> set HOP_HEADERS \<or> n \<in> gone then []
        else hm_get_all headers n)"
proof -
  define vs where "vs = connection_values lib headers"
  define names where "names = connection_names vs"
  define stripped where "stripped = strip_listed keep_upgrade names False headers"
  note sl = strip_listed_result [OF assms, of keep_upgrade names False, folded stripped_def]
  define h where "h =
    (if vs = [] then headers
     else if keep_upgrade then
       (if fst stripped then hm_insert ''connection'' ''upgrade'' (snd stripped) else hm_remove ''connection'' (snd stripped))
     else snd stripped)"
  have wf: "store_wf h" using assms sl by (auto simp: h_def hm_remove_def st.wf_retain)
  have none: "vs = [] \<Longrightarrow> listed keep_upgrade names = {}" by (simp add: names_def connection_names_def listed_def)
  have up: "keep_upgrade \<Longrightarrow> ''upgrade'' \<notin> listed keep_upgrade names"
    by (auto simp: listed_def eq_ignore_ascii_case_def to_ascii_lowercase_def to_ascii_lowercase1_def byte_val_def)
  have get: "hm_get_all h m =
      (if keep_upgrade \<and> m = ''connection'' \<and> vs \<noteq> [] then (if lists_upgrade names then [''upgrade''] else [])
       else if m \<in> listed keep_upgrade names then [] else hm_get_all headers m)" for m
    using sl none by (auto simp: h_def)
  have te: "header_values_contain_token lib h ''te'' ''trailers'' \<longleftrightarrow>
      ''te'' \<notin> listed keep_upgrade names \<and> header_values_contain_token lib headers ''te'' ''trailers''"
    by (simp add: header_values_contain_token_def get)
  have "strip_hop_headers_inner lib headers keep_upgrade preserve_te =
      fold (strip_hop_header keep_upgrade (preserve_te \<and> header_values_contain_token lib h ''te'' ''trailers'')) HOP_HEADERS h"
    by (simp add: strip_hop_headers_inner_def h_def stripped_def names_def vs_def Let_def case_prod_beta)
  then have result: "hm_get_all (strip_hop_headers_inner lib headers keep_upgrade preserve_te) n =
     (if n \<notin> set HOP_HEADERS \<or> keep_upgrade \<and> (n = ''connection'' \<or> n = ''upgrade'') then hm_get_all h n
      else if n = ''te'' \<and> preserve_te \<and> header_values_contain_token lib h ''te'' ''trailers'' then [''trailers''] else [])"
    using fold_strip_hop_header [OF wf] by simp
  have mem: "''te'' \<in> set HOP_HEADERS" "''upgrade'' \<in> set HOP_HEADERS" "''connection'' \<in> set HOP_HEADERS"
    by (simp_all add: HOP_HEADERS_def)
  consider "n = ''te''" | "n = ''connection''" | "n = ''upgrade''" | "n \<notin> {''te'', ''connection'', ''upgrade''}" by blast
  then show ?thesis
    unfolding vs_def [symmetric] names_def [symmetric] Let_def result
    by cases (simp_all add: get te mem, insert none up, auto)
qed

theorem hop_headers_stripped_witness:
  "hm_get_all (strip_hop_headers_inner visible_lib
     [(''connection'', [''close, X-Secret'']), (''x-secret'', [''1'']), (''host'', [''h''])] False False) ''x-secret'' = [] \<and>
   hm_get_all (strip_hop_headers_inner visible_lib
     [(''connection'', [''close, X-Secret'']), (''x-secret'', [''1'']), (''host'', [''h''])] False False) ''host'' = [''h'']"
proof -
  let ?h = "[(''connection'', [''close, X-Secret'']), (''x-secret'', [''1'']), (''host'', [''h''])] :: header_map"
  have wf: "store_wf ?h" by (simp add: store_wf_def)
  have names: "connection_names (connection_values visible_lib ?h) = [''close'', ''X-Secret'']"
    by (simp add: connection_values_def connection_names_def hm_get_all_def store_get_def visible_lib_def visible_def
      byte_val_def graphic_def str_trim_space)
  have gone: "listed False [''close'', ''X-Secret''] = {''close'', ''x-secret''}"
  proof -
    have "to_ascii_lowercase ''close'' = ''close''" "to_ascii_lowercase ''X-Secret'' = ''x-secret''" by code_simp+
    then show ?thesis by (simp add: listed_Cons) (simp add: listed_def)
  qed
  have "hm_get_all (strip_hop_headers_inner visible_lib ?h False False) n =
      (if n = ''te'' \<or> n \<in> set HOP_HEADERS \<or> n \<in> {''close'', ''x-secret''} then [] else hm_get_all ?h n)" for n
    using hop_headers_stripped [OF wf, of visible_lib False False n] unfolding Let_def names gone by simp
  moreover have "''host'' \<notin> set HOP_HEADERS" "''host'' \<noteq> ''te''" "hm_get_all ?h ''host'' = [''h'']"
    by (simp_all add: HOP_HEADERS_def hm_get_all_def store_get_def)
  ultimately show ?thesis by simp
qed

text \<open>The path of the backend is the base without its slashes and the path of the request below it.\<close>

lemma join_paths_below:
  assumes "trim_end_char (CHR ''/'') base \<noteq> []"
  shows "\<exists>rest. join_paths base path = trim_end_char (CHR ''/'') base @ ''/'' @ rest \<and> \<not> starts_with rest ''/''"
proof -
  have start: "\<not> starts_with (dropWhile (\<lambda>c. c = CHR ''/'') p) ''/''" for p
    by (induction p) (simp_all add: starts_with_def)
  have "trim_end_char (CHR ''/'') base \<noteq> ''/''"
  proof
    assume "trim_end_char (CHR ''/'') base = ''/''"
    then have "dropWhile (\<lambda>c. c = CHR ''/'') (rev base) = ''/''" by (simp add: trim_end_char_def)
    then show False using start [of "rev base"] by (simp add: starts_with_def)
  qed
  then show ?thesis using assms start by (simp add: join_paths_def Let_def trim_start_char_def)
qed

end
